(* ===== verification/Prelude.thy ===== *)
theory Prelude
  imports
    "HOL-Library.Word"
    "HOL-Library.Char_ord"
    "HOL-Library.List_Lexorder"
    "HOL-Library.Signed_Division"
    "HOL-Library.While_Combinator"
begin

section \<open>Shared vocabulary of the development\<close>

text \<open>
  What every component uses: the machine integers of the target platform (64-bit Linux, the
  platform of the Makefiles: \<open>char\<close> is signed, \<open>int\<close> has 32 bits, \<open>long\<close>,
  \<open>size_type\<close> and \<open>boost::int64_t\<close> have 64, signed arithmetic that leaves the range wraps
  around), byte strings, the ways a C or C++ operation can go wrong without the language
  noticing (\<open>fault\<close>), reads of a buffer at a pointer, the members of \<open>std::string\<close> that the
  sources call, and a small theory of loops written with \<open>while_option\<close>, where the value
  \<open>None\<close> means that the loop does not end.
\<close>

named_theorems prelude_simps \<open>rewriting of machine integers, bytes and buffer reads\<close>

subsection \<open>Machine integers\<close>

text \<open>Conversion of a mathematical integer to \<open>int\<close>, to \<open>boost::int64_t\<close> and to \<open>unsigned int\<close>.\<close>

definition int32 :: "int \<Rightarrow> int" where
  "int32 x = signed_take_bit 31 x"

definition int64 :: "int \<Rightarrow> int" where
  "int64 x = signed_take_bit 63 x"

definition uint32 :: "int \<Rightarrow> int" where
  "uint32 x = take_bit 32 x"

definition in_int32 :: "int \<Rightarrow> bool" where
  "in_int32 x \<longleftrightarrow> - (2 ^ 31) \<le> x \<and> x < 2 ^ 31"

definition in_int64 :: "int \<Rightarrow> bool" where
  "in_int64 x \<longleftrightarrow> - (2 ^ 63) \<le> x \<and> x < 2 ^ 63"

lemma int32_id [prelude_simps]: "- (2 ^ 31) \<le> x \<Longrightarrow> x < 2 ^ 31 \<Longrightarrow> int32 x = x"
  unfolding int32_def by (rule signed_take_bit_int_eq_self)

lemma int64_id [prelude_simps]: "- (2 ^ 63) \<le> x \<Longrightarrow> x < 2 ^ 63 \<Longrightarrow> int64 x = x"
  unfolding int64_def by (rule signed_take_bit_int_eq_self)

lemma in_int32_int32 [simp]: "in_int32 (int32 x)"
  unfolding in_int32_def int32_def
  using signed_take_bit_int_greater_eq_minus_exp signed_take_bit_int_less_exp by blast

lemma in_int64_int64 [simp]: "in_int64 (int64 x)"
  unfolding in_int64_def int64_def
  using signed_take_bit_int_greater_eq_minus_exp signed_take_bit_int_less_exp by blast

text \<open>Two integers congruent modulo the width convert to the same value.\<close>

lemma int32_cong: "x mod 2 ^ 32 = y mod 2 ^ 32 \<Longrightarrow> int32 x = int32 y"
  unfolding int32_def
  by (rule signed_take_bit_eq_iff_take_bit_eq [THEN iffD2]) (simp add: take_bit_eq_mod)

lemma int32_mod: "int32 x mod 2 ^ 32 = x mod 2 ^ 32"
proof -
  have "take_bit 32 (int32 x) = take_bit 32 x"
    unfolding int32_def
    by (rule signed_take_bit_eq_iff_take_bit_eq [of 31, THEN iffD1, simplified]) simp
  then show ?thesis by (simp add: take_bit_eq_mod)
qed

lemma int64_mod: "int64 x mod 2 ^ 64 = x mod 2 ^ 64"
proof -
  have "take_bit 64 (int64 x) = take_bit 64 x"
    unfolding int64_def
    by (rule signed_take_bit_eq_iff_take_bit_eq [of 63, THEN iffD1, simplified]) simp
  then show ?thesis by (simp add: take_bit_eq_mod)
qed

lemma int64_cong: "x mod 2 ^ 64 = y mod 2 ^ 64 \<Longrightarrow> int64 x = int64 y"
  unfolding int64_def
  by (rule signed_take_bit_eq_iff_take_bit_eq [THEN iffD2]) (simp add: take_bit_eq_mod)

lemma int64_add: "int64 (int64 a + b) = int64 (a + b)"
proof (rule int64_cong)
  have "(int64 a + b) mod 2 ^ 64 = (int64 a mod 2 ^ 64 + b) mod 2 ^ 64" by (simp only: mod_add_left_eq)
  also have "\<dots> = (a + b) mod 2 ^ 64" by (simp only: int64_mod mod_add_left_eq)
  finally show "(int64 a + b) mod 2 ^ 64 = (a + b) mod 2 ^ 64" .
qed

lemma int32_int64: "int32 (int64 x) = int32 x"
proof (rule int32_cong)
  have "int64 x mod 2 ^ 64 mod 2 ^ 32 = x mod 2 ^ 64 mod 2 ^ 32" by (simp only: int64_mod)
  then show "int64 x mod 2 ^ 32 = x mod 2 ^ 32" by (simp add: mod_mod_cancel)
qed

lemma sdiv_nonneg: "0 \<le> a \<Longrightarrow> 0 < b \<Longrightarrow> (a :: int) sdiv b = a div b"
  by (cases "a = 0") (simp_all add: signed_divide_int_def)

subsection \<open>Bytes and characters\<close>

text \<open>A \<open>char\<close> read as \<open>unsigned char\<close>, as the signed \<open>char\<close> of the platform, and back.\<close>

definition uchar :: "char \<Rightarrow> int" where
  "uchar c = of_char c"

definition schar :: "char \<Rightarrow> int" where
  "schar c = signed_take_bit 7 (uchar c)"

definition to_char :: "int \<Rightarrow> char" where
  "to_char x = char_of x"

lemma uchar_range: "0 \<le> uchar c \<and> uchar c < 256"
proof -
  have "uchar c = (of_char c :: int) mod 256"
    unfolding uchar_def by (metis char_of_char of_char_of)
  then show ?thesis by (metis pos_mod_bound pos_mod_sign zero_less_numeral)
qed

lemma uchar_to_char [simp]: "uchar (to_char x) = x mod 256"
  unfolding uchar_def to_char_def by (rule of_char_of)

lemma to_char_uchar [simp]: "to_char (uchar c) = c"
  unfolding uchar_def to_char_def by (rule char_of_char)

lemma uchar_inject [simp]: "uchar c = uchar d \<longleftrightarrow> c = d"
  by (metis to_char_uchar)

lemma schar_small: "uchar c < 128 \<Longrightarrow> schar c = uchar c"
  unfolding schar_def using uchar_range [of c] by (intro signed_take_bit_int_eq_self) auto

lemma to_char_schar [simp]: "to_char (schar c) = c"
proof -
  have "take_bit 8 (schar c) = take_bit 8 (uchar c)"
    unfolding schar_def
    by (rule signed_take_bit_eq_iff_take_bit_eq [of 7, THEN iffD1, simplified]) simp
  then have "schar c mod 256 = uchar c mod 256"
    by (simp add: take_bit_eq_mod)
  then have "uchar (to_char (schar c)) = uchar c"
    using uchar_range [of c] by simp
  then show ?thesis by (simp only: uchar_inject)
qed

subsection \<open>Faults and results\<close>

text \<open>
  What a C++ operation does that the language does not turn into a value: a read outside
  an object, a null or stale pointer dereferenced, a member of a union read that is not the
  one in use, a call of \<open>exit\<close>, an exception thrown, a call that does not return.
  A fallible operation returns \<open>fault + 'a\<close>, \<open>Inl\<close> on the left.
\<close>

datatype fault =
    Out_of_bounds
  | Null_pointer
  | Stale_pointer
  | Wrong_member
  | Exit int
  | Thrown string
  | Diverges

type_synonym 'a result = "fault + 'a"

definition bind_result :: "'a result \<Rightarrow> ('a \<Rightarrow> 'b result) \<Rightarrow> 'b result" where
  "bind_result m f = (case m of Inl e \<Rightarrow> Inl e | Inr x \<Rightarrow> f x)"

lemma bind_result_simps [simp]:
  "bind_result (Inl e) f = Inl e"
  "bind_result (Inr x) f = f x"
  by (simp_all add: bind_result_def)

text \<open>The result of a loop that may not end.\<close>

definition returned :: "'a result option \<Rightarrow> 'a result" where
  "returned r = (case r of None \<Rightarrow> Inl Diverges | Some x \<Rightarrow> x)"

lemma returned_simps [simp]: "returned None = Inl Diverges" "returned (Some x) = x"
  by (simp_all add: returned_def)

lemma bind_result_Inr_iff:
  "bind_result m f = Inr y \<longleftrightarrow> (\<exists>x. m = Inr x \<and> f x = Inr y)"
  by (cases m) auto

lemma bind_resultE: "bind_result m f = Inr y \<Longrightarrow> (\<And>x. m = Inr x \<Longrightarrow> f x = Inr y \<Longrightarrow> P) \<Longrightarrow> P"
  by (auto simp: bind_result_Inr_iff)

text \<open>A loop over a list whose body may fail; the first failure ends it.\<close>

fun fold_result :: "('a \<Rightarrow> 's \<Rightarrow> 's result) \<Rightarrow> 'a list \<Rightarrow> 's \<Rightarrow> 's result" where
  "fold_result f [] s = Inr s"
| "fold_result f (x # xs) s = bind_result (f x s) (fold_result f xs)"

lemma fold_result_append [simp]:
  "fold_result f (xs @ ys) s = bind_result (fold_result f xs s) (fold_result f ys)"
  by (induction f xs s rule: fold_result.induct) (auto simp: bind_result_def split: sum.splits)

lemma fold_result_invariant:
  assumes "fold_result f xs s = Inr t" and "P s"
    and "\<And>x s s'. x \<in> set xs \<Longrightarrow> P s \<Longrightarrow> f x s = Inr s' \<Longrightarrow> P s'"
  shows "P t"
  using assms
proof (induction xs arbitrary: s)
  case (Cons x xs)
  from Cons.prems(1) obtain s' where "f x s = Inr s'" "fold_result f xs s' = Inr t"
    by (auto simp: bind_result_Inr_iff)
  with Cons show ?case by (meson list.set_intros)
qed simp

lemma fold_result_Inr:
  assumes "\<And>x s. x \<in> set xs \<Longrightarrow> f x s = Inr (g x s)"
  shows "fold_result f xs s = Inr (fold g xs s)"
  using assms by (induction xs arbitrary: s) auto

text \<open>The byte at a position of a buffer; a position outside it is a fault.\<close>

definition read_at :: "'a list \<Rightarrow> int \<Rightarrow> 'a result" where
  "read_at buf i = (if 0 \<le> i \<and> i < int (length buf) then Inr (buf ! nat i) else Inl Out_of_bounds)"

lemma read_at_Inr [prelude_simps]:
  "0 \<le> i \<Longrightarrow> i < int (length buf) \<Longrightarrow> read_at buf i = Inr (buf ! nat i)"
  by (simp add: read_at_def)

lemma read_at_append [simp]: "read_at (pre @ c # post) (int (length pre)) = Inr c"
  by (simp add: read_at_def)

subsection \<open>Parts of a buffer\<close>

definition subbytes :: "'a list \<Rightarrow> int \<Rightarrow> int \<Rightarrow> 'a list" where
  "subbytes xs i n = take (nat n) (drop (nat i) xs)"

lemma subbytes_append [simp]:
  "subbytes (pre @ xs @ post) (int (length pre)) (int (length xs)) = xs"
  by (simp add: subbytes_def)

lemma subbytes_append_start [simp]:
  "subbytes (xs @ post) 0 (int (length xs)) = xs"
  by (simp add: subbytes_def)

lemma length_subbytes:
  "0 \<le> i \<Longrightarrow> 0 \<le> n \<Longrightarrow> i + n \<le> int (length xs) \<Longrightarrow> length (subbytes xs i n) = nat n"
  by (simp add: subbytes_def)

lemma takeWhile_miss: "c \<notin> set b \<Longrightarrow> takeWhile (\<lambda>d. d \<noteq> c) (b @ r) = b @ takeWhile (\<lambda>d. d \<noteq> c) r"
  by (induction b) auto

subsection \<open>Loops\<close>

text \<open>
  \<open>reaches b c s t\<close>: finitely many rounds of the loop \<open>while b do c\<close> lead from \<open>s\<close> to
  \<open>t\<close>. Two states on one run have the same outcome, and a loop whose guard holds in every
  state of a set closed under the body never ends.
\<close>

inductive reaches :: "('s \<Rightarrow> bool) \<Rightarrow> ('s \<Rightarrow> 's) \<Rightarrow> 's \<Rightarrow> 's \<Rightarrow> bool" for b c where
  reaches_refl [intro, simp]: "reaches b c s s"
| reaches_step: "b s \<Longrightarrow> reaches b c (c s) t \<Longrightarrow> reaches b c s t"

lemma reaches_trans: "reaches b c s t \<Longrightarrow> reaches b c t u \<Longrightarrow> reaches b c s u"
  by (induction rule: reaches.induct) (auto intro: reaches_step)

lemma reaches_while_option:
  "reaches b c s t \<Longrightarrow> while_option b c s = while_option b c t"
  by (induction rule: reaches.induct) (simp_all add: while_option_unfold)

lemma while_option_diverges:
  assumes "P s" and "\<And>t. P t \<Longrightarrow> b t \<and> P (c t)"
  shows "while_option b c s = None"
proof -
  have "P ((c ^^ k) s)" for k
    by (induction k) (use assms in auto)
  then have "b ((c ^^ k) s)" for k
    using assms(2) by blast
  then show ?thesis by (simp add: while_option_def)
qed

end
