(* ===== verification/EscapeString.thy ===== *)
theory EscapeString
  imports Prelude
begin

section \<open>Character classes and string encodings (\<open>libtorrent/src/escape_string.cpp\<close>)\<close>

text \<open>
  The locale-independent character predicates and the textual encodings libtorrent uses for
  URLs and hashes. A \<open>char const*\<close> with a length is a byte list.
\<close>

subsection \<open>Character predicates\<close>

definition is_digit :: "char \<Rightarrow> bool" where
  "is_digit c \<longleftrightarrow> schar c \<ge> schar (CHR ''0'') \<and> schar c \<le> schar (CHR ''9'')"

definition is_print :: "char \<Rightarrow> bool" where
  "is_print c \<longleftrightarrow> schar c \<ge> 32 \<and> schar c < 127"

definition is_space :: "char \<Rightarrow> bool" where
  "is_space c \<longleftrightarrow> c = CHR '' '' \<or> c = CHR 0x09"

definition to_lower :: "char \<Rightarrow> char" where
  "to_lower c =
     (if schar c \<ge> schar (CHR ''A'') \<and> schar c \<le> schar (CHR ''Z'')
      then to_char (schar c - schar (CHR ''A'') + schar (CHR ''a'')) else c)"

lemma schar_digits [simp]: "schar (CHR ''0'') = 48" "schar (CHR ''9'') = 57"
  by (simp_all add: schar_def uchar_def)

lemma is_digit_iff: "is_digit c \<longleftrightarrow> 48 \<le> schar c \<and> schar c \<le> 57"
  by (simp add: is_digit_def)

subsection \<open>Decimal numerals\<close>

text \<open>
  The decimal digits of a number, most significant first: the reference against which the
  digit loops of the sources are proved.
\<close>

definition digit_char :: "nat \<Rightarrow> char" where
  "digit_char d = to_char (48 + int d)"

lemma digit_char_values:
  "digit_char 0 = CHR ''0''" "digit_char 1 = CHR ''1''" "digit_char 2 = CHR ''2''" "digit_char 3 = CHR ''3''"
  "digit_char 4 = CHR ''4''" "digit_char 5 = CHR ''5''" "digit_char 6 = CHR ''6''" "digit_char 7 = CHR ''7''"
  "digit_char 8 = CHR ''8''" "digit_char 9 = CHR ''9''"
  by code_simp+

fun decimal :: "nat \<Rightarrow> string" where
  "decimal n = (if n < 10 then [digit_char n] else decimal (n div 10) @ [digit_char (n mod 10)])"

declare decimal.simps [simp del]

lemma schar_digit_char: "d < 10 \<Longrightarrow> schar (digit_char d) = 48 + int d"
proof -
  assume d: "d < 10"
  then have "uchar (digit_char d) = 48 + int d" by (simp add: digit_char_def)
  with d show ?thesis by (simp add: schar_small)
qed

lemma is_digit_digit_char [simp]: "d < 10 \<Longrightarrow> is_digit (digit_char d)"
  by (simp add: is_digit_iff schar_digit_char)

lemma decimal_nonempty [simp]: "decimal n \<noteq> []"
  by (subst decimal.simps) simp

lemma decimal_digits: "c \<in> set (decimal n) \<Longrightarrow> is_digit c"
proof (induction n rule: decimal.induct)
  case (1 n)
  then show ?case by (cases "n < 10") (auto simp: decimal.simps [of n])
qed

text \<open>The value of a digit string, as the accumulating loops compute it.\<close>

definition digits_value :: "int \<Rightarrow> string \<Rightarrow> int" where
  "digits_value v s = foldl (\<lambda>v c. v * 10 + (schar c - 48)) v s"

lemma digits_value_simps [simp]:
  "digits_value v [] = v"
  "digits_value v (c # s) = digits_value (v * 10 + (schar c - 48)) s"
  "digits_value v (s @ t) = digits_value (digits_value v s) t"
  by (simp_all add: digits_value_def)

lemma digits_value_decimal [simp]: "digits_value 0 (decimal n) = int n"
proof (induction n rule: decimal.induct)
  case (1 n)
  show ?case
  proof (cases "n < 10")
    case True
    then show ?thesis by (simp add: decimal.simps [of n] schar_digit_char)
  next
    case False
    with 1 have "digits_value 0 (decimal (n div 10)) = int (n div 10)" by simp
    moreover have "int (n div 10) * 10 + int (n mod 10) = int n"
      by presburger
    ultimately show ?thesis
      using False by (simp add: decimal.simps [of n] schar_digit_char)
  qed
qed

lemma length_decimal_le: "0 < k \<Longrightarrow> n < 10 ^ k \<Longrightarrow> length (decimal n) \<le> k"
proof (induction k arbitrary: n)
  case 0
  then show ?case by simp
next
  case (Suc k)
  show ?case
  proof (cases "n < 10")
    case True
    then show ?thesis by (simp add: decimal.simps [of n])
  next
    case False
    with Suc.prems have "n div 10 < 10 ^ k" "0 < k"
      by (auto simp: less_mult_imp_div_less mult.commute intro: gr0I)
    with Suc.IH have "length (decimal (n div 10)) \<le> k" by blast
    with False show ?thesis by (simp add: decimal.simps [of n])
  qed
qed

lemma decimal_eq_Cons_digit: "decimal n = c # cs \<Longrightarrow> is_digit c"
  using decimal_digits [of c n] by simp

subsection \<open>Integers as text\<close>

text \<open>
  \<open>int_string\<close> is the specification: the decimal numeral of an integer with its sign.
  \<open>to_string\<close> writes the digits from the end of an array, in unsigned arithmetic, and moves
  them to its front. The C string in the result is given; the bytes that the move reads
  behind the end of the array land behind its terminating zero.
\<close>

definition int_string :: "int \<Rightarrow> string" where
  "int_string v = (if v < 0 then CHR ''-'' # decimal (nat (- v)) else decimal (nat v))"

fun to_string_loop :: "nat \<Rightarrow> string \<Rightarrow> string" where
  "to_string_loop un p =
     (let p' = to_char (schar (CHR ''0'') + int (un mod 10)) # p in
      if un div 10 = 0 then p' else to_string_loop (un div 10) p')"

declare to_string_loop.simps [simp del]

definition to_string :: "int \<Rightarrow> string" where
  "to_string n =
     (let un = n mod 2 ^ 64;
          un' = (if n < 0 then (- un) mod 2 ^ 64 else un);
          p = to_string_loop (nat un') []
      in if n < 0 then CHR ''-'' # p else p)"

lemma to_string_loop_decimal: "to_string_loop n p = decimal n @ p"
proof (induction n p rule: to_string_loop.induct)
  case (1 n p)
  then show ?case
    by (cases "n < 10") (simp_all add: to_string_loop.simps [of n] decimal.simps [of n] digit_char_def Let_def)
qed

text \<open>
  \<open>to_string\<close> writes every 64-bit integer in decimal, the least one included.
\<close>

theorem to_string_decimal:
  assumes "- (2 ^ 63) \<le> n" and "n < 2 ^ 63"
  shows "to_string n = int_string n"
proof (cases "n < 0")
  case True
  have "n mod 2 ^ 64 = n + 2 ^ 64"
    using assms True by (subst mod_add_self2 [symmetric], subst mod_pos_pos_trivial) auto
  then have "(- (n mod 2 ^ 64)) mod 2 ^ 64 = (- n - 2 ^ 64) mod 2 ^ 64" by simp
  also have "\<dots> = - n mod 2 ^ 64" by (simp add: mod_diff_right_eq [symmetric])
  also have "\<dots> = - n" using True assms by (intro mod_pos_pos_trivial) auto
  finally show ?thesis using True by (simp add: to_string_def int_string_def to_string_loop_decimal)
next
  case False
  then have "n mod 2 ^ 64 = n" using assms by (intro mod_pos_pos_trivial) auto
  with False show ?thesis by (simp add: to_string_def int_string_def to_string_loop_decimal)
qed

theorem to_string_decimal_witness: "to_string (- (2 ^ 63)) = int_string (- (2 ^ 63))"
  by (rule to_string_decimal) simp_all

subsection \<open>Comparison without case\<close>

text \<open>
  C strings are given without their terminating zero, which is read where the list ends.
\<close>

fun string_begins_no_case :: "string \<Rightarrow> string \<Rightarrow> bool" where
  "string_begins_no_case [] s2 = True"
| "string_begins_no_case (c # s1) [] = False"
| "string_begins_no_case (c # s1) (d # s2) =
     (if to_lower c \<noteq> to_lower d then False else string_begins_no_case s1 s2)"

fun string_equal_no_case :: "string \<Rightarrow> string \<Rightarrow> bool" where
  "string_equal_no_case [] [] = True"
| "string_equal_no_case [] (d # s2) = False"
| "string_equal_no_case (c # s1) [] = False"
| "string_equal_no_case (c # s1) (d # s2) = (to_lower c = to_lower d \<and> string_equal_no_case s1 s2)"

subsection \<open>URL escapes\<close>

text \<open>\<open>unescape_string\<close> returns the string and whether \<open>ec\<close> was set.\<close>

definition unescape_digit :: "char \<Rightarrow> int option" where
  "unescape_digit c =
     (if schar c \<ge> schar (CHR ''0'') \<and> schar c \<le> schar (CHR ''9'') then Some (schar c - schar (CHR ''0''))
      else if schar c \<ge> schar (CHR ''A'') \<and> schar c \<le> schar (CHR ''F'') then Some (schar c + 10 - schar (CHR ''A''))
      else if schar c \<ge> schar (CHR ''a'') \<and> schar c \<le> schar (CHR ''f'') then Some (schar c + 10 - schar (CHR ''a''))
      else None)"

fun unescape_loop :: "string \<Rightarrow> string \<Rightarrow> string \<times> bool" where
  "unescape_loop ret [] = (ret, False)"
| "unescape_loop ret (c # s) =
     (if c = CHR ''+'' then unescape_loop (ret @ '' '') s
      else if c \<noteq> CHR ''%'' then unescape_loop (ret @ [c]) s
      else case s of
        [] \<Rightarrow> (ret, True)
      | h # s' \<Rightarrow>
          (case unescape_digit h of
             None \<Rightarrow> (ret, True)
           | Some high \<Rightarrow>
               (case s' of
                  [] \<Rightarrow> (ret, True)
                | l # s'' \<Rightarrow>
                    (case unescape_digit l of
                       None \<Rightarrow> (ret, True)
                     | Some low \<Rightarrow> unescape_loop (ret @ [to_char (high * 16 + low)]) s''))))"

definition unescape_string :: "string \<Rightarrow> string \<times> bool" where
  "unescape_string s = unescape_loop [] s"

definition unreserved_chars :: string where
  "unreserved_chars = ''%'' @ [CHR 0x27] @
     ''/-_.!~*()ABCDEFGHIJKLMNOPQRSTUVWXYZabcdefghijklmnopqrstuvwxyz0123456789''"

definition hex_chars :: string where
  "hex_chars = ''0123456789abcdef''"

definition hex_byte :: "char \<Rightarrow> string" where
  "hex_byte c = [hex_chars ! nat (uchar c div 16), hex_chars ! nat (uchar c mod 16)]"

definition escape_string_impl :: "string \<Rightarrow> nat \<Rightarrow> string" where
  "escape_string_impl str off =
     concat (map (\<lambda>c. if c \<in> set (drop off unreserved_chars) then [c] else CHR ''%'' # hex_byte c) str)"

definition escape_string :: "string \<Rightarrow> string" where
  "escape_string str = escape_string_impl str 3"

definition escape_path :: "string \<Rightarrow> string" where
  "escape_path str = escape_string_impl str 2"

definition need_encoding :: "string \<Rightarrow> bool" where
  "need_encoding str \<longleftrightarrow> (\<exists>c \<in> set str. c \<notin> set unreserved_chars)"

subsection \<open>Hexadecimal\<close>

definition to_hex :: "string \<Rightarrow> string" where
  "to_hex s = concat (map hex_byte s)"

definition hex_to_int :: "char \<Rightarrow> int" where
  "hex_to_int c =
     (if schar c \<ge> schar (CHR ''0'') \<and> schar c \<le> schar (CHR ''9'') then schar c - schar (CHR ''0'')
      else if schar c \<ge> schar (CHR ''A'') \<and> schar c \<le> schar (CHR ''F'') then schar c - schar (CHR ''A'') + 10
      else if schar c \<ge> schar (CHR ''a'') \<and> schar c \<le> schar (CHR ''f'') then schar c - schar (CHR ''a'') + 10
      else - 1)"

definition is_hex :: "string \<Rightarrow> bool" where
  "is_hex s \<longleftrightarrow> list_all (\<lambda>c. hex_to_int c \<noteq> - 1) s"

text \<open>
  \<open>from_hex\<close> reads two bytes per round, also where \<open>len\<close> is odd. The list holds the bytes
  that may be read; the result is the return value and the bytes written.
\<close>

fun from_hex :: "string \<Rightarrow> int \<Rightarrow> string \<Rightarrow> (bool \<times> string) result" where
  "from_hex inp len out =
     (if len \<le> 0 then Inr (True, out)
      else case inp of
        [] \<Rightarrow> Inl Out_of_bounds
      | c # inp' \<Rightarrow>
          if hex_to_int c = - 1 then Inr (False, out)
          else case inp' of
            [] \<Rightarrow> Inl Out_of_bounds
          | d # inp'' \<Rightarrow>
              if hex_to_int d = - 1 then Inr (False, out @ [to_char (hex_to_int c * 16)])
              else from_hex inp'' (len - 2) (out @ [to_char (hex_to_int c * 16 + hex_to_int d mod 16)]))"

declare from_hex.simps [simp del]

subsection \<open>Escapes and hexadecimal: round trips\<close>

lemma hex_chars_value:
  "0 \<le> n \<Longrightarrow> n < 16 \<Longrightarrow> hex_to_int (hex_chars ! nat n) = n \<and> unescape_digit (hex_chars ! nat n) = Some n"
proof -
  assume "0 \<le> n" "n < 16"
  then have "nat n \<in> {0..<16}" by auto
  moreover have "\<forall>k \<in> {0..<16}. hex_to_int (hex_chars ! k) = int k \<and> unescape_digit (hex_chars ! k) = Some (int k)"
    by code_simp
  ultimately show ?thesis using \<open>0 \<le> n\<close> by force
qed

lemma hex_byte_value:
  obtains h l where "hex_byte c = [h, l]" "hex_to_int h = uchar c div 16" "hex_to_int l = uchar c mod 16"
    "unescape_digit h = Some (uchar c div 16)" "unescape_digit l = Some (uchar c mod 16)"
proof -
  have "0 \<le> uchar c div 16" "uchar c div 16 < 16" "0 \<le> uchar c mod 16" "uchar c mod 16 < 16"
    using uchar_range [of c] by auto
  with hex_chars_value that show thesis by (simp add: hex_byte_def)
qed

lemma unescape_loop_escaped:
  assumes "off \<ge> 1"
  shows "unescape_loop ret (escape_string_impl s off) = (ret @ s, False)"
proof (induction s arbitrary: ret)
  case (Cons c s)
  have plus: "CHR ''+'' \<notin> set unreserved_chars" by code_simp
  have "CHR ''%'' \<notin> set (drop 1 unreserved_chars)" by code_simp
  then have percent: "CHR ''%'' \<notin> set (drop off unreserved_chars)"
    using assms set_drop_subset_set_drop [of 1 off unreserved_chars] by auto
  show ?case
  proof (cases "c \<in> set (drop off unreserved_chars)")
    case True
    then have "c \<noteq> CHR ''%''" "c \<noteq> CHR ''+''" using plus percent by (auto dest: in_set_dropD)
    with True Cons show ?thesis by (simp add: escape_string_impl_def)
  next
    case False
    obtain h l where "hex_byte c = [h, l]" "unescape_digit h = Some (uchar c div 16)"
      "unescape_digit l = Some (uchar c mod 16)"
      using hex_byte_value [of c] by metis
    moreover have "to_char (uchar c div 16 * 16 + uchar c mod 16) = c" by simp
    ultimately show ?thesis using False Cons by (simp add: escape_string_impl_def)
  qed
qed (simp add: escape_string_impl_def)

text \<open>
  Unescaping undoes escaping: for every byte string, \<open>unescape_string\<close> applied to the
  result of \<open>escape_string\<close> or of \<open>escape_path\<close> succeeds and gives the string back.
\<close>

theorem unescape_escape:
  "unescape_string (escape_string s) = (s, False) \<and> unescape_string (escape_path s) = (s, False)"
  by (simp add: unescape_string_def escape_string_def escape_path_def unescape_loop_escaped)

lemma from_hex_to_hex_append:
  "from_hex (to_hex s @ rest) (2 * int (length s)) out = Inr (True, out @ s)"
proof (induction s arbitrary: out)
  case (Cons c s)
  obtain h l where h: "hex_byte c = [h, l]" "hex_to_int h = uchar c div 16" "hex_to_int l = uchar c mod 16"
    using hex_byte_value [of c] by metis
  have n: "uchar c div 16 \<noteq> - 1" "uchar c mod 16 \<noteq> - 1" using uchar_range [of c] by presburger+
  have "to_char (uchar c div 16 * 16 + uchar c mod 16 mod 16) = c" by simp
  with Cons h n show ?case by (simp add: to_hex_def from_hex.simps [of "h # _"])
qed (simp add: from_hex.simps)

text \<open>
  Decoding a hexadecimal string gives the bytes it was made from, and every string
  \<open>to_hex\<close> writes passes \<open>is_hex\<close>.
\<close>

theorem from_hex_to_hex:
  "from_hex (to_hex s) (int (length (to_hex s))) [] = Inr (True, s) \<and> is_hex (to_hex s)"
proof -
  have len: "length (to_hex s) = 2 * length s" by (induction s) (auto simp: to_hex_def hex_byte_def)
  have "uchar c div 16 \<noteq> - 1 \<and> uchar c mod 16 \<noteq> - 1" for c using uchar_range [of c] by presburger
  then have "list_all (\<lambda>c. hex_to_int c \<noteq> - 1) (hex_byte c)" for c
    by (rule_tac hex_byte_value [of c]) simp
  then have "is_hex (to_hex s)" by (induction s) (auto simp: is_hex_def to_hex_def)
  with from_hex_to_hex_append [of s "[]" "[]"] len show ?thesis by simp
qed

end
