(* ===== verification/Entry.thy ===== *)
theory Entry
  imports EscapeString
begin

section \<open>Bencoded values (\<open>libtorrent/src/entry.cpp\<close>, \<open>entry.hpp\<close>, \<open>bencode.hpp\<close>)\<close>

text \<open>
  The variant type \<open>entry\<close>, the members of it that the encoder and the decoder call, the
  encoder \<open>bencode\<close> and the recursive decoder \<open>bdecode\<close>. The memory management of the
  variant (placement \<open>new\<close>, destructors, copying) is the identity on values.
\<close>

subsection \<open>The variant and its dictionaries\<close>

text \<open>
  The constructors are the values of \<open>entry::data_type\<close>; \<open>Undefined\<close> is \<open>undefined_t\<close>. A
  \<open>std::map<std::string, entry>\<close> is the list of its pairs in iteration order, which is the
  order of the keys (\<open>std::string\<close> compares bytes as unsigned values, as the order on
  \<open>string\<close> does).
\<close>

datatype entry =
    Undefined
  | Integer int
  | String string
  | List "entry list"
  | Dict "(string \<times> entry) list"

fun map_insert :: "string \<Rightarrow> 'v \<Rightarrow> (string \<times> 'v) list \<Rightarrow> (string \<times> 'v) list" where
  "map_insert k v [] = [(k, v)]"
| "map_insert k v ((k', v') # kvs) =
     (if k < k' then (k, v) # (k', v') # kvs
      else if k = k' then (k', v') # kvs
      else (k', v') # map_insert k v kvs)"

fun map_assign :: "string \<Rightarrow> 'v \<Rightarrow> (string \<times> 'v) list \<Rightarrow> (string \<times> 'v) list" where
  "map_assign k v [] = []"
| "map_assign k v ((k', v') # kvs) =
     (if k = k' then (k, v) # kvs else (k', v') # map_assign k v kvs)"

text \<open>\<open>dict()\<close> on a mutable entry makes an undefined one a dictionary and throws on other types.\<close>

definition entry_dict :: "entry \<Rightarrow> (string \<times> entry) list result" where
  "entry_dict e =
     (case e of Undefined \<Rightarrow> Inr [] | Dict d \<Rightarrow> Inr d | _ \<Rightarrow> Inl (Thrown ''invalid_entry_type''))"

definition entry_dict_const :: "entry \<Rightarrow> (string \<times> entry) list result" where
  "entry_dict_const e =
     (case e of Dict d \<Rightarrow> Inr d | _ \<Rightarrow> Inl (Thrown ''invalid_entry_type''))"

definition entry_integer_const :: "entry \<Rightarrow> int result" where
  "entry_integer_const e =
     (case e of Integer v \<Rightarrow> Inr v | _ \<Rightarrow> Inl (Thrown ''invalid_entry_type''))"

definition entry_string_const :: "entry \<Rightarrow> string result" where
  "entry_string_const e =
     (case e of String v \<Rightarrow> Inr v | _ \<Rightarrow> Inl (Thrown ''invalid_entry_type''))"

definition entry_list_const :: "entry \<Rightarrow> entry list result" where
  "entry_list_const e =
     (case e of List v \<Rightarrow> Inr v | _ \<Rightarrow> Inl (Thrown ''invalid_entry_type''))"

text \<open>
  \<open>operator[]\<close> on a mutable entry: the entry with the key present (a new key gets an
  undefined entry) and the element the returned reference denotes. Assigning through the
  reference is \<open>subscript_assign\<close>.
\<close>

definition subscript :: "entry \<Rightarrow> string \<Rightarrow> (entry \<times> entry) result" where
  "subscript e key =
     bind_result (entry_dict e) (\<lambda>d.
       case map_of d key of
         Some v \<Rightarrow> Inr (Dict d, v)
       | None \<Rightarrow> Inr (Dict (map_insert key Undefined d), Undefined))"

definition subscript_assign :: "entry \<Rightarrow> string \<Rightarrow> entry \<Rightarrow> entry result" where
  "subscript_assign e key v =
     bind_result (subscript e key) (\<lambda>(e', _).
       bind_result (entry_dict e') (\<lambda>d. Inr (Dict (map_assign key v d))))"

definition find_key :: "entry \<Rightarrow> string \<Rightarrow> entry option result" where
  "find_key e key = bind_result (entry_dict e) (\<lambda>d. Inr (map_of d key))"

definition subscript_const :: "entry \<Rightarrow> string \<Rightarrow> entry result" where
  "subscript_const e key =
     bind_result (entry_dict_const e) (\<lambda>d.
       case map_of d key of
         None \<Rightarrow> Inl (Thrown (''key not found: '' @ key))
       | Some v \<Rightarrow> Inr v)"

subsection \<open>Equality of entries\<close>

text \<open>\<open>operator==\<close>, which compares lists and dictionaries elementwise.\<close>

fun entry_eq :: "entry \<Rightarrow> entry \<Rightarrow> bool" where
  "entry_eq (Integer a) (Integer b) = (a = b)"
| "entry_eq (String a) (String b) = (a = b)"
| "entry_eq (List xs) (List ys) = list_all2 (\<lambda>x y. entry_eq x y) xs ys"
| "entry_eq (Dict xs) (Dict ys) =
     list_all2 (\<lambda>x y. fst x = fst y \<and> entry_eq (snd x) (snd y)) xs ys"
| "entry_eq Undefined Undefined = True"
| "entry_eq _ _ = False"

lemma entry_eq_iff: "entry_eq e f \<longleftrightarrow> e = f"
proof (induction e f rule: entry_eq.induct)
  case (3 xs ys)
  have "list_all2 (\<lambda>x y. entry_eq x y) xs ys \<longleftrightarrow> list_all2 (=) xs ys"
    by (rule list.rel_cong) (use 3 in auto)
  then show ?case by (simp add: list.rel_eq)
next
  case (4 xs ys)
  have "list_all2 (\<lambda>x y. fst x = fst y \<and> entry_eq (snd x) (snd y)) xs ys
      \<longleftrightarrow> list_all2 (=) xs ys"
    by (rule list.rel_cong) (use 4 in \<open>auto simp: prod_eq_iff\<close>)
  then show ?case by (simp add: list.rel_eq)
qed auto

subsection \<open>The contract of a dictionary\<close>

text \<open>
  What the code relies on from \<open>std::map\<close>: insertion of an absent key and assignment to a
  present one update the lookup at that key only, and keep the representation's invariant.
  \<open>update\<close> is the pattern of \<open>d[key] = value\<close>.
\<close>

locale string_map =
  fixes lookup :: "'m \<Rightarrow> string \<Rightarrow> 'v option"
    and insert_new :: "string \<Rightarrow> 'v \<Rightarrow> 'm \<Rightarrow> 'm"
    and assign :: "string \<Rightarrow> 'v \<Rightarrow> 'm \<Rightarrow> 'm"
    and invar :: "'m \<Rightarrow> bool"
  assumes lookup_insert_new:
      "invar m \<Longrightarrow> lookup m k = None \<Longrightarrow> lookup (insert_new k v m) = (lookup m)(k \<mapsto> v)"
    and lookup_assign:
      "invar m \<Longrightarrow> lookup m k \<noteq> None \<Longrightarrow> lookup (assign k v m) = (lookup m)(k \<mapsto> v)"
    and invar_insert_new: "invar m \<Longrightarrow> invar (insert_new k v m)"
    and invar_assign: "invar m \<Longrightarrow> invar (assign k v m)"
begin

definition update :: "'v \<Rightarrow> string \<Rightarrow> 'v \<Rightarrow> 'm \<Rightarrow> 'm" where
  "update d k v m = assign k v (if lookup m k = None then insert_new k d m else m)"

lemma lookup_update: "invar m \<Longrightarrow> lookup (update d k v m) = (lookup m)(k \<mapsto> v)"
  by (auto simp: update_def lookup_assign lookup_insert_new invar_insert_new)

lemma invar_update: "invar m \<Longrightarrow> invar (update d k v m)"
  by (simp add: update_def invar_assign invar_insert_new)

end

definition sorted_keys :: "(string \<times> 'v) list \<Rightarrow> bool" where
  "sorted_keys d \<longleftrightarrow> sorted_wrt (<) (map fst d)"

lemma sorted_keys_simps [simp]:
  "sorted_keys []"
  "sorted_keys ((k, v) # d) \<longleftrightarrow> (\<forall>k' \<in> fst ` set d. k < k') \<and> sorted_keys d"
  by (auto simp: sorted_keys_def)

lemma sorted_keys_distinct: "sorted_keys d \<Longrightarrow> distinct (map fst d)"
  by (auto simp: sorted_keys_def strict_sorted_iff)

lemma sorted_keys_append:
  "sorted_keys (d @ [(k, v)]) \<longleftrightarrow> sorted_keys d \<and> (\<forall>k' \<in> fst ` set d. k' < k)"
  by (auto simp: sorted_keys_def sorted_wrt_append)

lemma keys_map_insert: "fst ` set (map_insert k v d) = insert k (fst ` set d)"
  by (induction k v d rule: map_insert.induct) auto

lemma keys_map_assign: "fst ` set (map_assign k v d) = fst ` set d"
  by (induction k v d rule: map_assign.induct) auto

lemma map_of_map_insert:
  "map_of d k = None \<Longrightarrow> map_of (map_insert k v d) = (map_of d)(k \<mapsto> v)"
  by (induction k v d rule: map_insert.induct) (auto split: if_splits)

lemma map_of_map_assign:
  "map_of d k \<noteq> None \<Longrightarrow> map_of (map_assign k v d) = (map_of d)(k \<mapsto> v)"
  by (induction k v d rule: map_assign.induct) (auto split: if_splits)

lemma sorted_keys_map_insert: "sorted_keys d \<Longrightarrow> sorted_keys (map_insert k v d)"
  by (induction k v d rule: map_insert.induct) (auto simp: keys_map_insert)

lemma sorted_keys_map_assign: "sorted_keys d \<Longrightarrow> sorted_keys (map_assign k v d)"
  by (induction k v d rule: map_assign.induct) (auto simp: keys_map_assign)

interpretation smap: string_map map_of map_insert map_assign sorted_keys
  by unfold_locales
    (simp_all add: map_of_map_insert map_of_map_assign sorted_keys_map_insert
      sorted_keys_map_assign)

lemma subscript_assign_Dict:
  "subscript_assign (Dict d) k v = Inr (Dict (smap.update Undefined k v d))"
  by (simp add: subscript_assign_def subscript_def entry_dict_def smap.update_def
      split: option.splits)

text \<open>Assigning to a key greater than every key present appends the pair.\<close>

lemma map_update_append:
  assumes "\<forall>k' \<in> fst ` set d. k' < k"
  shows "smap.update u k v d = d @ [(k, v)]"
proof -
  have none: "map_of d k = None"
    using assms by (auto simp: map_of_eq_None_iff)
  have ins: "map_insert k u d = d @ [(k, u)]"
    using assms by (induction d) (auto simp: less_not_sym split: prod.splits)
  have asg: "map_assign k v (d @ [(k, u)]) = d @ [(k, v)]"
    using assms by (induction d) (auto split: prod.splits)
  show ?thesis by (simp add: smap.update_def none ins asg)
qed

end
