(* ===== verification/Bencode.thy ===== *)
theory Bencode
  imports Entry
begin

section \<open>The bencoder and the recursive decoder (\<open>libtorrent/bencode.hpp\<close>)\<close>

text \<open>
  \<open>bencode\<close> writes an entry, \<open>bdecode\<close> reads one. Output and input iterators are byte
  lists: the encoder returns the byte count of the source together with the bytes written,
  the decoder takes the bytes between its iterator and the end and returns the value, the
  error flag and the bytes left. The value is \<open>Undefined\<close> wherever the flag is set, since
  every caller throws it away.
\<close>

subsection \<open>Integers (\<open>detail::integer_to_str\<close>)\<close>

text \<open>
  The digits are written from the end of a buffer of \<open>size\<close> bytes towards its front; \<open>out\<close>
  holds the bytes written so far, without the terminating zero. The negation of the least
  64-bit value wraps around to itself.
\<close>

fun itoa_loop :: "nat \<Rightarrow> nat \<Rightarrow> int \<Rightarrow> string \<Rightarrow> nat \<times> string" where
  "itoa_loop sign 0 val out = (0, out)"
| "itoa_loop sign (Suc sz) val out =
     (if Suc sz > sign \<and> val \<noteq> 0
      then itoa_loop sign sz (val sdiv 10)
             (to_char (schar (CHR ''0'') + schar (to_char (val smod 10))) # out)
      else (Suc sz, out))"

definition integer_to_str :: "nat \<Rightarrow> int \<Rightarrow> string" where
  "integer_to_str sz val =
     (let sign = (if val < 0 then 1 else 0);
          val = (if val < 0 then int64 (- val) else val);
          sz = sz - 1;
          (sz, out) = (if val = 0 then (sz - 1, ''0'') else (sz, ''''));
          (sz, out) = itoa_loop sign sz val out
      in if sign \<noteq> 0 then CHR ''-'' # out else out)"

subsection \<open>Writing\<close>

definition write_string :: "string \<Rightarrow> int \<times> string" where
  "write_string val = (int (length val), val)"

definition write_integer :: "int \<Rightarrow> int \<times> string" where
  "write_integer val =
     (let str = takeWhile (\<lambda>c. c \<noteq> CHR 0x00) (integer_to_str 21 val)
      in (int (length str), str))"

fun bencode_recursive :: "entry \<Rightarrow> int \<times> string"
  and bencode_list :: "entry list \<Rightarrow> int \<times> string"
  and bencode_dict :: "(string \<times> entry) list \<Rightarrow> int \<times> string" where
  "bencode_recursive (Integer v) =
     (let (n, s) = write_integer v in (n + 2, ''i'' @ s @ ''e''))"
| "bencode_recursive (String v) =
     (let (n, s) = write_integer (int (length v)); (m, t) = write_string v
      in (n + m + 1, s @ '':'' @ t))"
| "bencode_recursive (List es) =
     (let (n, s) = bencode_list es in (n + 2, ''l'' @ s @ ''e''))"
| "bencode_recursive (Dict d) =
     (let (n, s) = bencode_dict d in (n + 2, ''d'' @ s @ ''e''))"
| "bencode_recursive Undefined = (0, '''')"
| "bencode_list [] = (0, '''')"
| "bencode_list (e # es) =
     (let (n, s) = bencode_recursive e; (m, t) = bencode_list es in (n + m, s @ t))"
| "bencode_dict [] = (0, '''')"
| "bencode_dict ((k, v) # d) =
     (let (n1, s1) = write_integer (int (length k));
          (n2, s2) = write_string k;
          (n3, s3) = bencode_recursive v;
          (m, t) = bencode_dict d
      in (n1 + n2 + n3 + 1 + m, s1 @ '':'' @ s2 @ s3 @ t))"

definition bencode :: "entry \<Rightarrow> int \<times> string" where
  "bencode e = bencode_recursive e"

subsection \<open>Reading\<close>

fun read_until :: "string \<Rightarrow> char \<Rightarrow> string \<times> bool \<times> string" where
  "read_until [] end_token = ([], True, [])"
| "read_until (c # cs) end_token =
     (if c = end_token then ([], False, c # cs)
      else let (ret, err, rest) = read_until cs end_token in (c # ret, err, rest))"

fun read_string :: "nat \<Rightarrow> string \<Rightarrow> string \<times> bool \<times> string" where
  "read_string 0 cs = ([], False, cs)"
| "read_string (Suc n) [] = ([], True, [])"
| "read_string (Suc n) (c # cs) =
     (let (str, err, rest) = read_string n cs in (c # str, err, rest))"

text \<open>
  \<open>strtoll\<close> in base 10 on a C string: blanks, an optional sign, digits; the value is
  saturated, and the number of bytes read is 0 where there is no digit. \<open>atoi\<close> converts
  the result to \<open>int\<close>.
\<close>

definition c_str :: "string \<Rightarrow> string" where
  "c_str s = takeWhile (\<lambda>c. c \<noteq> CHR 0x00) s"

definition is_cspace :: "char \<Rightarrow> bool" where
  "is_cspace c \<longleftrightarrow> c = CHR '' '' \<or> 9 \<le> uchar c \<and> uchar c \<le> 13"

definition saturate64 :: "int \<Rightarrow> int" where
  "saturate64 x = max (- (2 ^ 63)) (min (2 ^ 63 - 1) x)"

definition strtoll :: "string \<Rightarrow> int \<times> nat" where
  "strtoll s =
     (let s = c_str s;
          ws = length (takeWhile is_cspace s);
          t = drop ws s;
          neg = (t \<noteq> [] \<and> hd t = CHR ''-'');
          sgn = (if t \<noteq> [] \<and> (hd t = CHR ''-'' \<or> hd t = CHR ''+'') then 1 else 0);
          ds = takeWhile is_digit (drop sgn t)
      in if ds = [] then (0, 0)
         else (saturate64 (if neg then - digits_value 0 ds else digits_value 0 ds),
               ws + sgn + length ds))"

definition atoi :: "string \<Rightarrow> int" where
  "atoi s = int32 (fst (strtoll s))"

text \<open>
  The decoder proper and its two loops. A loop reads the byte at its iterator before it
  compares the iterator with the end, so a list or dictionary opened by the last byte of
  the input is a read out of bounds. A key that is not a string ends the dictionary without
  setting the error flag.
\<close>

function (sequential) bdecode_recursive :: "string \<Rightarrow> nat \<Rightarrow> (entry \<times> bool \<times> string) result"
  and bdecode_list :: "entry list \<Rightarrow> string \<Rightarrow> nat \<Rightarrow> (entry \<times> bool \<times> string) result"
  and bdecode_dict :: "entry \<Rightarrow> string \<Rightarrow> nat \<Rightarrow> (entry \<times> bool \<times> string) result" where
  "bdecode_recursive cs depth =
     (if depth \<ge> 100 then Inr (Undefined, True, cs)
      else case cs of
        [] \<Rightarrow> Inr (Undefined, True, [])
      | c # rest \<Rightarrow>
          if c = CHR ''i'' then
            (case read_until rest (CHR ''e'') of
               (val, True, rest') \<Rightarrow> Inr (Undefined, True, rest')
             | (val, False, rest') \<Rightarrow>
                 (case strtoll val of (v, end_pointer) \<Rightarrow>
                    if end_pointer = 0 then Inr (Undefined, True, tl rest')
                    else Inr (Integer v, False, tl rest')))
          else if c = CHR ''l'' then bdecode_list [] rest depth
          else if c = CHR ''d'' then bdecode_dict (Dict []) rest depth
          else if is_digit c then
            (case read_until cs (CHR '':'') of
               (len_s, True, rest') \<Rightarrow> Inr (Undefined, True, rest')
             | (len_s, False, rest') \<Rightarrow>
                 (case read_string (nat (atoi len_s)) (tl rest') of
                    (str, True, rest'') \<Rightarrow> Inr (Undefined, True, rest'')
                  | (str, False, rest'') \<Rightarrow> Inr (String str, False, rest'')))
          else Inr (Undefined, True, cs))"
| "bdecode_list es [] depth = Inl Out_of_bounds"
| "bdecode_list es (c # cs) depth =
     (if c = CHR ''e'' then Inr (List es, False, cs)
      else case bdecode_recursive (c # cs) (depth + 1) of
        Inl f \<Rightarrow> Inl f
      | Inr (e, True, rest) \<Rightarrow> Inr (Undefined, True, rest)
      | Inr (e, False, rest) \<Rightarrow>
          if rest = [] then Inr (Undefined, True, [])
          else bdecode_list (es @ [e]) rest depth)"
| "bdecode_dict d [] depth = Inl Out_of_bounds"
| "bdecode_dict d (c # cs) depth =
     (if c = CHR ''e'' then Inr (d, False, cs)
      else case bdecode_recursive (c # cs) (depth + 1) of
        Inl f \<Rightarrow> Inl f
      | Inr (key, True, rest) \<Rightarrow> Inr (Undefined, True, rest)
      | Inr (String k, False, rest) \<Rightarrow>
          (case bdecode_recursive rest (depth + 1) of
             Inl f \<Rightarrow> Inl f
           | Inr (e, True, rest') \<Rightarrow> Inr (Undefined, True, rest')
           | Inr (e, False, rest') \<Rightarrow>
               if rest' = [] then Inr (Undefined, True, [])
               else (case subscript_assign d k e of
                       Inl f \<Rightarrow> Inl f
                     | Inr d' \<Rightarrow> bdecode_dict d' rest' depth))
      | Inr (key, False, rest) \<Rightarrow> Inr (d, False, rest))"
  by pat_completeness auto

text \<open>
  Every call that succeeds consumes input, which is what makes the loops end: a fact about
  the partial function first, then the termination proof.
\<close>

lemma read_until_length: "read_until cs t = (r, err, rest) \<Longrightarrow> length rest \<le> length cs"
  by (induction cs t arbitrary: r rest rule: read_until.induct)
    (auto split: if_splits prod.splits simp: le_SucI)

lemma read_until_ok: "read_until cs t = (r, False, rest) \<Longrightarrow> rest \<noteq> []"
  by (induction cs t arbitrary: r rest rule: read_until.induct)
    (auto split: if_splits prod.splits)

lemma read_string_length: "read_string n cs = (r, err, rest) \<Longrightarrow> length rest \<le> length cs"
  by (induction n cs arbitrary: r rest rule: read_string.induct)
    (auto split: if_splits prod.splits simp: le_SucI)

lemma read_until_tl_less:
  "read_until cs t = (r, False, rest) \<Longrightarrow> length (tl rest) < length cs"
  using read_until_length [of cs t r False rest] read_until_ok [of cs t r rest]
  by (cases rest) auto

lemma bdecode_consumes_partial:
  "bdecode_recursive_bdecode_list_bdecode_dict_dom (Inl (cs, depth)) \<Longrightarrow>
     bdecode_recursive cs depth = Inr (e, False, rest) \<Longrightarrow> length rest < length cs"
  "bdecode_recursive_bdecode_list_bdecode_dict_dom (Inr (Inl (es, cs, depth))) \<Longrightarrow>
     bdecode_list es cs depth = Inr (e, False, rest) \<Longrightarrow> length rest < length cs"
  "bdecode_recursive_bdecode_list_bdecode_dict_dom (Inr (Inr (d, cs, depth))) \<Longrightarrow>
     bdecode_dict d cs depth = Inr (e, False, rest) \<Longrightarrow> length rest < length cs"
proof (induction arbitrary: e rest and e rest and e rest
    rule: bdecode_recursive_bdecode_list_bdecode_dict.pinduct)
  case (1 cs depth)
  note run = "1.prems" [unfolded bdecode_recursive.psimps [OF "1.hyps"]]
  from run obtain c xs where lt: "depth < 100" and cs: "cs = c # xs"
    by (auto split: if_splits list.splits)
  consider (i) "c = CHR ''i''" | (l) "c = CHR ''l''" | (d) "c = CHR ''d''"
    | (dig) "is_digit c" "c \<noteq> CHR ''i''" "c \<noteq> CHR ''l''" "c \<noteq> CHR ''d''"
    using run lt cs by (auto split: if_splits)
  then show ?case
  proof cases
    case i
    with run lt cs show ?thesis
      by (auto split: prod.splits bool.splits if_splits dest!: read_until_tl_less)
  next
    case l
    with run lt cs have "bdecode_list [] xs depth = Inr (e, False, rest)" by simp
    with "1.IH"(1) [OF _ cs] l lt cs show ?thesis by fastforce
  next
    case d
    with run lt cs have "bdecode_dict (Dict []) xs depth = Inr (e, False, rest)" by simp
    with "1.IH"(2) [OF _ cs] d lt cs show ?thesis by fastforce
  next
    case dig
    with run lt cs show ?thesis
      by (auto simp del: read_until.simps split: prod.splits bool.splits
          dest!: read_until_tl_less read_string_length)
  qed
next
  case (2 es depth)
  then show ?case by (simp add: bdecode_list.psimps)
next
  case (3 es c cs depth)
  note run = "3.prems" [unfolded bdecode_list.psimps(2) [OF "3.hyps"]]
  show ?case
  proof (cases "c = CHR ''e''")
    case True
    with run show ?thesis by simp
  next
    case False
    with run obtain e' rest' where
      r: "bdecode_recursive (c # cs) (depth + 1) = Inr (e', False, rest')" and
      ne: "rest' \<noteq> []" and l: "bdecode_list (es @ [e']) rest' depth = Inr (e, False, rest)"
      by (auto split: sum.splits prod.splits bool.splits if_splits)
    from "3.IH"(1) [OF False r] have "length rest' < length (c # cs)" .
    moreover from "3.IH"(2) [OF False r refl refl refl ne l] have "length rest < length rest'" by simp
    ultimately show ?thesis by simp
  qed
next
  case (4 d depth)
  then show ?case by (simp add: bdecode_dict.psimps)
next
  case (5 d c cs depth)
  note run = "5.prems" [unfolded bdecode_dict.psimps(2) [OF "5.hyps"]]
  show ?case
  proof (cases "c = CHR ''e''")
    case True
    with run show ?thesis by simp
  next
    case False
    with run obtain key rest' where
      r: "bdecode_recursive (c # cs) (depth + 1) = Inr (key, False, rest')"
      by (auto split: sum.splits prod.splits bool.splits entry.splits)
    from "5.IH"(1) [OF False r] have less: "length rest' < length (c # cs)" .
    show ?thesis
    proof (cases "\<exists>k. key = String k")
      case True
      then obtain k where k: "key = String k" by blast
      with run False r obtain e' rest'' d' where
        r': "bdecode_recursive rest' (depth + 1) = Inr (e', False, rest'')" and
        ne: "rest'' \<noteq> []" and sa: "subscript_assign d k e' = Inr d'" and
        l: "bdecode_dict d' rest'' depth = Inr (e, False, rest)"
        by (auto split: sum.splits prod.splits bool.splits if_splits)
      from "5.IH"(2) [OF \<open>c \<noteq> CHR ''e''\<close> r refl k refl refl r']
      have "length rest'' < length rest'" .
      moreover from "5.IH"(3) [OF \<open>c \<noteq> CHR ''e''\<close> r refl k refl refl r' refl refl refl ne sa l]
      have "length rest < length rest''" .
      ultimately show ?thesis using less by simp
    next
      case False
      with run \<open>c \<noteq> CHR ''e''\<close> r less show ?thesis
        by (cases key) auto
    qed
  qed
qed

termination bdecode_recursive
proof (relation "measure (\<lambda>x. case x of
      Inl (cs, depth) \<Rightarrow> 2 * length cs
    | Inr (Inl (es, cs, depth)) \<Rightarrow> 2 * length cs + 1
    | Inr (Inr (d, cs, depth)) \<Rightarrow> 2 * length cs + 1)", goal_cases)
qed (auto dest!: bdecode_consumes_partial(1))
declare bdecode_recursive.simps [simp del] bdecode_list.simps [simp del] bdecode_dict.simps [simp del]

text \<open>The two overloads of \<open>bdecode\<close>: the second also reports how many bytes were read.\<close>

definition bdecode_len :: "string \<Rightarrow> (entry \<times> nat) result" where
  "bdecode_len s =
     bind_result (bdecode_recursive s 0) (\<lambda>(e, err, rest).
       let len = length s - length rest in if err then Inr (Undefined, len) else Inr (e, len))"

definition bdecode :: "string \<Rightarrow> entry result" where
  "bdecode s =
     bind_result (bdecode_recursive s 0) (\<lambda>(e, err, rest). if err then Inr Undefined else Inr e)"

subsection \<open>Well-formed entries\<close>

text \<open>
  The entries the encoder is meant for: no undefined part, integers whose negation is
  representable, strings whose length fits the \<open>int\<close> the decoder reads it into, sorted
  dictionaries. \<open>nesting\<close> is the recursion depth the decoder needs.
\<close>

fun wf_entry :: "entry \<Rightarrow> bool" where
  "wf_entry Undefined = False"
| "wf_entry (Integer v) = (- (2 ^ 63) < v \<and> v < 2 ^ 63)"
| "wf_entry (String s) = (length s < 2 ^ 31)"
| "wf_entry (List es) = (\<forall>e \<in> set es. wf_entry e)"
| "wf_entry (Dict d) =
     (sorted_keys d \<and> (\<forall>kv \<in> set d. length (fst kv) < 2 ^ 31 \<and> wf_entry (snd kv)))"

fun nesting :: "entry \<Rightarrow> nat" where
  "nesting (List es) = 1 + Max (insert 0 (nesting ` set es))"
| "nesting (Dict d) = 1 + Max (insert 0 ((\<lambda>kv. nesting (snd kv)) ` set d))"
| "nesting _ = 1"

subsection \<open>Integers are written in decimal\<close>

abbreviation encoding :: "entry \<Rightarrow> string" where
  "encoding e \<equiv> snd (bencode_recursive e)"

lemma int_sdiv_10: "int n sdiv 10 = int (n div 10)" and int_smod_10: "int n smod 10 = int (n mod 10)"
  by (cases n; simp add: signed_divide_int_def signed_modulo_int_def zdiv_int zmod_int)+

lemma itoa_loop_decimal:
  "0 < n \<Longrightarrow> length (decimal n) + sign \<le> sz \<Longrightarrow>
    itoa_loop sign sz (int n) out = (sz - length (decimal n), decimal n @ out)"
proof (induction n arbitrary: sz out rule: decimal.induct)
  case (1 n)
  then obtain sz' where sz: "sz = Suc sz'" by (cases sz) auto
  have digit: "to_char (48 + schar (to_char (int (n mod 10)))) = digit_char (n mod 10)"
    by (simp add: digit_char_def schar_small)
  show ?case
  proof (cases "n < 10")
    case True
    with 1 sz digit show ?thesis
      by (cases sz') (simp_all add: int_sdiv_10 int_smod_10 decimal.simps [of n])
  next
    case False
    then have "0 < n div 10" by auto
    with 1 False sz have "itoa_loop sign sz' (int (n div 10)) (digit_char (n mod 10) # out) =
        (sz' - length (decimal (n div 10)), decimal (n div 10) @ digit_char (n mod 10) # out)"
      by (simp add: decimal.simps [of n])
    with 1 False sz digit show ?thesis
      by (simp add: int_sdiv_10 int_smod_10 decimal.simps [of n])
  qed
qed

lemma length_decimal_int64: "n < 2 ^ 63 \<Longrightarrow> length (decimal n) \<le> 19"
  by (rule length_decimal_le) auto

lemma integer_to_str_int_string:
  assumes "- (2 ^ 63) < v" and "v < 2 ^ 63"
  shows "integer_to_str 21 v = int_string v"
proof -
  consider "v < 0" | "v = 0" | "v > 0" by linarith
  then show ?thesis
  proof cases
    case 1
    then have "int64 (- v) = int (nat (- v))" using assms by (simp add: int64_id)
    moreover have "length (decimal (nat (- v))) \<le> 19"
      using assms 1 by (intro length_decimal_int64) auto
    ultimately show ?thesis
      using 1 itoa_loop_decimal [of "nat (- v)" 1 20 "[]"]
      by (simp add: integer_to_str_def int_string_def Let_def)
  next
    case 2
    have "decimal 0 = ''0''"
      by (simp add: decimal.simps [of 0] digit_char_def) code_simp
    with 2 show ?thesis
      by (simp add: integer_to_str_def int_string_def numeral_eq_Suc)
  next
    case 3
    have "length (decimal (nat v)) \<le> 19"
      using assms 3 by (intro length_decimal_int64) auto
    then show ?thesis
      using 3 itoa_loop_decimal [of "nat v" 0 20 "[]"]
      by (simp add: integer_to_str_def int_string_def Let_def)
  qed
qed

lemma digit_not_nul: "is_digit c \<Longrightarrow> c \<noteq> CHR 0x00"
  by (auto simp: is_digit_iff schar_def uchar_def)

lemma write_integer_int_string:
  assumes "- (2 ^ 63) < v" and "v < 2 ^ 63"
  shows "write_integer v = (int (length (int_string v)), int_string v)"
proof -
  have "\<forall>c \<in> set (int_string v). c \<noteq> CHR 0x00"
    by (auto simp: int_string_def dest!: decimal_digits digit_not_nul)
  then have str: "takeWhile (\<lambda>c. c \<noteq> CHR 0x00) (int_string v) = int_string v"
    by (simp add: takeWhile_eq_all_conv)
  from assms show ?thesis
    by (simp add: write_integer_def integer_to_str_int_string Let_def str)
qed

lemma bencode_length:
  "fst (bencode_recursive e) = int (length (snd (bencode_recursive e)))"
  "fst (bencode_list es) = int (length (snd (bencode_list es)))"
  "fst (bencode_dict d) = int (length (snd (bencode_dict d)))"
  by (induction rule: bencode_recursive_bencode_list_bencode_dict.induct)
    (auto simp: write_integer_def write_string_def Let_def split: prod.splits)

lemma takeWhile_is_digit_decimal [simp]: "takeWhile is_digit (decimal n) = decimal n"
  by (auto simp: takeWhile_eq_all_conv dest: decimal_digits)

lemma c_str_id: "(\<And>c. c \<in> set s \<Longrightarrow> c \<noteq> CHR 0x00) \<Longrightarrow> c_str s = s"
  by (auto simp: c_str_def takeWhile_eq_all_conv)

lemma digit_chars [simp]: "\<not> is_digit (CHR ''e'')" "\<not> is_digit (CHR '':'')" "\<not> is_digit (CHR ''i'')"
  "\<not> is_digit (CHR ''l'')" "\<not> is_digit (CHR ''d'')" "\<not> is_digit (CHR ''-'')"
  by (simp_all add: is_digit_iff schar_def uchar_def)

lemma digit_not_space: "is_digit c \<Longrightarrow> \<not> is_cspace c"
  using schar_small [of c] by (auto simp: is_digit_iff is_cspace_def schar_def uchar_def)

lemma strtoll_int_string:
  assumes "- (2 ^ 63) \<le> v" and "v < 2 ^ 63"
  shows "strtoll (int_string v) = (v, length (int_string v))"
proof -
  have c: "c_str (int_string v) = int_string v"
    by (rule c_str_id) (auto simp: int_string_def dest!: decimal_digits digit_not_nul split: if_splits)
  obtain d ds where dec: "decimal (nat \<bar>v\<bar>) = d # ds" by (cases "decimal (nat \<bar>v\<bar>)") auto
  then have d: "is_digit d" by (rule decimal_eq_Cons_digit)
  then have "d \<noteq> CHR ''-''" "d \<noteq> CHR ''+''"
    by (auto simp: is_digit_iff schar_def uchar_def)
  with d have nd: "\<not> is_cspace d" "d \<noteq> CHR ''-''" "d \<noteq> CHR ''+''"
    by (auto dest: digit_not_space)
  have val: "digits_value 0 (d # ds) = \<bar>v\<bar>" and tw: "takeWhile is_digit (d # ds) = d # ds"
    unfolding dec [symmetric] by simp_all
  have sp: "\<not> is_cspace (CHR ''-'')" by (simp add: is_cspace_def uchar_def)
  show ?thesis
  proof (cases "v < 0")
    case True
    then have "int_string v = CHR ''-'' # d # ds" using dec by (simp add: int_string_def)
    with True assms c val tw sp show ?thesis
      by (simp add: strtoll_def Let_def saturate64_def)
  next
    case False
    then have "int_string v = d # ds" using dec by (simp add: int_string_def)
    with False assms c val tw nd show ?thesis
      by (simp add: strtoll_def Let_def saturate64_def)
  qed
qed

lemma atoi_decimal: "n < 2 ^ 31 \<Longrightarrow> atoi (decimal n) = int n"
  using strtoll_int_string [of "int n"] by (simp add: atoi_def int_string_def int32_id)

lemma read_until_append:
  "t \<notin> set s \<Longrightarrow> read_until (s @ t # rest) t = (s, False, t # rest)"
  by (induction s) auto

lemma read_string_append: "read_string (length s) (s @ rest) = (s, False, rest)"
  by (induction s) auto

lemma nesting_List_le: "nesting (List es) \<le> n \<longleftrightarrow> 1 \<le> n \<and> (\<forall>e \<in> set es. nesting e < n)"
  by (cases n) (auto simp: less_Suc_eq_le)

lemma nesting_Dict_le: "nesting (Dict d) \<le> n \<longleftrightarrow> 1 \<le> n \<and> (\<forall>kv \<in> set d. nesting (snd kv) < n)"
  by (cases n) (auto simp: less_Suc_eq_le)


lemma encoding_Integer: "- (2 ^ 63) < v \<Longrightarrow> v < 2 ^ 63 \<Longrightarrow> encoding (Integer v) = CHR ''i'' # int_string v @ ''e''"
  by (simp add: write_integer_int_string)

lemma write_length: "length s < 2 ^ 31 \<Longrightarrow> snd (write_integer (int (length s))) = decimal (length s)"
  by (simp add: write_integer_int_string int_string_def)

lemma encoding_String: "length s < 2 ^ 31 \<Longrightarrow> encoding (String s) = decimal (length s) @ CHR '':'' # s"
  by (simp add: write_integer_int_string int_string_def write_string_def)

lemma encoding_List: "encoding (List es) = CHR ''l'' # concat (map encoding es) @ ''e''"
proof -
  have "snd (bencode_list es) = concat (map encoding es)"
    by (induction es) (auto split: prod.splits)
  then show ?thesis by (auto split: prod.splits)
qed

definition encoding_pair :: "string \<times> entry \<Rightarrow> string" where
  "encoding_pair kv = encoding (String (fst kv)) @ encoding (snd kv)"

lemma encoding_Dict: "encoding (Dict d) = CHR ''d'' # concat (map encoding_pair d) @ ''e''"
proof -
  have "snd (bencode_dict d) = concat (map encoding_pair d)"
    by (induction d) (auto split: prod.splits simp: encoding_pair_def write_string_def)
  then show ?thesis by (auto split: prod.splits)
qed

lemma encoding_start:
  assumes "wf_entry e"
  obtains c cs where "encoding e = c # cs" "cs \<noteq> []" "c \<noteq> CHR ''e''"
proof (cases e)
  case (Integer v)
  with assms that show ?thesis by (simp add: encoding_Integer del: bencode_recursive.simps)
next
  case (String s)
  obtain c cs where "decimal (length s) = c # cs" by (cases "decimal (length s)") auto
  moreover then have "c \<noteq> CHR ''e''" using decimal_eq_Cons_digit by fastforce
  ultimately show ?thesis using that assms String by (simp add: encoding_String del: bencode_recursive.simps)
qed (use assms that in \<open>auto simp add: encoding_List encoding_Dict simp del: bencode_recursive.simps\<close>)


lemma colon_not_in_decimal: "CHR '':'' \<notin> set (decimal n)" and e_not_in_int_string: "CHR ''e'' \<notin> set (int_string v)"
  by (auto simp: int_string_def dest!: decimal_digits)

lemma bdecode_Integer:
  assumes "- (2 ^ 63) < v" "v < 2 ^ 63" "depth < 100"
  shows "bdecode_recursive (encoding (Integer v) @ rest) depth = Inr (Integer v, False, rest)"
proof -
  have "0 < length (int_string v)" by (simp add: int_string_def)
  with assms show ?thesis
    unfolding bdecode_recursive.simps encoding_Integer [OF assms(1,2)]
    by (simp add: read_until_append e_not_in_int_string strtoll_int_string)
qed

lemma bdecode_String:
  assumes "length s < 2 ^ 31" "depth < 100"
  shows "bdecode_recursive (encoding (String s) @ rest) depth = Inr (String s, False, rest)"
proof -
  obtain c cs where dec: "decimal (length s) = c # cs" by (cases "decimal (length s)") auto
  then have "is_digit c" by (rule decimal_eq_Cons_digit)
  then have "c \<noteq> CHR ''i''" "c \<noteq> CHR ''l''" "c \<noteq> CHR ''d''" by auto
  moreover have "read_until (decimal (length s) @ CHR '':'' # s @ rest) (CHR '':'') =
      (decimal (length s), False, CHR '':'' # s @ rest)"
    by (rule read_until_append) (rule colon_not_in_decimal)
  moreover have "nat (atoi (c # cs)) = length s"
    using atoi_decimal [of "length s"] assms(1) dec by simp
  ultimately show ?thesis
    using assms \<open>is_digit c\<close> unfolding bdecode_recursive.simps encoding_String [OF assms(1)]
    by (simp add: dec read_string_append del: read_until.simps)
qed

lemma bdecode_list_Cons:
  assumes "bdecode_recursive (encoding e @ rest) (depth + 1) = Inr (e, False, rest)"
    and "wf_entry e" "rest \<noteq> []"
  shows "bdecode_list es (encoding e @ rest) depth = bdecode_list (es @ [e]) rest depth"
proof -
  obtain c cs where "encoding e = c # cs" "c \<noteq> CHR ''e''"
    using assms(2) by (rule encoding_start)
  with assms show ?thesis by (simp add: bdecode_list.simps)
qed

lemma bdecode_dict_Cons:
  assumes "bdecode_recursive (encoding e @ rest) (depth + 1) = Inr (e, False, rest)"
    and "length k < 2 ^ 31" "depth + 1 < 100" "wf_entry e" "rest \<noteq> []" "\<forall>k' \<in> fst ` set d. k' < k"
  shows "bdecode_dict (Dict d) (encoding_pair (k, e) @ rest) depth =
    bdecode_dict (Dict (d @ [(k, e)])) rest depth"
proof -
  have "wf_entry (String k)" using assms(2) by simp
  then obtain c cs where k: "encoding (String k) = c # cs" "c \<noteq> CHR ''e''" by (rule encoding_start)
  have "bdecode_recursive (encoding (String k) @ encoding e @ rest) (depth + 1) =
      Inr (String k, False, encoding e @ rest)"
    using assms(2,3) by (rule bdecode_String)
  with assms k show ?thesis
    by (simp add: bdecode_dict.simps encoding_pair_def subscript_assign_Dict map_update_append
        del: bencode_recursive.simps)
qed

lemma bdecode_list_encoding:
  assumes "\<And>e rest. e \<in> set es \<Longrightarrow>
      bdecode_recursive (encoding e @ rest) (depth + 1) = Inr (e, False, rest)"
    and "\<forall>e \<in> set es. wf_entry e"
  shows "bdecode_list acc (concat (map encoding es) @ CHR ''e'' # rest) depth =
    Inr (List (acc @ es), False, rest)"
  using assms
  by (induction es arbitrary: acc) (simp_all add: bdecode_list.simps(2) [of _ "CHR ''e''"] bdecode_list_Cons)

lemma bdecode_dict_encoding:
  assumes "\<And>kv rest. kv \<in> set d \<Longrightarrow>
      bdecode_recursive (encoding (snd kv) @ rest) (depth + 1) = Inr (snd kv, False, rest)"
    and "d \<noteq> [] \<Longrightarrow> depth + 1 < 100" and "wf_entry (Dict d)"
    and "\<forall>k \<in> fst ` set acc. \<forall>k' \<in> fst ` set d. k < k'"
  shows "bdecode_dict (Dict acc) (concat (map encoding_pair d) @ CHR ''e'' # rest) depth =
    Inr (Dict (acc @ d), False, rest)"
  using assms
proof (induction d arbitrary: acc)
  case Nil
  show ?case by (simp add: bdecode_dict.simps)
next
  case (Cons kv d)
  have "bdecode_dict (Dict acc)
      (encoding_pair (fst kv, snd kv) @ concat (map encoding_pair d) @ CHR ''e'' # rest) depth =
    bdecode_dict (Dict (acc @ [(fst kv, snd kv)])) (concat (map encoding_pair d) @ CHR ''e'' # rest) depth"
    using Cons.prems by (intro bdecode_dict_Cons) auto
  also have "\<dots> = Inr (Dict ((acc @ [kv]) @ d), False, rest)"
    using Cons.IH [of "acc @ [kv]"] Cons.prems by (cases kv) auto
  finally show ?case by simp
qed

lemma bdecode_encoding:
  "wf_entry e \<Longrightarrow> depth + nesting e \<le> 100 \<Longrightarrow>
     bdecode_recursive (encoding e @ rest) depth = Inr (e, False, rest)"
proof (induction e arbitrary: depth rest)
  case Undefined
  then show ?case by simp
next
  case (Integer v)
  then show ?case by (simp add: bdecode_Integer del: bencode_recursive.simps)
next
  case (String s)
  then show ?case by (simp add: bdecode_String del: bencode_recursive.simps)
next
  case (List es)
  have "depth + 1 + nesting e \<le> 100" if "e \<in> set es" for e
    using that List.prems(2) nesting_List_le [of es "100 - depth"] by auto
  then have "bdecode_list [] (concat (map encoding es) @ CHR ''e'' # rest) depth =
      Inr (List ([] @ es), False, rest)"
    using List by (intro bdecode_list_encoding) auto
  with List.prems(2) show ?case
    unfolding bdecode_recursive.simps encoding_List by simp
next
  case (Dict d)
  have nest: "depth + 1 + nesting (snd kv) \<le> 100" if "kv \<in> set d" for kv
    using that Dict.prems(2) nesting_Dict_le [of d "100 - depth"] by auto
  have pos: "1 \<le> nesting x" for x by (cases x) auto
  have "d \<noteq> [] \<Longrightarrow> depth + 1 < 100"
    using nest [of "hd d"] pos [of "snd (hd d)"] by simp
  then have "bdecode_dict (Dict []) (concat (map encoding_pair d) @ CHR ''e'' # rest) depth =
      Inr (Dict ([] @ d), False, rest)"
    using Dict nest by (intro bdecode_dict_encoding) (auto intro!: Dict.IH)
  with Dict.prems(2) show ?case
    unfolding bdecode_recursive.simps encoding_Dict by simp
qed


subsection \<open>Properties\<close>

definition sample_entry :: entry where
  "sample_entry = Dict [(''a'', Integer (- 42)), (''b'', List [String ''xyz'', Dict []])]"

lemma sample_entry_wf: "wf_entry sample_entry" "nesting sample_entry \<le> 100"
  by (simp_all add: sample_entry_def)

text \<open>
  The number \<open>bencode\<close> returns is the number of bytes it wrote, for every entry.
\<close>

theorem bencode_byte_count: "fst (bencode e) = int (length (snd (bencode e)))"
  unfolding bencode_def by (rule bencode_length(1))



text \<open>
  The encoding is uniquely readable: two encodings followed by anything agree only where
  the entries and the remainders agree, so no encoding is a proper prefix of another.
\<close>

theorem bencode_prefix_free:
  assumes "wf_entry e" "wf_entry f" "nesting e \<le> 100" "nesting f \<le> 100"
    and "snd (bencode e) @ r = snd (bencode f) @ r'"
  shows "e = f \<and> r = r'"
proof -
  have "Inr (e, False, r) = bdecode_recursive (encoding e @ r) 0"
    using assms by (simp only: bdecode_encoding add_0)
  also have "\<dots> = bdecode_recursive (encoding f @ r') 0"
    using assms(5) by (simp only: bencode_def)
  also have "\<dots> = Inr (f, False, r')"
    using assms by (simp only: bdecode_encoding add_0)
  finally show ?thesis by simp
qed

theorem bencode_prefix_free_witness:
  "snd (bencode sample_entry) @ ''x'' = snd (bencode sample_entry) @ ''x'' \<and>
   sample_entry = sample_entry \<and> ''x'' = ''x''"
  using bencode_prefix_free [OF sample_entry_wf(1) sample_entry_wf(1) sample_entry_wf(2)
      sample_entry_wf(2), of "''x''" "''x''"] by simp


text \<open>
  A dictionary whose key is not a string is not reported as an error: the decoder stops
  at the end of that key and returns the pairs it has read so far, here none.
\<close>

theorem bdecode_accepts_bad_key:
  assumes "wf_entry e" and "nesting e \<le> 99" and "\<forall>s. e \<noteq> String s"
  shows "bdecode (CHR ''d'' # snd (bencode e) @ rest) = Inr (Dict [])"
proof -
  obtain c cs where e: "encoding e = c # cs" "c \<noteq> CHR ''e''"
    using assms(1) by (rule encoding_start)
  have key: "bdecode_recursive (encoding e @ rest) (0 + 1) = Inr (e, False, rest)"
    using assms by (intro bdecode_encoding) auto
  have "bdecode_dict (Dict []) (encoding e @ rest) 0 = Inr (Dict [], False, rest)"
    using key e assms(3) by (cases e) (simp_all add: bdecode_dict.simps)
  then have "bdecode_recursive (CHR ''d'' # encoding e @ rest) 0 = Inr (Dict [], False, rest)"
    by (simp add: bdecode_recursive.simps [of "CHR ''d'' # encoding e @ rest"])
  then show ?thesis by (simp add: bdecode_def bencode_def)
qed

theorem bdecode_accepts_bad_key_witness:
  "wf_entry (Integer 1) \<and> bdecode (CHR ''d'' # snd (bencode (Integer 1)) @ ''i2ee'') = Inr (Dict [])"
  using bdecode_accepts_bad_key [of "Integer 1" "''i2ee''"] by simp

text \<open>
  The least 64-bit integer is not written in decimal, and the decoder rejects what is
  written.
\<close>

theorem bencode_least_integer:
  "snd (bencode (Integer (- (2 ^ 63)))) = ''i-'' @ [CHR 0x27] @ ''..--).0-*(+,))+(0(e'' \<and>
   bdecode (snd (bencode (Integer (- (2 ^ 63))))) = Inr Undefined"
proof -
  have enc: "encoding (Integer (- (2 ^ 63))) = CHR ''i'' # CHR ''-'' # CHR 0x27 # ''..--).0-*(+,))+(0(e''"
    by code_simp
  have "strtoll (CHR ''-'' # CHR 0x27 # ''..--).0-*(+,))+(0('') = (0, 0)"
    by code_simp
  then show ?thesis
    unfolding bencode_def bdecode_def enc by (simp add: bdecode_recursive.simps)
qed

end
