(* ===== verification/LazyBdecode.thy ===== *)
theory LazyBdecode
  imports Bencode
begin

section \<open>The lazy decoder (\<open>libtorrent/src/lazy_bdecode.cpp\<close>, \<open>lazy_entry.hpp\<close>)\<close>

text \<open>
  \<open>lazy_bdecode\<close> builds a tree of \<open>lazy_entry\<close> objects that point into the buffer. It is the
  decoder every \<open>.torrent\<close> file goes through. A pointer into the buffer is an offset, which may
  leave the buffer (the code computes such pointers); a null pointer is \<open>None\<close>. A pointer to
  an entry is the path of child numbers that leads to it from the root. The loop of the
  decoder may run forever, which is the result \<open>None\<close> of \<open>lazy_bdecode\<close>. Allocation is taken
  to succeed.
\<close>

subsection \<open>Entries\<close>

text \<open>
  The fields of \<open>struct lazy_entry\<close>; the union \<open>m_data\<close> is given by its three members, of
  which \<open>m_type\<close> says which one is in use. The arrays hold their first \<open>m_size\<close> elements. The
  constructor leaves \<open>m_size\<close> and \<open>m_capacity\<close> uninitialised; they are 0 here and are not read
  before a \<open>construct\<close> function has set them. The output entry of a call is a fresh one.
\<close>

datatype entry_type_t = None_t | Dict_t | List_t | String_t | Int_t

datatype lazy_entry = Lazy_entry
  (m_type: entry_type_t)
  (m_start: "int option")
  (m_dict: "(int \<times> lazy_entry) list")
  (m_list: "lazy_entry list")
  (m_size: int)
  (m_capacity: int)
  (m_begin: "int option")
  (m_end: "int option")

definition new_entry :: lazy_entry where
  "new_entry = Lazy_entry None_t None [] [] 0 0 None None"

definition construct_int :: "int \<Rightarrow> int \<Rightarrow> lazy_entry \<Rightarrow> lazy_entry" where
  "construct_int start len e =
     Lazy_entry Int_t (Some start) [] [] (int32 len) (m_capacity e)
       (Some (start - 1)) (Some (start + int32 len + 1))"

fun num_digits_loop :: "nat \<Rightarrow> int \<Rightarrow> int" where
  "num_digits_loop val ret = (if val \<ge> 10 then num_digits_loop (val div 10) (ret + 1) else ret)"

declare num_digits_loop.simps [simp del]

definition num_digits :: "int \<Rightarrow> int" where
  "num_digits val = num_digits_loop (nat val) 1"

definition construct_string :: "int \<Rightarrow> int \<Rightarrow> lazy_entry \<Rightarrow> lazy_entry" where
  "construct_string start len e =
     Lazy_entry String_t (Some start) [] [] len (m_capacity e)
       (Some (start - 1 - num_digits len)) (Some (start + len))"

definition construct_dict :: "int \<Rightarrow> lazy_entry \<Rightarrow> lazy_entry" where
  "construct_dict beg e = Lazy_entry Dict_t None [] [] 0 0 (Some beg) (m_end e)"

definition construct_list :: "int \<Rightarrow> lazy_entry \<Rightarrow> lazy_entry" where
  "construct_list beg e = Lazy_entry List_t None [] [] 0 0 (Some beg) (m_end e)"

definition set_end :: "int \<Rightarrow> lazy_entry \<Rightarrow> lazy_entry" where
  "set_end fin e =
     Lazy_entry (m_type e) (m_start e) (m_dict e) (m_list e) (m_size e) (m_capacity e)
       (m_begin e) (Some fin)"

text \<open>
  Appending grows the array by half when it is full (the product with \<open>1.5f\<close>, truncated,
  which is exact up to \<open>2 ^ 24\<close>) and returns the number of the new child.
\<close>

definition grown_capacity :: "int \<Rightarrow> int \<Rightarrow> int" where
  "grown_capacity capacity count =
     (if capacity = 0 then 5 else if count = capacity then capacity * 3 div 2 else capacity)"

definition dict_append :: "int \<Rightarrow> lazy_entry \<Rightarrow> lazy_entry \<times> nat" where
  "dict_append name e =
     (Lazy_entry (m_type e) (m_start e) (m_dict e @ [(name, new_entry)]) (m_list e)
        (m_size e + 1) (grown_capacity (m_capacity e) (m_size e)) (m_begin e) (m_end e),
      nat (m_size e))"

definition list_append :: "lazy_entry \<Rightarrow> lazy_entry \<times> nat" where
  "list_append e =
     (Lazy_entry (m_type e) (m_start e) (m_dict e) (m_list e @ [new_entry])
        (m_size e + 1) (grown_capacity (m_capacity e) (m_size e)) (m_begin e) (m_end e),
      nat (m_size e))"

subsection \<open>Entries behind pointers\<close>

fun entry_at :: "nat list \<Rightarrow> lazy_entry \<Rightarrow> lazy_entry option" where
  "entry_at [] e = Some e"
| "entry_at (i # p) e =
     (case m_type e of
        Dict_t \<Rightarrow> (if i < length (m_dict e) then entry_at p (snd (m_dict e ! i)) else None)
      | List_t \<Rightarrow> (if i < length (m_list e) then entry_at p (m_list e ! i) else None)
      | _ \<Rightarrow> None)"

fun update_at :: "nat list \<Rightarrow> (lazy_entry \<Rightarrow> lazy_entry) \<Rightarrow> lazy_entry \<Rightarrow> lazy_entry" where
  "update_at [] f e = f e"
| "update_at (i # p) f (Lazy_entry t st ds ls n c b en) =
     (case t of
        Dict_t \<Rightarrow> Lazy_entry t st (ds[i := map_prod id (update_at p f) (ds ! i)]) ls n c b en
      | List_t \<Rightarrow> Lazy_entry t st ds (ls[i := update_at p f (ls ! i)]) n c b en
      | _ \<Rightarrow> Lazy_entry t st ds ls n c b en)"

subsection \<open>Scanning\<close>

text \<open>
  \<open>parse_int\<close> and \<open>find_char\<close> on the bytes between their two pointers: how many bytes they
  pass over, \<open>None\<close> for the null pointer. The value is a reference parameter, so it has the
  digits read so far also where a byte is not a digit.
\<close>

fun parse_int :: "string \<Rightarrow> char \<Rightarrow> int \<Rightarrow> nat option \<times> int" where
  "parse_int [] delimiter val = (Some 0, val)"
| "parse_int (c # cs) delimiter val =
     (if c = delimiter then (Some 0, val)
      else if \<not> is_digit c then (None, val)
      else case parse_int cs delimiter (int64 (int64 (val * 10) + (schar c - schar (CHR ''0'')))) of
        (r, v) \<Rightarrow> (map_option Suc r, v))"

fun find_char :: "string \<Rightarrow> char \<Rightarrow> nat" where
  "find_char [] delimiter = 0"
| "find_char (c # cs) delimiter = (if c = delimiter then 0 else Suc (find_char cs delimiter))"

subsection \<open>The decoder\<close>

record bdecode_state =
  bd_ret :: lazy_entry
  bd_stack :: "nat list list"   \<comment> \<open>the top first\<close>
  bd_start :: int
  bd_done :: "int result option"   \<comment> \<open>the value returned, once the loop has been left by \<open>return\<close>\<close>

definition fail_bdecode :: "bdecode_state \<Rightarrow> bdecode_state" where
  "fail_bdecode s = s\<lparr>bd_ret := new_entry, bd_done := Some (Inr (- 1))\<rparr>"

definition raise_fault :: "fault \<Rightarrow> bdecode_state \<Rightarrow> bdecode_state" where
  "raise_fault f s = s\<lparr>bd_done := Some (Inl f)\<rparr>"

text \<open>\<open>pop_with f\<close>: change the top entry and pop it; \<open>change_top f\<close>: change it only.\<close>

definition change_top :: "(lazy_entry \<Rightarrow> lazy_entry) \<Rightarrow> bdecode_state \<Rightarrow> bdecode_state" where
  "change_top f s = s\<lparr>bd_ret := update_at (hd (bd_stack s)) f (bd_ret s)\<rparr>"

definition pop_with :: "(lazy_entry \<Rightarrow> lazy_entry) \<Rightarrow> bdecode_state \<Rightarrow> bdecode_state" where
  "pop_with f s = (change_top f s)\<lparr>bd_stack := tl (bd_stack s)\<rparr>"

text \<open>
  The first \<open>switch\<close>, on the type of the top entry. \<open>Inl\<close> is a state in which this round of
  the loop has ended (\<open>continue\<close> or \<open>return\<close>), \<open>Inr\<close> the state and the byte with which the
  second \<open>switch\<close> goes on. Where the code calls \<open>fail_bdecode\<close> without returning it goes on
  with pointers to an entry that has been overwritten.
\<close>

definition dict_key :: "string \<Rightarrow> char \<Rightarrow> lazy_entry \<Rightarrow> bdecode_state
    \<Rightarrow> bdecode_state + bdecode_state \<times> char" where
  "dict_key buf t cur s =
     (case parse_int (drop (nat (bd_start s)) buf) (CHR '':'') (schar t - schar (CHR ''0'')) of
        (None, len) \<Rightarrow> Inl (fail_bdecode s)
      | (Some n, len) \<Rightarrow>
          let start = bd_start s + int n in
          if start + len + 3 > int (length buf) then Inl (fail_bdecode s)
          else case read_at buf start of
            Inl f \<Rightarrow> Inl (raise_fault f s)
          | Inr c \<Rightarrow>
              if c \<noteq> CHR '':'' then Inl (fail_bdecode s)
              else if start + 1 = int (length buf) then Inl (raise_fault Stale_pointer s)
              else
                let (cur', i) = dict_append (start + 1) cur;
                    start' = start + 1 + len
                in if start' \<ge> int (length buf) then Inl (raise_fault Stale_pointer s)
                   else case read_at buf start' of
                     Inl f \<Rightarrow> Inl (raise_fault f s)
                   | Inr t' \<Rightarrow>
                       Inr ((change_top (\<lambda>_. cur') s)
                              \<lparr>bd_stack := (hd (bd_stack s) @ [i]) # bd_stack s,
                               bd_start := start' + 1\<rparr>, t'))"

definition switch_top :: "string \<Rightarrow> char \<Rightarrow> bdecode_state
    \<Rightarrow> bdecode_state + bdecode_state \<times> char" where
  "switch_top buf t s =
     (case entry_at (hd (bd_stack s)) (bd_ret s) of
        None \<Rightarrow> Inl (raise_fault Stale_pointer s)
      | Some cur \<Rightarrow>
          (case m_type cur of
             Dict_t \<Rightarrow>
               if t = CHR ''e'' then Inl (pop_with (set_end (bd_start s)) s)
               else dict_key buf t cur s
           | List_t \<Rightarrow>
               if t = CHR ''e'' then Inl (pop_with (set_end (bd_start s)) s)
               else
                 let (cur', i) = list_append cur
                 in Inr ((change_top (\<lambda>_. cur') s)
                           \<lparr>bd_stack := (hd (bd_stack s) @ [i]) # bd_stack s\<rparr>, t)
           | _ \<Rightarrow> Inr (s, t)))"

text \<open>The second \<open>switch\<close>, on the byte that starts a value.\<close>

definition switch_byte :: "string \<Rightarrow> char \<Rightarrow> bdecode_state \<Rightarrow> bdecode_state" where
  "switch_byte buf t s =
     (if t = CHR ''d'' then change_top (construct_dict (bd_start s - 1)) s
      else if t = CHR ''l'' then change_top (construct_list (bd_start s - 1)) s
      else if t = CHR ''i'' then
        let int_start = bd_start s;
            start = int_start + int (find_char (drop (nat int_start) buf) (CHR ''e''));
            s' = pop_with (construct_int int_start (start - int_start)) s
        in if start = int (length buf) then fail_bdecode s
           else s'\<lparr>bd_start := start + 1\<rparr>
      else if \<not> is_digit t then fail_bdecode s
      else case parse_int (drop (nat (bd_start s)) buf) (CHR '':'') (schar t - schar (CHR ''0'')) of
        (None, len) \<Rightarrow> fail_bdecode s
      | (Some n, len) \<Rightarrow>
          let start = bd_start s + int n in
          if start + len + 1 > int (length buf) then fail_bdecode s
          else case read_at buf start of
            Inl f \<Rightarrow> raise_fault f s
          | Inr c \<Rightarrow>
              if c \<noteq> CHR '':'' then fail_bdecode s
              else (pop_with (construct_string (start + 1) (int32 len)) s)
                     \<lparr>bd_start := start + 1 + len\<rparr>)"

definition lazy_step :: "string \<Rightarrow> int \<Rightarrow> bdecode_state \<Rightarrow> bdecode_state" where
  "lazy_step buf depth_limit s =
     (if int (length (bd_stack s)) > depth_limit then fail_bdecode s
      else case read_at buf (bd_start s) of
        Inl f \<Rightarrow> raise_fault f s
      | Inr t \<Rightarrow>
          let s = s\<lparr>bd_start := bd_start s + 1\<rparr> in
          if bd_start s \<ge> int (length buf) \<and> t \<noteq> CHR ''e'' then fail_bdecode s
          else case switch_top buf t s of
            Inl s' \<Rightarrow> s'
          | Inr (s', t') \<Rightarrow> switch_byte buf t' s')"

definition lazy_running :: "string \<Rightarrow> bdecode_state \<Rightarrow> bool" where
  "lazy_running buf s \<longleftrightarrow>
     bd_done s = None \<and> bd_start s < int (length buf) \<and> bd_stack s \<noteq> []"

definition lazy_init :: bdecode_state where
  "lazy_init = \<lparr>bd_ret = new_entry, bd_stack = [[]], bd_start = 0, bd_done = None\<rparr>"

definition lazy_bdecode :: "string \<Rightarrow> int \<Rightarrow> (int result \<times> lazy_entry) option" where
  "lazy_bdecode buf depth_limit =
     map_option (\<lambda>s. (case bd_done s of None \<Rightarrow> Inr 0 | Some r \<Rightarrow> r, bd_ret s))
       (while_option (lazy_running buf) (lazy_step buf depth_limit) lazy_init)"

subsection \<open>Reading the decoded tree\<close>

text \<open>
  The accessors of \<open>lazy_entry\<close>. They take the buffer the entry points into. A C string
  argument is the list of its characters before the terminating zero. None of them checks the
  type of the entry (there are assertions only): on an entry of another type they read a
  member of the union \<open>m_data\<close> that is not in use.
\<close>

definition int_value :: "string \<Rightarrow> lazy_entry \<Rightarrow> int result" where
  "int_value buf e =
     (case m_start e of
        None \<Rightarrow> Inl (if m_type e = None_t then Null_pointer else Wrong_member)
      | Some p \<Rightarrow>
          bind_result (read_at buf p) (\<lambda>c.
            let negative = (c = CHR ''-'');
                first = (if negative then p + 1 else p);
                last = p + m_size e
            in if last > int (length buf) then Inl Out_of_bounds
               else let val = snd (parse_int (subbytes buf first (last - first)) (CHR ''e'') 0)
                    in Inr (if negative then int64 (- val) else val)))"

definition string_value :: "string \<Rightarrow> lazy_entry \<Rightarrow> string result" where
  "string_value buf e =
     (case m_start e of
        None \<Rightarrow> Inl (if m_type e = None_t then Null_pointer else Wrong_member)
      | Some p \<Rightarrow>
          if m_size e < 0 then Inl (Thrown ''length_error'')
          else if p < 0 \<or> p + m_size e > int (length buf) then Inl Out_of_bounds
          else Inr (subbytes buf p (m_size e)))"

definition string_length :: "lazy_entry \<Rightarrow> int" where
  "string_length e = m_size e"

fun string_equal :: "string \<Rightarrow> string \<Rightarrow> int \<Rightarrow> nat \<Rightarrow> bool result" where
  "string_equal str1 buf str2 0 = Inr (str1 = [])"
| "string_equal str1 buf str2 (Suc len2) =
     bind_result (read_at buf str2) (\<lambda>c.
       case str1 of
         [] \<Rightarrow> Inr False
       | d # ds \<Rightarrow> if d \<noteq> c then Inr False else string_equal ds buf (str2 + 1) len2)"

fun dict_find_loop :: "string \<Rightarrow> string \<Rightarrow> (int \<times> lazy_entry) list \<Rightarrow> lazy_entry option result" where
  "dict_find_loop buf name [] = Inr None"
| "dict_find_loop buf name ((first, e) # rest) =
     (case m_begin e of
        None \<Rightarrow> Inl Null_pointer
      | Some b \<Rightarrow>
          bind_result (string_equal name buf first (nat (b - first))) (\<lambda>eq.
            if eq then Inr (Some e) else dict_find_loop buf name rest))"

definition dict_find :: "string \<Rightarrow> string \<Rightarrow> lazy_entry \<Rightarrow> lazy_entry option result" where
  "dict_find buf name e =
     (if m_type e = Dict_t then dict_find_loop buf name (m_dict e)
      else if m_size e \<le> 0 then Inr None
      else Inl Wrong_member)"

definition dict_find_string :: "string \<Rightarrow> string \<Rightarrow> lazy_entry \<Rightarrow> lazy_entry option result" where
  "dict_find_string buf name e =
     bind_result (dict_find buf name e) (\<lambda>r.
       case r of None \<Rightarrow> Inr None
       | Some x \<Rightarrow> if m_type x \<noteq> String_t then Inr None else Inr (Some x))"

definition dict_find_dict :: "string \<Rightarrow> string \<Rightarrow> lazy_entry \<Rightarrow> lazy_entry option result" where
  "dict_find_dict buf name e =
     bind_result (dict_find buf name e) (\<lambda>r.
       case r of None \<Rightarrow> Inr None
       | Some x \<Rightarrow> if m_type x \<noteq> Dict_t then Inr None else Inr (Some x))"

definition dict_find_list :: "string \<Rightarrow> string \<Rightarrow> lazy_entry \<Rightarrow> lazy_entry option result" where
  "dict_find_list buf name e =
     bind_result (dict_find buf name e) (\<lambda>r.
       case r of None \<Rightarrow> Inr None
       | Some x \<Rightarrow> if m_type x \<noteq> List_t then Inr None else Inr (Some x))"

definition dict_find_string_value :: "string \<Rightarrow> string \<Rightarrow> lazy_entry \<Rightarrow> string result" where
  "dict_find_string_value buf name e =
     bind_result (dict_find buf name e) (\<lambda>r.
       case r of None \<Rightarrow> Inr ''''
       | Some x \<Rightarrow> if m_type x \<noteq> String_t then Inr '''' else string_value buf x)"

definition dict_find_int_value :: "string \<Rightarrow> string \<Rightarrow> int \<Rightarrow> lazy_entry \<Rightarrow> int result" where
  "dict_find_int_value buf name default_val e =
     bind_result (dict_find buf name e) (\<lambda>r.
       case r of None \<Rightarrow> Inr default_val
       | Some x \<Rightarrow> if m_type x \<noteq> Int_t then Inr default_val else int_value buf x)"

definition dict_at :: "string \<Rightarrow> int \<Rightarrow> lazy_entry \<Rightarrow> (string \<times> lazy_entry) result" where
  "dict_at buf i e =
     bind_result (if m_type e = Dict_t then read_at (m_dict e) i else Inl Wrong_member) (\<lambda>(first, x).
       case m_begin x of
         None \<Rightarrow> Inl Null_pointer
       | Some b \<Rightarrow>
           if b - first < 0 then Inl (Thrown ''length_error'')
           else if first < 0 \<or> b > int (length buf) then Inl Out_of_bounds
           else Inr (subbytes buf first (b - first), x))"

definition dict_size :: "lazy_entry \<Rightarrow> int" where
  "dict_size e = m_size e"

definition list_at :: "int \<Rightarrow> lazy_entry \<Rightarrow> lazy_entry result" where
  "list_at i e = (if m_type e = List_t then read_at (m_list e) i else Inl Wrong_member)"

definition list_size :: "lazy_entry \<Rightarrow> int" where
  "list_size e = m_size e"

definition list_string_value_at :: "string \<Rightarrow> int \<Rightarrow> lazy_entry \<Rightarrow> string result" where
  "list_string_value_at buf i e =
     bind_result (list_at i e) (\<lambda>x.
       if m_type x \<noteq> String_t then Inr '''' else string_value buf x)"

definition list_int_value_at :: "string \<Rightarrow> int \<Rightarrow> int \<Rightarrow> lazy_entry \<Rightarrow> int result" where
  "list_int_value_at buf i default_val e =
     bind_result (list_at i e) (\<lambda>x.
       if m_type x \<noteq> Int_t then Inr default_val else int_value buf x)"

text \<open>\<open>data_section\<close>: where the bencoded form of an entry lies in the buffer.\<close>

definition data_section :: "lazy_entry \<Rightarrow> (int \<times> int) result" where
  "data_section e =
     (case (m_begin e, m_end e) of
        (Some b, Some f) \<Rightarrow> Inr (b, int32 (f - b))
      | _ \<Rightarrow> Inl Null_pointer)"

subsection \<open>Entries behind pointers: laws\<close>

lemma update_at_append: "update_at (p @ q) f = update_at p (update_at q f)"
proof (induction p)
  case (Cons i p)
  then show ?case
    by (intro ext, case_tac x) (simp split: entry_type_t.splits)
qed (auto simp: fun_eq_iff)

lemma update_at_const [simp]:
  "update_at p (\<lambda>_. x) (update_at p g r) = update_at p (\<lambda>_. x) r"
proof (induction p g r rule: update_at.induct)
  case (2 i p f t st ds ls n c b en)
  then show ?case
    by (cases t; cases "i < length ds"; cases "i < length ls")
      (auto simp: list_update_beyond map_prod_def split: prod.splits)
qed simp

lemma update_at_eq_const:
  "entry_at p r = Some e \<Longrightarrow> update_at p f r = update_at p (\<lambda>_. f e) r"
proof (induction p f r rule: update_at.induct)
  case (2 i p f t st ds ls n c b en)
  then show ?case
    by (cases t) (auto simp: map_prod_def split: if_splits prod.splits)
qed simp

lemma entry_at_update_at [simp]:
  "entry_at p r = Some e \<Longrightarrow> entry_at p (update_at p f r) = Some (f e)"
proof (induction p f r rule: update_at.induct)
  case (2 i p f t st ds ls n c b en)
  then show ?case
    by (cases t) (auto simp: map_prod_def split: if_splits prod.splits)
qed simp

lemma entry_at_append: "entry_at (p @ q) r = Option.bind (entry_at p r) (entry_at q)"
  by (induction p r rule: entry_at.induct) (auto split: entry_type_t.splits)

subsection \<open>Scanning: laws\<close>

lemma digits_value_mono: "0 \<le> v \<Longrightarrow> \<forall>c \<in> set ds. is_digit c \<Longrightarrow> v \<le> digits_value v ds"
proof (induction ds arbitrary: v)
  case (Cons c ds)
  then have "v \<le> v * 10 + (schar c - 48)" "0 \<le> v * 10 + (schar c - 48)"
    by (auto simp: is_digit_iff)
  with Cons show ?case by fastforce
qed simp

lemma parse_int_digits:
  assumes "0 \<le> v" "\<forall>c \<in> set ds. is_digit c" "\<not> is_digit t" "digits_value v ds < 2 ^ 63"
    and "rest = [] \<or> hd rest = t"
  shows "parse_int (ds @ rest) t v = (Some (length ds), digits_value v ds)"
  using assms(1-4)
proof (induction ds arbitrary: v)
  case Nil
  with assms(5) show ?case by (cases rest) auto
next
  case (Cons c ds)
  let ?v = "v * 10 + (schar c - 48)"
  have v: "0 \<le> ?v" using Cons.prems by (auto simp: is_digit_iff)
  have "?v \<le> digits_value ?v ds" using Cons.prems v by (intro digits_value_mono) auto
  with Cons.prems have "?v < 2 ^ 63" "v * 10 < 2 ^ 63" by (auto simp: is_digit_iff)
  with v Cons.prems have "int64 (int64 (v * 10) + (schar c - 48)) = ?v"
    by (simp add: int64_id)
  moreover have "c \<noteq> t" using Cons.prems by auto
  ultimately show ?case using Cons v by simp
qed

lemma find_char_append: "t \<notin> set s \<Longrightarrow> find_char (s @ t # rest) t = length s"
  by (induction s) auto

lemma num_digits_loop_decimal: "num_digits_loop n r = r + int (length (decimal n)) - 1"
proof (induction n r rule: num_digits_loop.induct)
  case (1 n r)
  then show ?case
    by (cases "n < 10") (simp_all add: num_digits_loop.simps [of n] decimal.simps [of n])
qed

lemma num_digits_decimal: "num_digits (int n) = int (length (decimal n))"
  by (simp add: num_digits_def num_digits_loop_decimal)

declare bencode_recursive.simps [simp del]

subsection \<open>What a decoded entry looks like\<close>

text \<open>
  \<open>represents buf e le\<close>: the lazy entry \<open>le\<close> is the decoding of \<open>e\<close> out of a piece of the
  buffer that holds exactly the encoding of \<open>e\<close>.
\<close>

definition spans :: "string \<Rightarrow> entry \<Rightarrow> lazy_entry \<Rightarrow> bool" where
  "spans buf e le \<longleftrightarrow>
     (\<exists>pre post. buf = pre @ encoding e @ post \<and> m_begin le = Some (int (length pre)) \<and>
        m_end le = Some (int (length pre + length (encoding e))))"

lemma spansI:
  "buf = pre @ encoding e @ post \<Longrightarrow> m_begin le = Some (int (length pre)) \<Longrightarrow>
   m_end le = Some (int (length pre + length (encoding e))) \<Longrightarrow> spans buf e le"
  by (auto simp: spans_def)

text \<open>The pair of a key and a value lies between two positions.\<close>

definition within :: "int \<Rightarrow> int \<Rightarrow> int \<times> lazy_entry \<Rightarrow> bool" where
  "within b f nl \<longleftrightarrow> b \<le> fst nl \<and> the (m_end (snd nl)) \<le> f"

fun represents :: "string \<Rightarrow> entry \<Rightarrow> lazy_entry \<Rightarrow> bool" where
  "represents buf Undefined le = False"
| "represents buf (Integer v) le =
     (spans buf (Integer v) le \<and> m_type le = Int_t \<and>
      m_start le = map_option (\<lambda>b. b + 1) (m_begin le) \<and> m_size le = int (length (int_string v)))"
| "represents buf (String s) le =
     (spans buf (String s) le \<and> m_type le = String_t \<and>
      m_start le = map_option (\<lambda>f. f - int (length s)) (m_end le) \<and> m_size le = int (length s))"
| "represents buf (List es) le =
     (spans buf (List es) le \<and> m_type le = List_t \<and> m_size le = int (length es) \<and>
      list_all2 (\<lambda>e l. represents buf e l) es (m_list le))"
| "represents buf (Dict d) le =
     (spans buf (Dict d) le \<and> m_type le = Dict_t \<and> m_size le = int (length d) \<and>
      list_all2 (\<lambda>kv nl. represents buf (snd kv) (snd nl) \<and> 0 \<le> fst nl \<and>
          m_begin (snd nl) = Some (fst nl + int (length (fst kv))) \<and>
          subbytes buf (fst nl) (int (length (fst kv))) = fst kv) d (m_dict le) \<and>
      (\<forall>nl \<in> set (m_dict le). within (the (m_begin le)) (the (m_end le)) nl))"

lemma represents_spans: "represents buf e le \<Longrightarrow> spans buf e le"
  by (cases e) auto

definition value_reaches :: "string \<Rightarrow> int \<Rightarrow> entry \<Rightarrow> bool" where
  "value_reaches buf limit e \<longleftrightarrow>
     (\<forall>pre post s p stk.
        buf = pre @ encoding e @ post \<longrightarrow> bd_start s = int (length pre) + 1 \<longrightarrow>
        bd_stack s = p # stk \<longrightarrow> entry_at p (bd_ret s) = Some new_entry \<longrightarrow> bd_done s = None \<longrightarrow>
        int (length stk + nesting e) \<le> limit \<longrightarrow>
        (\<exists>le. represents buf e le \<and> m_begin le = Some (int (length pre)) \<and>
           reaches (lazy_running buf) (lazy_step buf limit) (switch_byte buf (hd (encoding e)) s)
             (s\<lparr>bd_ret := update_at p (\<lambda>_. le) (bd_ret s), bd_stack := stk,
                bd_start := int (length pre + length (encoding e))\<rparr>)))"

lemma value_reaches_Integer:
  assumes "wf_entry (Integer v)"
  shows "value_reaches buf limit (Integer v)"
  unfolding value_reaches_def
proof (intro allI impI)
  fix pre post p stk and s :: bdecode_state
  assume buf: "buf = pre @ encoding (Integer v) @ post" and st: "bd_start s = int (length pre) + 1"
    and stack: "bd_stack s = p # stk" and at: "entry_at p (bd_ret s) = Some new_entry"
  from assms have enc: "encoding (Integer v) = CHR ''i'' # int_string v @ ''e''"
    by (simp add: encoding_Integer)
  define le where "le = construct_int (int (length pre) + 1) (int (length (int_string v))) new_entry"
  have drop: "drop (nat (bd_start s)) buf = int_string v @ CHR ''e'' # post"
    by (simp add: st buf enc nat_add_distrib)
  have small: "int32 (int (length (int_string v))) = int (length (int_string v))"
  proof -
    from assms have "length (decimal (nat \<bar>v\<bar>)) \<le> 19" by (intro length_decimal_int64) auto
    then show ?thesis by (auto simp: int_string_def intro!: int32_id)
  qed
  have lbuf: "length buf = length pre + length (int_string v) + 2 + length post"
    by (simp add: buf enc)
  have "switch_byte buf (CHR ''i'') s =
      s\<lparr>bd_ret := update_at p (\<lambda>_. le) (bd_ret s), bd_stack := stk,
        bd_start := int (length pre + length (encoding (Integer v)))\<rparr>"
    using update_at_eq_const [OF at, of "construct_int (int (length pre) + 1) (int (length (int_string v)))"]
    by (simp add: switch_byte_def drop find_char_append e_not_in_int_string lbuf Let_def)
      (simp add: st stack pop_with_def change_top_def le_def enc)
  moreover have "represents buf (Integer v) le" "m_begin le = Some (int (length pre))"
    by (auto simp: le_def construct_int_def small enc intro!: spansI [OF buf])
  ultimately show "\<exists>le. represents buf (Integer v) le \<and> m_begin le = Some (int (length pre)) \<and>
      reaches (lazy_running buf) (lazy_step buf limit) (switch_byte buf (hd (encoding (Integer v))) s)
        (s\<lparr>bd_ret := update_at p (\<lambda>_. le) (bd_ret s), bd_stack := stk,
           bd_start := int (length pre + length (encoding (Integer v)))\<rparr>)"
    by (auto simp: enc)
qed

text \<open>The bytes of a string: its length in decimal, a colon and its characters.\<close>

lemma parse_int_length:
  assumes "n < 2 ^ 31" "decimal n = t # ds"
  shows "is_digit t" "parse_int (ds @ CHR '':'' # rest) (CHR '':'') (schar t - 48) = (Some (length ds), int n)"
proof -
  have dig: "is_digit c" if "c \<in> set (t # ds)" for c using that assms(2) decimal_digits by metis
  then show t: "is_digit t" by simp
  have "digits_value (schar t - 48) ds = digits_value 0 (t # ds)" by simp
  also have "\<dots> = int n" by (simp flip: assms(2))
  finally show "parse_int (ds @ CHR '':'' # rest) (CHR '':'') (schar t - 48) = (Some (length ds), int n)"
    using parse_int_digits [of "schar t - 48" ds "CHR '':''" "CHR '':'' # rest"] dig t assms(1)
    by (simp add: is_digit_iff [of t])
qed

lemma value_reaches_String:
  assumes "wf_entry (String x)"
  shows "value_reaches buf limit (String x)"
  unfolding value_reaches_def
proof (intro allI impI)
  fix pre post p stk and s :: bdecode_state
  assume buf: "buf = pre @ encoding (String x) @ post" and st: "bd_start s = int (length pre) + 1"
    and stack: "bd_stack s = p # stk" and at: "entry_at p (bd_ret s) = Some new_entry"
  from assms have len: "length x < 2 ^ 31" by simp
  obtain t ds where dec: "decimal (length x) = t # ds" by (cases "decimal (length x)") auto
  from len have enc: "encoding (String x) = t # ds @ CHR '':'' # x"
    using dec by (simp add: encoding_String)
  have dig: "is_digit t" by (rule parse_int_length(1) [OF len dec])
  define colon where "colon = int (length pre + 1 + length ds)"
  define le where "le = construct_string (colon + 1) (int (length x)) new_entry"
  have drop: "drop (nat (bd_start s)) buf = ds @ CHR '':'' # x @ post"
    by (simp add: st buf enc nat_add_distrib)
  have read: "read_at buf colon = Inr (CHR '':'')"
    using read_at_append [of "pre @ t # ds" "CHR '':''" "x @ post"] by (simp add: buf enc colon_def add_ac)
  have small: "int32 (int (length x)) = int (length x)" using len by (simp add: int32_id)
  have lbuf: "length buf = length pre + length ds + length x + 2 + length post"
    by (simp add: buf enc)
  have t: "t \<noteq> CHR ''d''" "t \<noteq> CHR ''l''" "t \<noteq> CHR ''i''" using dig by auto
  have colon: "bd_start s + int (length ds) = colon" by (simp add: st colon_def)
  have "switch_byte buf t s =
      s\<lparr>bd_ret := update_at p (\<lambda>_. le) (bd_ret s), bd_stack := stk,
        bd_start := int (length pre + length (encoding (String x)))\<rparr>"
    using update_at_eq_const [OF at, of "construct_string (colon + 1) (int (length x))"]
    by (simp add: switch_byte_def t dig drop parse_int_length(2) [OF len dec] Let_def colon read small)
      (simp add: colon_def lbuf stack pop_with_def change_top_def le_def enc)
  moreover have "represents buf (String x) le" "m_begin le = Some (int (length pre))"
    by (auto simp: le_def construct_string_def small enc colon_def num_digits_decimal dec
        intro!: spansI [OF buf])
  ultimately show "\<exists>le. represents buf (String x) le \<and> m_begin le = Some (int (length pre)) \<and>
      reaches (lazy_running buf) (lazy_step buf limit) (switch_byte buf (hd (encoding (String x))) s)
        (s\<lparr>bd_ret := update_at p (\<lambda>_. le) (bd_ret s), bd_stack := stk,
           bd_start := int (length pre + length (encoding (String x)))\<rparr>)"
    by (auto simp: enc)
qed

lemma update_at_twice:
  "entry_at p r = Some e \<Longrightarrow> update_at p f (update_at p (\<lambda>_. x) r) = update_at p (\<lambda>_. f x) r"
  by (subst update_at_eq_const [of p _ x]) simp_all

lemma read_at_end: "buf = pre @ c # post \<Longrightarrow> i = int (length pre) \<Longrightarrow> read_at buf i = Inr c"
  by (simp add: read_at_append)

text \<open>One round of the loop that reaches the end of a list or of a dictionary.\<close>

lemma lazy_step_end:
  assumes "buf = pre @ CHR ''e'' # post" and "bd_start s = int (length pre)" and "bd_done s = None"
    and "bd_stack s = p # stk" and "int (length stk) < limit"
    and "entry_at p (bd_ret s) = Some cur" and "m_type cur = List_t \<or> m_type cur = Dict_t"
  shows "lazy_running buf s"
    and "lazy_step buf limit s =
      s\<lparr>bd_ret := update_at p (\<lambda>_. set_end (int (length pre) + 1) cur) (bd_ret s), bd_stack := stk,
        bd_start := int (length pre) + 1\<rparr>"
proof -
  show "lazy_running buf s" using assms by (simp add: lazy_running_def)
  have "read_at buf (bd_start s) = Inr (CHR ''e'')" using assms by (simp add: read_at_append)
  then show "lazy_step buf limit s =
      s\<lparr>bd_ret := update_at p (\<lambda>_. set_end (int (length pre) + 1) cur) (bd_ret s), bd_stack := stk,
        bd_start := int (length pre) + 1\<rparr>"
    using assms(2-) update_at_eq_const [OF assms(6), of "set_end (int (length pre) + 1)"]
    by (auto simp: lazy_step_def switch_top_def pop_with_def change_top_def)
qed

lemma lazy_step_element:
  assumes buf: "buf = pre @ encoding e @ post" and "wf_entry e" and "post \<noteq> []"
    and "bd_start s = int (length pre)" and "bd_done s = None"
    and "bd_stack s = p # stk" and "int (length stk) < limit"
    and "entry_at p (bd_ret s) = Some cur" and "m_type cur = List_t"
  shows "lazy_running buf s"
    and "lazy_step buf limit s = switch_byte buf (hd (encoding e))
      (s\<lparr>bd_start := int (length pre) + 1, bd_ret := update_at p (\<lambda>_. fst (list_append cur)) (bd_ret s),
         bd_stack := (p @ [nat (m_size cur)]) # p # stk\<rparr>)"
proof -
  obtain c cs where enc: "encoding e = c # cs" "cs \<noteq> []" "c \<noteq> CHR ''e''"
    using encoding_start [OF assms(2)] by metis
  show "lazy_running buf s" using assms enc by (simp add: lazy_running_def)
  have "read_at buf (bd_start s) = Inr c" using assms enc by (simp add: read_at_append)
  moreover have "int (length pre) + 1 < int (length buf)" using enc by (cases cs) (simp_all add: buf)
  ultimately show "lazy_step buf limit s = switch_byte buf (hd (encoding e))
      (s\<lparr>bd_start := int (length pre) + 1, bd_ret := update_at p (\<lambda>_. fst (list_append cur)) (bd_ret s),
         bd_stack := (p @ [nat (m_size cur)]) # p # stk\<rparr>)"
    using assms(4-) enc by (simp add: lazy_step_def switch_top_def change_top_def list_append_def)
qed

lemma lazy_list_loop:
  assumes "\<forall>e \<in> set es. wf_entry e \<and> value_reaches buf limit e \<and> int (length stk + 1 + nesting e) \<le> limit"
    and "int (length stk) < limit" and "entry_at p r0 = Some x0"
    and "buf = pre @ concat (map encoding es) @ CHR ''e'' # post"
    and "bd_start s = int (length pre)" and "bd_done s = None" and "bd_stack s = p # stk"
    and "bd_ret s = update_at p (\<lambda>_. Lazy_entry List_t None [] ls (int (length ls)) cap (Some b) None) r0"
  shows "\<exists>les cap'. list_all2 (represents buf) es les \<and>
    reaches (lazy_running buf) (lazy_step buf limit) s
      (s\<lparr>bd_ret := update_at p (\<lambda>_. Lazy_entry List_t None [] (ls @ les) (int (length (ls @ les))) cap' (Some b)
             (Some (int (length (pre @ concat (map encoding es))) + 1))) r0,
         bd_stack := stk, bd_start := int (length (pre @ concat (map encoding es))) + 1\<rparr>)"
  using assms
proof (induction es arbitrary: pre ls cap s)
  case Nil
  let ?cur = "Lazy_entry List_t None [] ls (int (length ls)) cap (Some b) None"
  have at: "entry_at p (bd_ret s) = Some ?cur" using Nil.prems(3,8) by simp
  have "reaches (lazy_running buf) (lazy_step buf limit) s (lazy_step buf limit s)"
    using lazy_step_end(1) [OF _ _ Nil.prems(6,7,2) at] Nil.prems(4,5)
    by (auto intro: reaches_step)
  also have "lazy_step buf limit s =
      s\<lparr>bd_ret := update_at p (\<lambda>_. set_end (int (length pre) + 1) ?cur) (bd_ret s), bd_stack := stk,
        bd_start := int (length pre) + 1\<rparr>"
    using lazy_step_end(2) [OF _ _ Nil.prems(6,7,2) at] Nil.prems(4,5) by simp
  finally show ?case
    using Nil.prems(8) by (intro exI [of _ "[]"] exI [of _ cap]) (simp add: set_end_def)
next
  case (Cons e es)
  let ?cur = "Lazy_entry List_t None [] ls (int (length ls)) cap (Some b) None"
  let ?post = "concat (map encoding es) @ CHR ''e'' # post"
  let ?s1 = "s\<lparr>bd_start := int (length pre) + 1, bd_ret := update_at p (\<lambda>_. fst (list_append ?cur)) (bd_ret s),
         bd_stack := (p @ [length ls]) # p # stk\<rparr>"
  have at: "entry_at p (bd_ret s) = Some ?cur" using Cons.prems(3,8) by simp
  have buf: "buf = pre @ encoding e @ ?post" using Cons.prems(4) by simp
  have e: "wf_entry e" "value_reaches buf limit e" "int (length stk + 1 + nesting e) \<le> limit"
    using Cons.prems(1) by auto
  have step: "lazy_running buf s" "lazy_step buf limit s = switch_byte buf (hd (encoding e)) ?s1"
    using lazy_step_element [OF buf e(1) _ Cons.prems(5,6,7,2) at] by auto
  have "entry_at (p @ [length ls]) (bd_ret ?s1) = Some new_entry"
    using Cons.prems(3,8) by (simp add: entry_at_append list_append_def)
  then obtain le s2 where le: "represents buf e le"
    and run: "reaches (lazy_running buf) (lazy_step buf limit) (switch_byte buf (hd (encoding e)) ?s1) s2"
    and s2: "s2 = ?s1\<lparr>bd_ret := update_at (p @ [length ls]) (\<lambda>_. le) (bd_ret ?s1), bd_stack := p # stk,
            bd_start := int (length pre + length (encoding e))\<rparr>"
    using e(2) [unfolded value_reaches_def, rule_format, OF buf, of ?s1 "p @ [length ls]" "p # stk"]
      Cons.prems(6) e(3) by auto
  have s2': "bd_start s2 = int (length (pre @ encoding e))" "bd_done s2 = None" "bd_stack s2 = p # stk"
    using Cons.prems(6) by (simp_all add: s2)
  have ret: "bd_ret s2 = update_at p (\<lambda>_. Lazy_entry List_t None [] (ls @ [le]) (int (length (ls @ [le])))
      (grown_capacity cap (int (length ls))) (Some b) None) r0"
    using Cons.prems(3,8) by (simp add: s2 update_at_append list_append_def update_at_twice add.commute)
  have buf2: "buf = (pre @ encoding e) @ concat (map encoding es) @ CHR ''e'' # post" using buf by simp
  have elems: "\<forall>e \<in> set es. wf_entry e \<and> value_reaches buf limit e \<and> int (length stk + 1 + nesting e) \<le> limit"
    using Cons.prems(1) by simp
  from Cons.IH [OF elems Cons.prems(2,3) buf2 s2' ret] obtain les cap' where
    IH: "list_all2 (represents buf) es les"
    "reaches (lazy_running buf) (lazy_step buf limit) s2
      (s2\<lparr>bd_ret := update_at p (\<lambda>_. Lazy_entry List_t None [] ((ls @ [le]) @ les) (int (length ((ls @ [le]) @ les))) cap' (Some b)
             (Some (int (length ((pre @ encoding e) @ concat (map encoding es))) + 1))) r0,
         bd_stack := stk, bd_start := int (length ((pre @ encoding e) @ concat (map encoding es))) + 1\<rparr>)"
    (is "reaches _ _ _ ?s3") by (elim exE conjE)
  have "reaches (lazy_running buf) (lazy_step buf limit) s ?s3"
    using step reaches_trans [OF run IH(2)] by (simp add: reaches_step)
  with le IH(1) show ?case
    by (intro exI [of _ "le # les"] exI [of _ cap']) (simp add: s2 add_ac)
qed

lemma value_reaches_List:
  assumes "\<And>e. e \<in> set es \<Longrightarrow> wf_entry e \<and> value_reaches buf limit e"
  shows "value_reaches buf limit (List es)"
  unfolding value_reaches_def
proof (intro allI impI)
  fix pre post p stk and s :: bdecode_state
  assume buf: "buf = pre @ encoding (List es) @ post" and st: "bd_start s = int (length pre) + 1"
    and stack: "bd_stack s = p # stk" and at: "entry_at p (bd_ret s) = Some new_entry"
    and run: "bd_done s = None" and lim: "int (length stk + nesting (List es)) \<le> limit"
  let ?s1 = "switch_byte buf (CHR ''l'') s"
  have s1: "?s1 = s\<lparr>bd_ret := update_at p (\<lambda>_. Lazy_entry List_t None [] [] (int (length ([] :: lazy_entry list))) 0
      (Some (int (length pre))) None) (bd_ret s)\<rparr>"
    using update_at_eq_const [OF at, of "construct_list (int (length pre))"]
    by (simp add: switch_byte_def change_top_def stack st construct_list_def new_entry_def)
  have nest: "int (length stk + 1 + nesting e) \<le> limit" if "e \<in> set es" for e
    using that lim nesting_List_le [of es "nat (limit - int (length stk))"] by force
  have pos: "int (length stk) < limit" using lim by simp
  have elems: "\<forall>e \<in> set es. wf_entry e \<and> value_reaches buf limit e \<and> int (length stk + 1 + nesting e) \<le> limit"
    using assms nest by blast
  have buf1: "buf = (pre @ ''l'') @ concat (map encoding es) @ CHR ''e'' # post"
    using buf by (simp add: encoding_List)
  have st1: "bd_start ?s1 = int (length (pre @ ''l''))" "bd_done ?s1 = None" "bd_stack ?s1 = p # stk"
    "bd_ret ?s1 = update_at p (\<lambda>_. Lazy_entry List_t None [] [] (int (length ([] :: lazy_entry list))) 0
      (Some (int (length pre))) None) (bd_ret s)"
    by (simp_all add: s1 st run stack)
  from lazy_list_loop [OF elems pos at buf1 st1] obtain les cap' where les: "list_all2 (represents buf) es les"
    and loop: "reaches (lazy_running buf) (lazy_step buf limit) ?s1
      (?s1\<lparr>bd_ret := update_at p (\<lambda>_. Lazy_entry List_t None [] ([] @ les) (int (length ([] @ les))) cap'
             (Some (int (length pre)))
             (Some (int (length ((pre @ ''l'') @ concat (map encoding es))) + 1))) (bd_ret s),
         bd_stack := stk, bd_start := int (length ((pre @ ''l'') @ concat (map encoding es))) + 1\<rparr>)"
    by blast
  let ?le = "Lazy_entry List_t None [] les (int (length les)) cap' (Some (int (length pre)))
      (Some (int (length ((pre @ ''l'') @ concat (map encoding es))) + 1))"
  have "represents buf (List es) ?le"
    using les by (auto simp: encoding_List dest: list_all2_lengthD intro!: spansI [OF buf])
  with loop show "\<exists>le. represents buf (List es) le \<and> m_begin le = Some (int (length pre)) \<and>
      reaches (lazy_running buf) (lazy_step buf limit) (switch_byte buf (hd (encoding (List es))) s)
        (s\<lparr>bd_ret := update_at p (\<lambda>_. le) (bd_ret s), bd_stack := stk,
           bd_start := int (length pre + length (encoding (List es)))\<rparr>)"
    by (intro exI [of _ ?le]) (simp add: encoding_List s1 add_ac del: represents.simps)
qed


lemma dict_key_pair:
  assumes buf: "buf = pre @ encoding (String k) @ encoding v @ post"
    and "wf_entry v" and "post \<noteq> []" and k: "length k < 2 ^ 31"
    and dec: "decimal (length k) = t # ds" and s: "bd_start s = int (length pre) + 1" "bd_stack s = p # stk"
  shows "dict_key buf t cur s = Inr
     (s\<lparr>bd_ret := update_at p (\<lambda>_. fst (dict_append (int (length pre + length ds + 2)) cur)) (bd_ret s),
        bd_stack := (p @ [nat (m_size cur)]) # p # stk,
        bd_start := int (length pre + length (encoding (String k))) + 1\<rparr>, hd (encoding v))"
proof -
  obtain c cs where enc: "encoding v = c # cs" "cs \<noteq> []"
    using encoding_start [OF assms(2)] by metis
  have encs: "encoding (String k) = t # ds @ CHR '':'' # k" using k dec by (simp add: encoding_String)
  define colon where "colon = int (length pre + 1 + length ds)"
  have drop: "drop (nat (bd_start s)) buf = ds @ CHR '':'' # k @ c # cs @ post"
    by (simp add: s buf encs enc nat_add_distrib)
  have colon': "bd_start s + int (length ds) = colon" by (simp add: s colon_def)
  have read: "read_at buf colon = Inr (CHR '':'')"
    using read_at_append [of "pre @ t # ds" "CHR '':''" "k @ c # cs @ post"]
    by (simp add: buf encs enc colon_def add_ac)
  have read': "read_at buf (colon + 1 + int (length k)) = Inr c"
    using read_at_append [of "pre @ t # ds @ CHR '':'' # k" c "cs @ post"]
    by (simp add: buf encs enc colon_def add_ac)
  have lbuf: "int (length buf) = colon + 2 + int (length k) + int (length cs) + int (length post)"
    by (simp add: buf encs enc colon_def)
  have pos: "\<not> int (length cs) + int (length post) < 1" using assms(3) by (cases post) auto
  show ?thesis
    using pos by (simp add: dict_key_def drop parse_int_length(2) [OF k dec] Let_def colon' read lbuf
        dict_append_def read' change_top_def s(2)) (simp add: colon_def enc encs add_ac)
qed

lemma lazy_step_pair:
  assumes buf: "buf = pre @ encoding (String k) @ encoding v @ post"
    and "wf_entry v" and "post \<noteq> []" and k: "length k < 2 ^ 31"
    and dec: "decimal (length k) = t # ds"
    and s: "bd_start s = int (length pre)" "bd_done s = None" "bd_stack s = p # stk"
    and "int (length stk) < limit" and "entry_at p (bd_ret s) = Some cur" and "m_type cur = Dict_t"
  shows "lazy_running buf s"
    and "lazy_step buf limit s = switch_byte buf (hd (encoding v))
      (s\<lparr>bd_start := int (length pre) + 1,
         bd_ret := update_at p (\<lambda>_. fst (dict_append (int (length pre + length ds + 2)) cur)) (bd_ret s),
         bd_stack := (p @ [nat (m_size cur)]) # p # stk,
         bd_start := int (length pre + length (encoding (String k))) + 1\<rparr>)"
proof -
  have encs: "encoding (String k) = t # ds @ CHR '':'' # k" using k dec by (simp add: encoding_String)
  show "lazy_running buf s" by (simp add: lazy_running_def buf encs s)
  have t: "t \<noteq> CHR ''e''" using parse_int_length(1) [OF k dec] by auto
  have "read_at buf (bd_start s) = Inr t" by (simp add: buf encs s read_at_append)
  moreover have "int (length pre) + 1 < int (length buf)" by (simp add: buf encs)
  ultimately show "lazy_step buf limit s = switch_byte buf (hd (encoding v))
      (s\<lparr>bd_start := int (length pre) + 1,
         bd_ret := update_at p (\<lambda>_. fst (dict_append (int (length pre + length ds + 2)) cur)) (bd_ret s),
         bd_stack := (p @ [nat (m_size cur)]) # p # stk,
         bd_start := int (length pre + length (encoding (String k))) + 1\<rparr>)"
    using assms(9-) t dict_key_pair [OF assms(1-5), of "s\<lparr>bd_start := int (length pre) + 1\<rparr>" p stk cur]
    by (simp add: lazy_step_def switch_top_def s)
qed

definition represents_pair :: "string \<Rightarrow> string \<times> entry \<Rightarrow> int \<times> lazy_entry \<Rightarrow> bool" where
  "represents_pair buf kv nl \<longleftrightarrow>
     represents buf (snd kv) (snd nl) \<and> 0 \<le> fst nl \<and>
     m_begin (snd nl) = Some (fst nl + int (length (fst kv))) \<and>
     subbytes buf (fst nl) (int (length (fst kv))) = fst kv"

lemma lazy_dict_loop:
  assumes "\<forall>kv \<in> set d. length (fst kv) < 2 ^ 31 \<and> wf_entry (snd kv) \<and> value_reaches buf limit (snd kv) \<and>
      int (length stk + 1 + nesting (snd kv)) \<le> limit"
    and "int (length stk) < limit" and "entry_at p r0 = Some x0"
    and "buf = pre @ concat (map encoding_pair d) @ CHR ''e'' # post"
    and "bd_start s = int (length pre)" and "bd_done s = None" and "bd_stack s = p # stk"
    and "bd_ret s = update_at p (\<lambda>_. Lazy_entry Dict_t None ls [] (int (length ls)) cap (Some b) None) r0"
  shows "\<exists>les cap'. list_all2 (represents_pair buf) d les \<and>
    (\<forall>nl \<in> set les. within (int (length pre)) (int (length (pre @ concat (map encoding_pair d)))) nl) \<and>
    reaches (lazy_running buf) (lazy_step buf limit) s
      (s\<lparr>bd_ret := update_at p (\<lambda>_. Lazy_entry Dict_t None (ls @ les) [] (int (length (ls @ les))) cap' (Some b)
             (Some (int (length (pre @ concat (map encoding_pair d))) + 1))) r0,
         bd_stack := stk, bd_start := int (length (pre @ concat (map encoding_pair d))) + 1\<rparr>)"
  using assms
proof (induction d arbitrary: pre ls cap s)
  case Nil
  let ?cur = "Lazy_entry Dict_t None ls [] (int (length ls)) cap (Some b) None"
  have at: "entry_at p (bd_ret s) = Some ?cur" using Nil.prems(3,8) by simp
  have "reaches (lazy_running buf) (lazy_step buf limit) s (lazy_step buf limit s)"
    using lazy_step_end(1) [OF _ _ Nil.prems(6,7,2) at] Nil.prems(4,5)
    by (auto intro: reaches_step)
  also have "lazy_step buf limit s =
      s\<lparr>bd_ret := update_at p (\<lambda>_. set_end (int (length pre) + 1) ?cur) (bd_ret s), bd_stack := stk,
        bd_start := int (length pre) + 1\<rparr>"
    using lazy_step_end(2) [OF _ _ Nil.prems(6,7,2) at] Nil.prems(4,5) by simp
  finally show ?case
    using Nil.prems(8) by (intro exI [of _ "[]"] exI [of _ cap]) (simp add: set_end_def)
next
  case (Cons kv d)
  obtain k v where kv: "kv = (k, v)" by (cases kv)
  obtain t ds where dec: "decimal (length k) = t # ds" by (cases "decimal (length k)") auto
  let ?cur = "Lazy_entry Dict_t None ls [] (int (length ls)) cap (Some b) None"
  let ?post = "concat (map encoding_pair d) @ CHR ''e'' # post"
  let ?nm = "int (length pre + length ds + 2)"
  let ?pre = "pre @ encoding (String k)"
  let ?s1 = "s\<lparr>bd_start := int (length pre) + 1,
         bd_ret := update_at p (\<lambda>_. fst (dict_append ?nm ?cur)) (bd_ret s),
         bd_stack := (p @ [length ls]) # p # stk,
         bd_start := int (length pre + length (encoding (String k))) + 1\<rparr>"
  have at: "entry_at p (bd_ret s) = Some ?cur" using Cons.prems(3,8) by simp
  have buf: "buf = pre @ encoding (String k) @ encoding v @ ?post"
    using Cons.prems(4) by (simp add: kv encoding_pair_def [of "(k, v)"])
  then have bufv: "buf = ?pre @ encoding v @ ?post" by simp
  have e: "wf_entry v" "value_reaches buf limit v" "int (length stk + 1 + nesting v) \<le> limit"
    and k: "length k < 2 ^ 31"
    using Cons.prems(1) by (auto simp: kv)
  have encs: "encoding (String k) = t # ds @ CHR '':'' # k" using k dec by (simp add: encoding_String)
  have step: "lazy_running buf s" "lazy_step buf limit s = switch_byte buf (hd (encoding v)) ?s1"
    using lazy_step_pair [OF buf e(1) _ k dec Cons.prems(5,6,7,2) at] by auto
  have "entry_at (p @ [length ls]) (bd_ret ?s1) = Some new_entry"
    using Cons.prems(3,8) by (simp add: entry_at_append dict_append_def)
  then obtain le s2 where le: "represents buf v le" "m_begin le = Some (int (length ?pre))"
    and run: "reaches (lazy_running buf) (lazy_step buf limit) (switch_byte buf (hd (encoding v)) ?s1) s2"
    and s2: "s2 = ?s1\<lparr>bd_ret := update_at (p @ [length ls]) (\<lambda>_. le) (bd_ret ?s1), bd_stack := p # stk,
            bd_start := int (length ?pre + length (encoding v))\<rparr>"
    using e(2) [unfolded value_reaches_def, rule_format, OF bufv, of ?s1 "p @ [length ls]" "p # stk"]
      Cons.prems(6) e(3) by auto
  have s2': "bd_start s2 = int (length (pre @ encoding_pair kv))" "bd_done s2 = None" "bd_stack s2 = p # stk"
    using Cons.prems(6) by (simp_all add: s2 kv encoding_pair_def [of "(k, v)"])
  have ret: "bd_ret s2 = update_at p (\<lambda>_. Lazy_entry Dict_t None (ls @ [(?nm, le)]) [] (int (length (ls @ [(?nm, le)])))
      (grown_capacity cap (int (length ls))) (Some b) None) r0"
    using Cons.prems(3,8) by (simp add: s2 update_at_append dict_append_def update_at_twice add.commute)
  have buf2: "buf = (pre @ encoding_pair kv) @ ?post" using buf by (simp add: kv encoding_pair_def [of "(k, v)"])
  have pair: "represents_pair buf kv (?nm, le)"
    using le subbytes_append [of "pre @ t # ds @ '':''" k "encoding v @ ?post"]
    by (simp add: represents_pair_def kv encs buf add_ac)
  have inner: "within (int (length pre)) (int (length (pre @ concat (map encoding_pair (kv # d))))) (?nm, le)"
    using represents_spans [OF le(1)] le(2)
    by (auto simp: within_def spans_def kv encoding_pair_def [of "(k, v)"])
  have elems: "\<forall>kv \<in> set d. length (fst kv) < 2 ^ 31 \<and> wf_entry (snd kv) \<and> value_reaches buf limit (snd kv) \<and>
      int (length stk + 1 + nesting (snd kv)) \<le> limit"
    using Cons.prems(1) by simp
  from Cons.IH [OF elems Cons.prems(2,3) buf2 s2' ret] obtain les cap' where
    IH: "list_all2 (represents_pair buf) d les"
    "\<forall>nl \<in> set les. within (int (length (pre @ encoding_pair kv)))
        (int (length ((pre @ encoding_pair kv) @ concat (map encoding_pair d)))) nl"
    "reaches (lazy_running buf) (lazy_step buf limit) s2
      (s2\<lparr>bd_ret := update_at p (\<lambda>_. Lazy_entry Dict_t None ((ls @ [(?nm, le)]) @ les) [] (int (length ((ls @ [(?nm, le)]) @ les))) cap' (Some b)
             (Some (int (length ((pre @ encoding_pair kv) @ concat (map encoding_pair d))) + 1))) r0,
         bd_stack := stk, bd_start := int (length ((pre @ encoding_pair kv) @ concat (map encoding_pair d))) + 1\<rparr>)"
    (is "reaches _ _ _ ?s3") by (elim exE conjE)
  have "reaches (lazy_running buf) (lazy_step buf limit) s ?s3"
    using step reaches_trans [OF run IH(3)] by (simp add: reaches_step)
  moreover have "\<forall>nl \<in> set ((?nm, le) # les).
      within (int (length pre)) (int (length (pre @ concat (map encoding_pair (kv # d))))) nl"
    using inner IH(2) by (auto simp: within_def)
  ultimately show ?case using pair IH(1)
    by (intro exI [of _ "(?nm, le) # les"] exI [of _ cap']) (simp add: s2 add_ac)
qed

lemma value_reaches_Dict:
  assumes "\<And>kv. kv \<in> set d \<Longrightarrow>
    length (fst kv) < 2 ^ 31 \<and> wf_entry (snd kv) \<and> value_reaches buf limit (snd kv)"
  shows "value_reaches buf limit (Dict d)"
  unfolding value_reaches_def
proof (intro allI impI)
  fix pre post p stk and s :: bdecode_state
  assume buf: "buf = pre @ encoding (Dict d) @ post" and st: "bd_start s = int (length pre) + 1"
    and stack: "bd_stack s = p # stk" and at: "entry_at p (bd_ret s) = Some new_entry"
    and run: "bd_done s = None" and lim: "int (length stk + nesting (Dict d)) \<le> limit"
  let ?s1 = "switch_byte buf (CHR ''d'') s"
  have s1: "?s1 = s\<lparr>bd_ret := update_at p (\<lambda>_. Lazy_entry Dict_t None [] [] 0 0
      (Some (int (length pre))) None) (bd_ret s)\<rparr>"
    using update_at_eq_const [OF at, of "construct_dict (int (length pre))"]
    by (simp add: switch_byte_def change_top_def stack st construct_dict_def new_entry_def)
  have nest: "int (length stk + 1 + nesting (snd kv)) \<le> limit" if "kv \<in> set d" for kv
    using that lim nesting_Dict_le [of d "nat (limit - int (length stk))"] by force
  have pos: "int (length stk) < limit" using lim by simp
  have elems: "\<forall>kv \<in> set d. length (fst kv) < 2 ^ 31 \<and> wf_entry (snd kv) \<and>
      value_reaches buf limit (snd kv) \<and> int (length stk + 1 + nesting (snd kv)) \<le> limit"
    using assms nest by blast
  have buf1: "buf = (pre @ ''d'') @ concat (map encoding_pair d) @ CHR ''e'' # post"
    using buf by (simp add: encoding_Dict)
  have st1: "bd_start ?s1 = int (length (pre @ ''d''))" "bd_done ?s1 = None" "bd_stack ?s1 = p # stk"
    "bd_ret ?s1 = update_at p (\<lambda>_. Lazy_entry Dict_t None [] [] (int (length ([] :: (int \<times> lazy_entry) list))) 0
      (Some (int (length pre))) None) (bd_ret s)"
    by (simp_all add: s1 st run stack)
  from lazy_dict_loop [OF elems pos at buf1 st1] obtain les cap' where
    les: "list_all2 (represents_pair buf) d les"
    and inner: "\<forall>nl \<in> set les. within (int (length (pre @ ''d''))) (int (length ((pre @ ''d'') @ concat (map encoding_pair d)))) nl"
    and loop: "reaches (lazy_running buf) (lazy_step buf limit) ?s1
      (?s1\<lparr>bd_ret := update_at p (\<lambda>_. Lazy_entry Dict_t None ([] @ les) [] (int (length ([] @ les))) cap'
             (Some (int (length pre)))
             (Some (int (length ((pre @ ''d'') @ concat (map encoding_pair d))) + 1))) (bd_ret s),
         bd_stack := stk, bd_start := int (length ((pre @ ''d'') @ concat (map encoding_pair d))) + 1\<rparr>)"
    by (elim exE conjE)
  let ?le = "Lazy_entry Dict_t None les [] (int (length les)) cap' (Some (int (length pre)))
      (Some (int (length ((pre @ ''d'') @ concat (map encoding_pair d))) + 1))"
  have "\<forall>nl \<in> set les. within (the (m_begin ?le)) (the (m_end ?le)) nl"
    using inner by (auto simp: within_def)
  then have "represents buf (Dict d) ?le"
    using les by (auto simp: encoding_Dict represents_pair_def [abs_def] dest: list_all2_lengthD
        intro!: spansI [OF buf])
  with loop show "\<exists>le. represents buf (Dict d) le \<and> m_begin le = Some (int (length pre)) \<and>
      reaches (lazy_running buf) (lazy_step buf limit) (switch_byte buf (hd (encoding (Dict d))) s)
        (s\<lparr>bd_ret := update_at p (\<lambda>_. le) (bd_ret s), bd_stack := stk,
           bd_start := int (length pre + length (encoding (Dict d)))\<rparr>)"
    by (intro exI [of _ ?le]) (simp add: encoding_Dict s1 add_ac del: represents.simps)
qed

lemma value_reaches: "wf_entry e \<Longrightarrow> value_reaches buf limit e"
proof (induction e)
  case (List es)
  then show ?case by (intro value_reaches_List) auto
next
  case (Dict d)
  then show ?case by (intro value_reaches_Dict) (fastforce simp: prod_set_simps)
qed (auto intro!: value_reaches_Integer value_reaches_String simp del: wf_entry.simps(2,3))

text \<open>Decoding an encoding, with whatever follows it in the buffer, returns 0 and its tree.\<close>

lemma lazy_bdecode_represents:
  assumes "wf_entry e" and "int (nesting e) \<le> limit"
  obtains le where "lazy_bdecode (encoding e @ rest) limit = Some (Inr 0, le)"
    and "represents (encoding e @ rest) e le" and "m_begin le = Some 0"
proof -
  let ?buf = "encoding e @ rest"
  obtain c cs where enc: "encoding e = c # cs" "cs \<noteq> []" "c \<noteq> CHR ''e''"
    using encoding_start [OF assms(1)] by metis
  let ?s1 = "lazy_init\<lparr>bd_start := 1\<rparr>"
  have pos: "1 \<le> nesting e" by (cases e) auto
  have step: "lazy_running ?buf lazy_init" "lazy_step ?buf limit lazy_init = switch_byte ?buf c ?s1"
    using enc pos assms(2)
    by (auto simp: lazy_running_def lazy_init_def lazy_step_def switch_top_def new_entry_def read_at_def neq_Nil_conv)
  have "\<exists>le. represents ?buf e le \<and> m_begin le = Some (int (length ([] :: string))) \<and>
      reaches (lazy_running ?buf) (lazy_step ?buf limit) (switch_byte ?buf (hd (encoding e)) ?s1)
        (?s1\<lparr>bd_ret := update_at [] (\<lambda>_. le) (bd_ret ?s1), bd_stack := [],
           bd_start := int (length ([] :: string) + length (encoding e))\<rparr>)"
    using assms(2) by (intro value_reaches [OF assms(1), unfolded value_reaches_def, rule_format])
      (simp_all add: lazy_init_def)
  then obtain le where le: "represents ?buf e le" "m_begin le = Some 0"
    and run: "reaches (lazy_running ?buf) (lazy_step ?buf limit) (switch_byte ?buf c ?s1)
        (?s1\<lparr>bd_ret := le, bd_stack := [], bd_start := int (length (encoding e))\<rparr>)" (is "reaches _ _ _ ?s2")
    using enc by auto
  have "while_option (lazy_running ?buf) (lazy_step ?buf limit) lazy_init =
      while_option (lazy_running ?buf) (lazy_step ?buf limit) ?s2"
    using step run by (metis reaches_step reaches_while_option)
  also have "\<dots> = Some ?s2" by (simp add: while_option_unfold lazy_running_def)
  finally have "lazy_bdecode ?buf limit = Some (Inr 0, le)"
    by (simp add: lazy_bdecode_def lazy_init_def)
  with le that show thesis by blast
qed


subsection \<open>What the accessors return\<close>

lemma spansE:
  assumes "spans buf e le"
  obtains pre post where "buf = pre @ encoding e @ post" "m_begin le = Some (int (length pre))"
    "m_end le = Some (int (length pre + length (encoding e)))"
  using assms by (auto simp: spans_def)

lemma parse_int_decimal:
  assumes "n < 2 ^ 63" and "rest = [] \<or> hd rest = CHR ''e''"
  shows "parse_int (decimal n @ rest) (CHR ''e'') 0 = (Some (length (decimal n)), int n)"
proof -
  have "parse_int (decimal n @ rest) (CHR ''e'') 0 =
      (Some (length (decimal n)), digits_value 0 (decimal n))"
    by (rule parse_int_digits [OF _ _ _ _ assms(2)]) (use decimal_digits assms(1) in auto)
  then show ?thesis by simp
qed

lemma int_value_represents:
  assumes "represents buf (Integer v) le" and "wf_entry (Integer v)"
  shows "int_value buf le = Inr v"
proof -
  from assms(1) obtain pre post where
    "buf = pre @ encoding (Integer v) @ post" and le: "m_begin le = Some (int (length pre))"
    by (auto elim: spansE)
  then have buf: "buf = pre @ CHR ''i'' # int_string v @ CHR ''e'' # post"
    using assms(2) by (simp add: encoding_Integer)
  have p: "m_start le = Some (int (length pre) + 1)" "m_size le = int (length (int_string v))"
    using assms(1) le by auto
  obtain d ds where dec: "decimal (nat \<bar>v\<bar>) = d # ds" by (cases "decimal (nat \<bar>v\<bar>)") auto
  then have d: "is_digit d" by (rule decimal_eq_Cons_digit)
  have small: "nat \<bar>v\<bar> < 2 ^ 63" using assms(2) by auto
  have sub: "subbytes buf (int (length pre') ) (int (length x)) = x"
    if "buf = pre' @ x @ post'" for pre' x post' using that by simp
  have pv: "snd (parse_int (d # ds) (CHR ''e'') 0) = \<bar>v\<bar>"
    using parse_int_decimal [OF small, of "[]"] unfolding dec by (simp del: parse_int.simps)
  show ?thesis
  proof (cases "v < 0")
    case True
    then have s: "int_string v = CHR ''-'' # d # ds" using dec by (simp add: int_string_def)
    have "read_at buf (int (length pre) + 1) = Inr (CHR ''-'')"
      using read_at_append [of "pre @ ''i''" "CHR ''-''"] by (simp add: buf s add_ac)
    moreover have "subbytes buf (2 + int (length pre)) (1 + int (length ds)) = d # ds"
      using sub [of "pre @ ''i-''" "d # ds" "CHR ''e'' # post"] by (simp add: buf s add_ac)
    moreover have "int64 (- int (nat \<bar>v\<bar>)) = v" using True small assms(2) by (simp add: int64_id)
    ultimately show ?thesis
      using True by (simp add: int_value_def p s Let_def pv del: parse_int.simps) (simp add: buf s)
  next
    case False
    then have s: "int_string v = d # ds" using dec by (simp add: int_string_def)
    have "d \<noteq> CHR ''-''" using d by auto
    moreover have "read_at buf (int (length pre) + 1) = Inr d"
      using read_at_append [of "pre @ ''i''" d] by (simp add: buf s add_ac)
    moreover have "subbytes buf (int (length pre) + 1) (1 + int (length ds)) = d # ds"
      using sub [of "pre @ ''i''" "d # ds" "CHR ''e'' # post"] by (simp add: buf s add_ac)
    ultimately show ?thesis
      using False by (simp add: int_value_def p s Let_def pv del: parse_int.simps) (simp add: buf s)
  qed
qed

lemma string_value_represents:
  assumes "represents buf (String x) le" and "wf_entry (String x)"
  shows "string_value buf le = Inr x"
proof -
  from assms(1) obtain pre post where
    "buf = pre @ encoding (String x) @ post"
    and le: "m_end le = Some (int (length pre + length (encoding (String x))))"
    by (auto elim: spansE)
  then have buf: "buf = pre @ decimal (length x) @ CHR '':'' # x @ post"
    and p: "m_start le = Some (int (length pre + length (decimal (length x)) + 1))"
    and n: "m_size le = int (length x)"
    using assms by (auto simp: encoding_String)
  have "subbytes buf (int (length pre + length (decimal (length x)) + 1)) (int (length x)) = x"
    using subbytes_append [of "pre @ decimal (length x) @ '':''" x post] by (simp add: buf add_ac)
  then show ?thesis by (simp add: string_value_def p n) (simp add: buf)
qed

lemma string_equal_bytes:
  "0 \<le> i \<Longrightarrow> subbytes buf i (int n) = k \<Longrightarrow> length k = n \<Longrightarrow> string_equal name buf i n = Inr (name = k)"
proof (induction n arbitrary: name i k)
  case (Suc n)
  then obtain c cs where k: "k = c # cs" by (cases k) auto
  have sub: "take (Suc n) (drop (nat i) buf) = c # cs" using Suc.prems(2) k by (simp only: subbytes_def nat_int)
  then obtain rest where drop: "drop (nat i) buf = c # rest" "take n rest = cs"
    by (cases "drop (nat i) buf") auto
  then have lt: "nat i < length buf" by (metis drop_all list.distinct(1) not_le)
  then have read: "read_at buf i = Inr c"
    using drop(1) Suc.prems(1) hd_drop_conv_nth [OF lt]
    by (simp add: read_at_def)
  have "drop (nat (i + 1)) buf = rest"
  proof -
    have "drop (nat (i + 1)) buf = drop 1 (drop (nat i) buf)"
      using Suc.prems(1) by (simp add: nat_add_distrib)
    then show ?thesis by (simp add: drop(1))
  qed
  then have "string_equal ds buf (i + 1) n = Inr (ds = cs)" for ds
    using Suc.prems drop(2) k by (intro Suc.IH) (auto simp: subbytes_def)
  then show ?case by (cases name) (auto simp: read k)
qed simp

lemma dict_find_represents:
  assumes "list_all2 (represents_pair buf) d les"
  shows "rel_option (represents buf) (map_of d name) (case dict_find_loop buf name les of Inr r \<Rightarrow> r | _ \<Rightarrow> None)
    \<and> (\<exists>r. dict_find_loop buf name les = Inr r)"
  using assms
proof (induction d les rule: list_all2_induct)
  case (Cons kv d nl les)
  obtain k v nm x where p: "kv = (k, v)" "nl = (nm, x)" by (cases kv, cases nl)
  from Cons(1) have r: "represents buf v x" "0 \<le> nm" "m_begin x = Some (nm + int (length k))"
    "subbytes buf nm (int (length k)) = k"
    by (simp_all add: represents_pair_def p)
  from string_equal_bytes [OF r(2,4)] have "string_equal name buf nm (length k) = Inr (name = k)"
    by simp
  with Cons r show ?case by (auto simp: p)
qed simp

lemma dict_find_lookup:
  assumes "represents buf (Dict d) le"
  obtains r where "dict_find buf name le = Inr r" "rel_option (represents buf) (map_of d name) r"
proof -
  have "list_all2 (represents_pair buf) d (m_dict le)" "m_type le = Dict_t"
    using assms by (simp_all add: represents_pair_def [abs_def])
  with dict_find_represents [OF this(1), of name] that show thesis by (auto simp: dict_find_def)
qed

text \<open>
  The value a decoded tree stands for, read with the accessors. \<open>data_section\<close> gives the
  bytes a node was decoded from.
\<close>

fun lazy_key :: "string \<Rightarrow> int \<Rightarrow> lazy_entry \<Rightarrow> string option" where
  "lazy_key buf nm x =
     (case dict_at buf 0 (Lazy_entry Dict_t None [(nm, x)] [] 1 1 None None) of
        Inr (k, _) \<Rightarrow> Some k | Inl _ \<Rightarrow> None)"

fun entry_of_lazy :: "string \<Rightarrow> lazy_entry \<Rightarrow> entry option" where
  "entry_of_lazy buf (Lazy_entry t st ds ls n c b en) =
     (case t of
        None_t \<Rightarrow> None
      | Int_t \<Rightarrow> (case int_value buf (Lazy_entry t st ds ls n c b en) of Inr v \<Rightarrow> Some (Integer v) | _ \<Rightarrow> None)
      | String_t \<Rightarrow> (case string_value buf (Lazy_entry t st ds ls n c b en) of Inr s \<Rightarrow> Some (String s) | _ \<Rightarrow> None)
      | List_t \<Rightarrow> map_option List (those (map (entry_of_lazy buf) ls))
      | Dict_t \<Rightarrow> map_option Dict (those (map (\<lambda>nx.
            case (lazy_key buf (fst nx) (snd nx), entry_of_lazy buf (snd nx)) of
              (Some k, Some v) \<Rightarrow> Some (k, v) | _ \<Rightarrow> None) ds)))"

lemma those_all2: "list_all2 (\<lambda>x y. f y = Some x) xs ys \<Longrightarrow> those (map f ys) = Some xs"
  by (induction rule: list_all2_induct) auto

lemma lazy_key_represents:
  assumes "represents_pair buf (k, v) (nm, x)"
  shows "lazy_key buf nm x = Some k"
proof -
  from assms have r: "spans buf v x" "0 \<le> nm" "m_begin x = Some (nm + int (length k))"
    "subbytes buf nm (int (length k)) = k"
    by (auto simp: represents_pair_def dest: represents_spans)
  then have "nm + int (length k) \<le> int (length buf)" by (auto elim!: spansE)
  with r show ?thesis by (simp add: dict_at_def read_at_def)
qed

lemma entry_of_lazy_represents:
  "represents buf e le \<Longrightarrow> wf_entry e \<Longrightarrow> entry_of_lazy buf le = Some e"
proof (induction e arbitrary: le)
  case (Integer v)
  then show ?case using int_value_represents [of buf v le] by (cases le) simp
next
  case (String x)
  then show ?case using string_value_represents [of buf x le] by (cases le) simp
next
  case (List es)
  then have "list_all2 (\<lambda>e l. entry_of_lazy buf l = Some e) es (m_list le)"
    by (auto simp: list_all2_conv_all_nth)
  then have "those (map (entry_of_lazy buf) (m_list le)) = Some es" by (rule those_all2)
  with List.prems show ?case by (cases le) simp
next
  case (Dict d)
  have IH: "entry_of_lazy buf x = Some v" if "(k, v) \<in> set d" "represents buf v x" for k v x
    using Dict.IH [of "(k, v)" v x] that Dict.prems(2) by (fastforce simp: prod_set_simps)
  let ?f = "\<lambda>nx. case (lazy_key buf (fst nx) (snd nx), entry_of_lazy buf (snd nx)) of
              (Some k, Some v) \<Rightarrow> Some (k, v) | _ \<Rightarrow> None"
  have pair: "?f nl = Some kv" if "kv \<in> set d" "represents_pair buf kv nl" for kv nl
    using that IH [of "fst kv" "snd kv" "snd nl"] lazy_key_represents [of buf "fst kv" "snd kv" "fst nl" "snd nl"]
    by (simp add: represents_pair_def del: lazy_key.simps)
  have "list_all2 (represents_pair buf) d (m_dict le)"
    using Dict.prems(1) by (simp add: represents_pair_def [abs_def])
  then have "list_all2 (\<lambda>kv nl. ?f nl = Some kv) d (m_dict le)"
    using pair by (auto simp: list_all2_conv_all_nth simp del: lazy_key.simps)
  then have "those (map ?f (m_dict le)) = Some d" by (rule those_all2)
  with Dict.prems show ?case by (cases le) (simp del: lazy_key.simps)
qed simp

text \<open>
  C2: The lazy decoder inverts the encoder: on the encoding of any well-formed value whose
  nesting is within the depth limit, followed by arbitrary bytes, the decoder terminates and
  returns 0, and the tree it builds, read with the accessors, is exactly that value.
\<close>

theorem lazy_bdecode_bencode:
  assumes "wf_entry e" and "int (nesting e) \<le> depth_limit"
  shows "\<exists>le. lazy_bdecode (snd (bencode e) @ rest) depth_limit = Some (Inr 0, le) \<and>
    entry_of_lazy (snd (bencode e) @ rest) le = Some e"
proof -
  obtain le where "lazy_bdecode (encoding e @ rest) depth_limit = Some (Inr 0, le)"
    "represents (encoding e @ rest) e le"
    using lazy_bdecode_represents [OF assms] .
  with assms(1) show ?thesis using entry_of_lazy_represents by (auto simp: bencode_def)
qed

theorem lazy_bdecode_bencode_witness:
  "\<exists>le. lazy_bdecode (snd (bencode sample_entry) @ ''xyz'') 1000 = Some (Inr 0, le) \<and>
    entry_of_lazy (snd (bencode sample_entry) @ ''xyz'') le = Some sample_entry"
  using sample_entry_wf by (intro lazy_bdecode_bencode) auto

text \<open>
  C22: Looking up a key of a decoded dictionary is a look-up in the dictionary that was
  encoded: the typed getters return the value under that key, and the empty string or the
  default where the key is missing or holds another type.
\<close>

theorem dict_find_bencode:
  assumes "wf_entry (Dict d)" and "int (nesting (Dict d)) \<le> depth_limit"
  shows "\<exists>le. lazy_bdecode (snd (bencode (Dict d)) @ rest) depth_limit = Some (Inr 0, le) \<and>
    dict_find_string_value (snd (bencode (Dict d)) @ rest) name le =
      Inr (case map_of d name of Some (String s) \<Rightarrow> s | _ \<Rightarrow> '''') \<and>
    dict_find_int_value (snd (bencode (Dict d)) @ rest) name dflt le =
      Inr (case map_of d name of Some (Integer v) \<Rightarrow> v | _ \<Rightarrow> dflt)"
proof -
  let ?buf = "encoding (Dict d) @ rest"
  obtain le where le: "lazy_bdecode ?buf depth_limit = Some (Inr 0, le)"
    "represents ?buf (Dict d) le"
    using lazy_bdecode_represents [OF assms] .
  from dict_find_lookup [OF this(2), of name] obtain r where
    r: "dict_find ?buf name le = Inr r" "rel_option (represents ?buf) (map_of d name) r" .
  have wf: "wf_entry v" if "map_of d name = Some v" for v
    using assms(1) map_of_SomeD [OF that] by auto
  have "dict_find_string_value ?buf name le = Inr (case map_of d name of Some (String s) \<Rightarrow> s | _ \<Rightarrow> '''')"
    using r wf string_value_represents
    by (auto simp: dict_find_string_value_def option_rel_Some1 split: option.split entry.split)
  moreover have "dict_find_int_value ?buf name dflt le =
      Inr (case map_of d name of Some (Integer v) \<Rightarrow> v | _ \<Rightarrow> dflt)"
    using r wf int_value_represents
    by (auto simp: dict_find_int_value_def option_rel_Some1 split: option.split entry.split)
  ultimately show ?thesis using le(1) by (auto simp: bencode_def)
qed

theorem dict_find_bencode_witness:
  "\<exists>le. lazy_bdecode (snd (bencode (Dict [(''a'', Integer 7)]))) 1000 = Some (Inr 0, le) \<and>
    dict_find_int_value (snd (bencode (Dict [(''a'', Integer 7)]))) ''a'' 0 le = Inr 7"
  using dict_find_bencode [of "[(''a'', Integer 7)]" 1000 "''''" "''a''" 0]
  by (auto simp: sorted_keys_def)

text \<open>
  C8: The bytes of the info dictionary. For a decoded dictionary, the section of the buffer
  that \<open>data_section\<close> reports for a sub-dictionary found by \<open>dict_find_dict\<close> is exactly the
  encoding of that sub-dictionary: the bytes that are hashed to the info-hash are the ones
  the encoder wrote.
\<close>

theorem info_section_exact:
  assumes "wf_entry (Dict d)" and "int (nesting (Dict d)) \<le> depth_limit"
    and "map_of d name = Some (Dict info)"
    and "length (snd (bencode (Dict d)) @ rest) < 2 ^ 31"
  shows "\<exists>le x b. lazy_bdecode (snd (bencode (Dict d)) @ rest) depth_limit = Some (Inr 0, le) \<and>
    dict_find_dict (snd (bencode (Dict d)) @ rest) name le = Inr (Some x) \<and>
    data_section x = Inr (b, int (length (snd (bencode (Dict info))))) \<and>
    subbytes (snd (bencode (Dict d)) @ rest) b (int (length (snd (bencode (Dict info)))))
      = snd (bencode (Dict info))"
proof -
  let ?buf = "encoding (Dict d) @ rest"
  obtain le where le: "lazy_bdecode ?buf depth_limit = Some (Inr 0, le)"
    "represents ?buf (Dict d) le"
    using lazy_bdecode_represents [OF assms(1,2)] .
  from dict_find_lookup [OF this(2), of name] assms(3) obtain x where
    x: "dict_find ?buf name le = Inr (Some x)" "represents ?buf (Dict info) x"
    by (auto simp: option_rel_Some1)
  from represents_spans [OF x(2)] obtain pre post where
    sp: "?buf = pre @ encoding (Dict info) @ post" "m_begin x = Some (int (length pre))"
    "m_end x = Some (int (length pre + length (encoding (Dict info))))"
    by (rule spansE)
  have "length ?buf = length pre + length (encoding (Dict info)) + length post"
    unfolding sp(1) by simp
  then have len: "length (encoding (Dict info)) < 2 ^ 31"
    using assms(4) by (simp add: bencode_def)
  have "dict_find_dict ?buf name le = Inr (Some x)" using x by (simp add: dict_find_dict_def)
  moreover have "data_section x = Inr (int (length pre), int (length (encoding (Dict info))))"
    using len by (simp add: data_section_def sp(2,3) int32_id)
  moreover have "subbytes ?buf (int (length pre)) (int (length (encoding (Dict info)))) = encoding (Dict info)"
    unfolding sp(1) by simp
  ultimately show ?thesis using le(1) by (auto simp: bencode_def)
qed

theorem info_section_exact_witness:
  "\<exists>le x b. lazy_bdecode (snd (bencode (Dict [(''info'', Dict [(''a'', Integer 7)])])) @ '''') 1000 = Some (Inr 0, le) \<and>
    dict_find_dict (snd (bencode (Dict [(''info'', Dict [(''a'', Integer 7)])])) @ '''') ''info'' le = Inr (Some x) \<and>
    data_section x = Inr (b, int (length (snd (bencode (Dict [(''a'', Integer 7)]))))) \<and>
    subbytes (snd (bencode (Dict [(''info'', Dict [(''a'', Integer 7)])])) @ '''') b
      (int (length (snd (bencode (Dict [(''a'', Integer 7)]))))) = snd (bencode (Dict [(''a'', Integer 7)]))"
proof -
  have "length (snd (bencode (Dict [(''info'', Dict [(''a'', Integer 7)])])) @ '''') < 2 ^ 31"
    by (simp add: bencode_def encoding_Dict encoding_pair_def encoding_String encoding_Integer
        int_string_def decimal.simps)
  then show ?thesis
    by (intro info_section_exact) (simp_all add: sorted_keys_def)
qed


subsection \<open>Arbitrary input\<close>

text \<open>
  What holds of the tree whatever the input: how deep it is, and that the arrays of its
  nodes hold \<open>m_size\<close> elements within their capacity (the assertions of \<open>dict_append\<close> and
  \<open>list_append\<close>).
\<close>

fun lazy_height :: "lazy_entry \<Rightarrow> nat" where
  "lazy_height (Lazy_entry t st ds ls n c b en) =
     (case t of
        Dict_t \<Rightarrow> Max (insert 0 ((\<lambda>nx. Suc (lazy_height (snd nx))) ` set ds))
      | List_t \<Rightarrow> Max (insert 0 ((\<lambda>x. Suc (lazy_height x)) ` set ls))
      | _ \<Rightarrow> 0)"

fun arrays_ok :: "lazy_entry \<Rightarrow> bool" where
  "arrays_ok (Lazy_entry t st ds ls n c b en) =
     (case t of
        Dict_t \<Rightarrow> n = int (length ds) \<and> n \<le> c \<and> (c = 0 \<or> 5 \<le> c) \<and> list_all (\<lambda>nx. arrays_ok (snd nx)) ds
      | List_t \<Rightarrow> n = int (length ls) \<and> n \<le> c \<and> (c = 0 \<or> 5 \<le> c) \<and> list_all arrays_ok ls
      | _ \<Rightarrow> True)"

lemma lazy_height_le:
  "lazy_height (Lazy_entry t st ds ls n c b en) \<le> h \<longleftrightarrow>
     (case t of
        Dict_t \<Rightarrow> (\<forall>nx \<in> set ds. Suc (lazy_height (snd nx)) \<le> h)
      | List_t \<Rightarrow> (\<forall>x \<in> set ls. Suc (lazy_height x) \<le> h)
      | _ \<Rightarrow> True)"
  by (cases t) auto

declare lazy_height.simps [simp del]

lemma lazy_height_update_at:
  assumes "entry_at p r = Some e" "lazy_height r \<le> h" "length p + lazy_height (f e) \<le> h"
  shows "lazy_height (update_at p f r) \<le> h"
  using assms
proof (induction p f r arbitrary: h rule: update_at.induct)
  case (2 i p f t st ds ls n c b en)
  obtain h' where h: "h = Suc h'" using "2.prems"(3) by (cases h) auto
  show ?case
  proof (cases t)
    case Dict_t
    then have i: "i < length ds" "entry_at p (snd (ds ! i)) = Some e"
      using "2.prems"(1) by (auto split: if_splits)
    have "snd (ds ! i) \<in> Basic_BNFs.snds (ds ! i)" by (cases "ds ! i") (simp add: prod_set_simps)
    then have "lazy_height (update_at p f (snd (ds ! i))) \<le> h'"
      using 2 Dict_t h i by (auto simp: lazy_height_le)
    with 2 Dict_t h i show ?thesis
      by (auto simp: lazy_height_le map_prod_def split: prod.splits
          dest!: set_update_subset_insert [THEN subsetD])
  next
    case List_t
    then have i: "i < length ls" "entry_at p (ls ! i) = Some e"
      using "2.prems"(1) by (auto split: if_splits)
    have "lazy_height (update_at p f (ls ! i)) \<le> h'"
      using 2 List_t h i by (auto simp: lazy_height_le)
    with 2 List_t h i show ?thesis
      by (auto simp: lazy_height_le dest!: set_update_subset_insert [THEN subsetD])
  qed (use 2 in auto)
qed simp

lemma arrays_ok_entry_at: "arrays_ok r \<Longrightarrow> entry_at p r = Some e \<Longrightarrow> arrays_ok e"
proof (induction p r rule: entry_at.induct)
  case (2 i p r)
  then show ?case by (cases r; cases "m_type r") (auto simp: list_all_length split: if_splits)
qed simp

lemma arrays_ok_update_at:
  "arrays_ok r \<Longrightarrow> entry_at p r = Some e \<Longrightarrow> arrays_ok (f e) \<Longrightarrow> arrays_ok (update_at p f r)"
proof (induction p f r rule: update_at.induct)
  case (2 i p f t st ds ls n c b en)
  then show ?case
    by (cases t) (auto simp: list_all_length nth_list_update map_prod_def split: if_splits prod.splits)
qed simp

lemma lazy_height_entry_at:
  "entry_at p r = Some e \<Longrightarrow> lazy_height r \<le> h \<Longrightarrow> length p + lazy_height e \<le> h"
proof (induction p r arbitrary: h rule: entry_at.induct)
  case (2 i p r)
  obtain t st ds ls n c b en where r: "r = Lazy_entry t st ds ls n c b en" by (cases r)
  show ?case
  proof (cases t)
    case Dict_t
    with 2 r have "i < length ds" "entry_at p (snd (ds ! i)) = Some e"
      "\<forall>nx \<in> set ds. Suc (lazy_height (snd nx)) \<le> h"
      by (auto simp: lazy_height_le split: if_splits)
    with 2(1) [of "h - 1"] Dict_t r show ?thesis by (fastforce dest: nth_mem)
  next
    case List_t
    with 2 r have "i < length ls" "entry_at p (ls ! i) = Some e" "\<forall>x \<in> set ls. Suc (lazy_height x) \<le> h"
      by (auto simp: lazy_height_le split: if_splits)
    with 2(2) [of "h - 1"] List_t r show ?thesis by (fastforce dest: nth_mem)
  qed (use 2 r in auto)
qed simp

text \<open>
  The stack holds the path to the current entry and to the entries above it. The current
  entry is one that has not been constructed yet, a dictionary or a list.
\<close>

fun stack_chain :: "nat list list \<Rightarrow> bool" where
  "stack_chain [] = True"
| "stack_chain [p] = (p = [])"
| "stack_chain (p # q # stk) = (p \<noteq> [] \<and> butlast p = q \<and> stack_chain (q # stk))"

lemma stack_chain_length: "stack_chain (p # stk) \<Longrightarrow> length p = length stk"
proof (induction stk arbitrary: p)
  case (Cons q stk)
  then have "length (butlast p) = length stk" "p \<noteq> []" by auto
  then show ?case by (cases p rule: rev_cases) auto
qed simp

definition open_entry :: "lazy_entry \<Rightarrow> bool" where
  "open_entry e \<longleftrightarrow> e = new_entry \<or> m_type e = Dict_t \<or> m_type e = List_t"

definition tree_ok :: "int \<Rightarrow> lazy_entry \<Rightarrow> bool" where
  "tree_ok limit r \<longleftrightarrow> lazy_height r \<le> nat limit \<and> arrays_ok r"

definition stack_ok :: "nat list list \<Rightarrow> lazy_entry \<Rightarrow> bool" where
  "stack_ok stk r \<longleftrightarrow> stack_chain stk \<and>
     (stk \<noteq> [] \<longrightarrow> (\<exists>e. entry_at (hd stk) r = Some e \<and> open_entry e))"

definition lazy_inv :: "int \<Rightarrow> bdecode_state \<Rightarrow> bool" where
  "lazy_inv limit s \<longleftrightarrow> tree_ok limit (bd_ret s) \<and>
     (bd_done s = None \<longrightarrow> stack_ok (bd_stack s) (bd_ret s)) \<and>
     (\<forall>v. bd_done s = Some (Inr v) \<longrightarrow> v = - 1 \<and> bd_ret s = new_entry)"

lemma tree_ok_new_entry: "tree_ok limit new_entry"
  by (simp add: tree_ok_def new_entry_def lazy_height_le)

lemma tree_ok_update_at:
  assumes "tree_ok limit r" "entry_at p r = Some e" "length p + lazy_height (f e) \<le> nat limit" "arrays_ok (f e)"
  shows "tree_ok limit (update_at p f r)"
  using assms lazy_height_update_at [of p r e "nat limit" f] arrays_ok_update_at [of r p e f]
  by (simp add: tree_ok_def)

lemma lazy_inv_fail [simp]: "lazy_inv limit (fail_bdecode s)"
  by (simp add: lazy_inv_def fail_bdecode_def tree_ok_new_entry)

lemma lazy_inv_fault: "tree_ok limit (bd_ret s) \<Longrightarrow> lazy_inv limit (raise_fault f s)"
  by (simp add: lazy_inv_def raise_fault_def)

lemma stack_ok_pop:
  assumes "stack_ok (p # stk) r"
  shows "stack_ok stk (update_at p f r)"
proof (cases stk)
  case (Cons q stk')
  with assms have p: "p = q @ [last p]" "stack_chain stk"
    by (auto simp: stack_ok_def intro: append_butlast_last_id [symmetric])
  from assms obtain e where "entry_at p r = Some e" by (auto simp: stack_ok_def)
  then have "entry_at (q @ [last p]) (update_at p f r) = Some (f e)" using p(1) by auto
  then obtain x where "entry_at q (update_at p f r) = Some x" "entry_at [last p] x = Some (f e)"
    by (auto simp: entry_at_append bind_eq_Some_conv)
  moreover from this have "m_type x = Dict_t \<or> m_type x = List_t"
    by (auto split: entry_type_t.splits)
  ultimately show ?thesis using p Cons by (auto simp: stack_ok_def open_entry_def)
qed (simp add: stack_ok_def)

lemma lazy_inv_pop:
  assumes "tree_ok limit (bd_ret s)" "stack_ok (bd_stack s) (bd_ret s)" "bd_stack s \<noteq> []" "bd_done s = None"
    and "entry_at (hd (bd_stack s)) (bd_ret s) = Some e"
    and "lazy_height (f e) \<le> lazy_height e" "arrays_ok e \<Longrightarrow> arrays_ok (f e)"
  shows "lazy_inv limit (pop_with f s)"
proof -
  obtain p stk where st: "bd_stack s = p # stk" using assms(3) by (cases "bd_stack s") auto
  have "length p + lazy_height e \<le> nat limit"
    using lazy_height_entry_at assms(1,5) st by (auto simp: tree_ok_def)
  then show ?thesis
    using assms st stack_ok_pop [of p stk] arrays_ok_entry_at [of "bd_ret s" p e]
      tree_ok_update_at [of limit "bd_ret s" p e f]
    by (auto simp: lazy_inv_def pop_with_def change_top_def tree_ok_def)
qed

lemma lazy_height_leaf [simp]:
  "lazy_height new_entry = 0" "lazy_height (construct_int a b e) = 0"
  "lazy_height (construct_string a b e) = 0" "lazy_height (construct_dict a e) = 0"
  "lazy_height (construct_list a e) = 0"
  by (simp_all add: new_entry_def construct_int_def construct_string_def construct_dict_def
      construct_list_def lazy_height.simps)

lemma arrays_ok_leaf [simp]:
  "arrays_ok new_entry" "arrays_ok (construct_int a b e)" "arrays_ok (construct_string a b e)"
  "arrays_ok (construct_dict a e)" "arrays_ok (construct_list a e)"
  by (simp_all add: new_entry_def construct_int_def construct_string_def construct_dict_def
      construct_list_def)

lemma set_end_keeps [simp]: "lazy_height (set_end f e) = lazy_height e" "arrays_ok (set_end f e) = arrays_ok e"
  by (cases e; simp add: set_end_def lazy_height.simps)+

lemma grown_capacity_bound:
  "0 \<le> n \<Longrightarrow> n \<le> c \<Longrightarrow> c = 0 \<or> 5 \<le> c \<Longrightarrow> n < grown_capacity c n \<and> 5 \<le> grown_capacity c n"
  by (auto simp: grown_capacity_def)

lemma append_arrays_ok:
  "arrays_ok e \<Longrightarrow> m_type e = Dict_t \<Longrightarrow> arrays_ok (fst (dict_append a e))"
  "arrays_ok e \<Longrightarrow> m_type e = List_t \<Longrightarrow> arrays_ok (fst (list_append e))"
  using grown_capacity_bound [of "m_size e" "m_capacity e"]
  by (cases e; simp add: dict_append_def list_append_def new_entry_def)+

lemma append_height:
  "m_type e = Dict_t \<Longrightarrow> lazy_height (fst (dict_append a e)) \<le> max (lazy_height e) 1"
  "m_type e = List_t \<Longrightarrow> lazy_height (fst (list_append e)) \<le> max (lazy_height e) 1"
proof -
  have dict: "lazy_height (fst (dict_append a e)) \<le> h" if "m_type e = Dict_t" "lazy_height e \<le> h" "1 \<le> h" for h
    using that by (cases e) (auto simp: dict_append_def lazy_height_le)
  have list: "lazy_height (fst (list_append e)) \<le> h" if "m_type e = List_t" "lazy_height e \<le> h" "1 \<le> h" for h
    using that by (cases e) (auto simp: list_append_def lazy_height_le)
  show "m_type e = Dict_t \<Longrightarrow> lazy_height (fst (dict_append a e)) \<le> max (lazy_height e) 1"
    by (rule dict) simp_all
  show "m_type e = List_t \<Longrightarrow> lazy_height (fst (list_append e)) \<le> max (lazy_height e) 1"
    by (rule list) simp_all
qed

lemma append_child:
  "arrays_ok e \<Longrightarrow> m_type e = Dict_t \<Longrightarrow> entry_at [snd (dict_append a e)] (fst (dict_append a e)) = Some new_entry"
  "arrays_ok e \<Longrightarrow> m_type e = List_t \<Longrightarrow> entry_at [snd (list_append e)] (fst (list_append e)) = Some new_entry"
  by (cases e; simp add: dict_append_def list_append_def)+

text \<open>
  The second \<open>switch\<close> always starts from an entry that has not been constructed: the
  assertion \<open>m_type == none_t\<close> of the \<open>construct\<close> functions.
\<close>

definition push_ok :: "int \<Rightarrow> bdecode_state \<Rightarrow> bool" where
  "push_ok limit s \<longleftrightarrow> tree_ok limit (bd_ret s) \<and> stack_chain (bd_stack s) \<and> bd_stack s \<noteq> [] \<and>
     entry_at (hd (bd_stack s)) (bd_ret s) = Some new_entry \<and> bd_done s = None"

lemma push_ok_append:
  assumes "tree_ok limit (bd_ret s)" "stack_chain (bd_stack s)" "bd_stack s \<noteq> []" "bd_done s = None"
    and "int (length (bd_stack s)) \<le> limit"
    and at: "entry_at (hd (bd_stack s)) (bd_ret s) = Some cur" and "arrays_ok cur'"
    and "lazy_height cur' \<le> max (lazy_height cur) 1" "entry_at [i] cur' = Some new_entry"
  shows "push_ok limit ((change_top (\<lambda>_. cur') s)\<lparr>bd_stack := (hd (bd_stack s) @ [i]) # bd_stack s\<rparr>)"
proof -
  obtain p stk where st: "bd_stack s = p # stk" using assms(3) by (cases "bd_stack s") auto
  have "length p + lazy_height cur \<le> nat limit"
    using lazy_height_entry_at [OF at] assms(1) by (simp add: tree_ok_def st)
  moreover have "length p + 1 \<le> nat limit"
    using stack_chain_length [of p stk] assms(2,5) st by simp
  ultimately have "length p + lazy_height cur' \<le> nat limit" using assms(8) by linarith
  then have "tree_ok limit (update_at p (\<lambda>_. cur') (bd_ret s))"
    using assms(1,7) at st by (auto intro: tree_ok_update_at)
  then show ?thesis
    using assms(2,4,9) at st by (auto simp: push_ok_def change_top_def entry_at_append)
qed

lemma dict_key_inv:
  assumes "lazy_inv limit s" "bd_done s = None" "bd_stack s \<noteq> []" "int (length (bd_stack s)) \<le> limit"
    and "entry_at (hd (bd_stack s)) (bd_ret s) = Some cur" "m_type cur = Dict_t"
  shows "case dict_key buf t cur s of Inl s' \<Rightarrow> lazy_inv limit s' | Inr (s', t') \<Rightarrow> push_ok limit s'"
proof -
  have tree: "tree_ok limit (bd_ret s)" and chain: "stack_chain (bd_stack s)"
    using assms(1,2) by (auto simp: lazy_inv_def stack_ok_def)
  then have cur: "arrays_ok cur" using arrays_ok_entry_at assms(5) by (auto simp: tree_ok_def)
  have "push_ok limit (x\<lparr>bd_start := v\<rparr>) = push_ok limit x" for x v by (simp add: push_ok_def)
  moreover have "push_ok limit ((change_top (\<lambda>_. fst (dict_append a cur)) s)
      \<lparr>bd_stack := (hd (bd_stack s) @ [snd (dict_append a cur)]) # bd_stack s\<rparr>)" for a
    using push_ok_append [OF tree chain assms(3,2,4,5)] append_arrays_ok(1) [OF cur assms(6)]
      append_height(1) [OF assms(6)] append_child(1) [OF cur assms(6)] by blast
  ultimately show ?thesis
    using tree by (auto simp: dict_key_def Let_def case_prod_beta lazy_inv_fault split: option.splits sum.splits prod.splits)
qed

lemma switch_top_inv:
  assumes "lazy_inv limit s" "bd_done s = None" "bd_stack s \<noteq> []" "int (length (bd_stack s)) \<le> limit"
  shows "case switch_top buf t s of Inl s' \<Rightarrow> lazy_inv limit s' | Inr (s', t') \<Rightarrow> push_ok limit s'"
proof -
  have tree: "tree_ok limit (bd_ret s)" and chain: "stack_chain (bd_stack s)"
    and st: "stack_ok (bd_stack s) (bd_ret s)"
    using assms(1,2) by (auto simp: lazy_inv_def stack_ok_def)
  obtain cur where at: "entry_at (hd (bd_stack s)) (bd_ret s) = Some cur" and op: "open_entry cur"
    using st assms(3) by (auto simp: stack_ok_def)
  then have cur: "arrays_ok cur" using arrays_ok_entry_at tree by (auto simp: tree_ok_def)
  have pop: "lazy_inv limit (pop_with (set_end f) s)" for f
    using lazy_inv_pop [OF tree st assms(3,2) at] by simp
  show ?thesis
  proof (cases "m_type cur")
    case Dict_t
    with dict_key_inv [OF assms at Dict_t, of buf t] pop show ?thesis by (auto simp: switch_top_def at)
  next
    case List_t
    have "push_ok limit ((change_top (\<lambda>_. fst (list_append cur)) s)
        \<lparr>bd_stack := (hd (bd_stack s) @ [snd (list_append cur)]) # bd_stack s\<rparr>)"
      using push_ok_append [OF tree chain assms(3,2,4) at] append_arrays_ok(2) [OF cur List_t]
        append_height(2) [OF List_t] append_child(2) [OF cur List_t] by blast
    with List_t pop show ?thesis by (simp add: switch_top_def at case_prod_beta)
  qed (use op tree chain at assms in \<open>auto simp: switch_top_def open_entry_def push_ok_def new_entry_def\<close>)
qed

lemma push_ok_change:
  assumes "push_ok limit s" "open_entry (f new_entry)" "lazy_height (f new_entry) = 0" "arrays_ok (f new_entry)"
  shows "lazy_inv limit (change_top f s)"
proof -
  have at: "entry_at (hd (bd_stack s)) (bd_ret s) = Some new_entry" using assms by (simp add: push_ok_def)
  have "length (hd (bd_stack s)) \<le> nat limit"
    using lazy_height_entry_at [OF at] assms(1) by (simp add: push_ok_def tree_ok_def)
  then show ?thesis
    using assms at tree_ok_update_at [of limit "bd_ret s" "hd (bd_stack s)" new_entry f]
    by (auto simp: lazy_inv_def push_ok_def change_top_def stack_ok_def)
qed

lemma push_ok_pop:
  assumes "push_ok limit s" "lazy_height (f new_entry) = 0" "arrays_ok (f new_entry)"
  shows "lazy_inv limit ((pop_with f s)\<lparr>bd_start := v\<rparr>)"
proof -
  have "lazy_inv limit (pop_with f s)"
    using assms by (intro lazy_inv_pop) (auto simp: push_ok_def stack_ok_def open_entry_def)
  then show ?thesis by (simp add: lazy_inv_def)
qed

lemma switch_byte_inv:
  assumes "push_ok limit s"
  shows "lazy_inv limit (switch_byte buf t s)"
proof -
  have "lazy_inv limit (change_top (construct_dict a) s)" "lazy_inv limit (change_top (construct_list a) s)" for a
    by (rule push_ok_change [OF assms]; simp add: open_entry_def construct_dict_def construct_list_def lazy_height.simps)+
  moreover have "lazy_inv limit ((pop_with (construct_int a b) s)\<lparr>bd_start := v\<rparr>)"
    "lazy_inv limit ((pop_with (construct_string a b) s)\<lparr>bd_start := v\<rparr>)" for a b v
    by (rule push_ok_pop [OF assms]; simp)+
  moreover have "lazy_inv limit (raise_fault f s)" for f
    using assms by (simp add: push_ok_def lazy_inv_fault)
  ultimately show ?thesis
    by (simp add: switch_byte_def Let_def split: prod.split option.split sum.split)
qed

lemma lazy_step_inv:
  assumes "lazy_inv limit s" "lazy_running buf s"
  shows "lazy_inv limit (lazy_step buf limit s)"
proof (cases "int (length (bd_stack s)) > limit")
  case False
  let ?s = "s\<lparr>bd_start := bd_start s + 1\<rparr>"
  have "case switch_top buf t ?s of Inl s' \<Rightarrow> lazy_inv limit s' | Inr (s', t') \<Rightarrow> push_ok limit s'" for t
    using assms False by (intro switch_top_inv) (auto simp: lazy_inv_def lazy_running_def)
  moreover have "tree_ok limit (bd_ret s)" using assms by (simp add: lazy_inv_def)
  ultimately show ?thesis
  proof (cases "read_at buf (bd_start s)")
    case (Inr t)
    note top = \<open>case switch_top buf t ?s of Inl s' \<Rightarrow> lazy_inv limit s' | Inr (s', t') \<Rightarrow> push_ok limit s'\<close>
    show ?thesis
    proof (cases "switch_top buf t ?s")
      case (Inr st)
      with top have "lazy_inv limit (switch_byte buf (snd st) (fst st))"
        by (cases st) (simp add: switch_byte_inv)
      with False \<open>read_at buf (bd_start s) = Inr t\<close> Inr show ?thesis
        by (simp add: lazy_step_def Let_def case_prod_beta)
    qed (use False Inr top in \<open>simp add: lazy_step_def Let_def\<close>)
  qed (use False in \<open>simp add: lazy_step_def lazy_inv_fault\<close>)
qed (simp add: lazy_step_def)

lemma lazy_inv_init: "lazy_inv limit lazy_init"
  by (simp add: lazy_inv_def lazy_init_def tree_ok_new_entry stack_ok_def open_entry_def)




subsection \<open>Input on which the decoder misbehaves\<close>


text \<open>
  Four inputs the decoder does not reject although they are not bencoded values. A key
  that starts with a byte below the digits makes it read in front of the buffer. A dictionary
  cut off after a value is accepted, and its end pointer stays null. A string length beyond
  \<open>2 ^ 63\<close> wraps around and is accepted, and the entry points past the end of the buffer. A
  string length with a leading zero is accepted, and the key in front of it is seen with the
  zero appended, so that it is no longer found.
\<close>

theorem lazy_bdecode_accepts_malformed:
  "map_option fst (lazy_bdecode ''d*:x'' 1000) = Some (Inl Out_of_bounds) \<and>
   map_option (\<lambda>(r, le). (r, m_size le, m_end le)) (lazy_bdecode ''d1:ai1e'' 1000) = Some (Inr 0, 1, None) \<and>
   map_option (\<lambda>(r, le). (r, m_start le, m_size le)) (lazy_bdecode ''9223372036854775908:'' 1000)
     = Some (Inr 0, Some 20, 100) \<and>
   map_option (\<lambda>(r, le). (r, dict_find ''d1:a01:xe'' ''a'' le, list_all (\<lambda>x. lazy_key ''d1:a01:xe'' (fst x) (snd x) = Some ''a0'') (m_dict le)))
     (lazy_bdecode ''d1:a01:xe'' 1000) = Some (Inr 0, Inr None, True)"
  by (intro conjI; code_simp)

end
