(* ===== verification/EntryView.thy ===== *)
theory EntryView
  imports LazyBdecode
begin

section \<open>Reading a decoded tree as a value\<close>

text \<open>
  The interface between the decoder and its clients. A client holds a node that represents a
  bencoded value, asks for its type, looks up keys and indices, and reads integers and
  strings. The laws say what each accessor returns in terms of the value. The typed getters,
  which clients call, follow from them. \<open>lazy_entry\<close> provides the interface for every buffer.
\<close>

fun type_of :: "entry \<Rightarrow> entry_type_t" where
  "type_of Undefined = None_t"
| "type_of (Integer v) = Int_t"
| "type_of (String s) = String_t"
| "type_of (List es) = List_t"
| "type_of (Dict d) = Dict_t"

lemma wf_lookup: "wf_entry (Dict d) \<Longrightarrow> map_of d k = Some e \<Longrightarrow> wf_entry e"
  by (force dest: map_of_SomeD)

text \<open>A loop over the indices of a list.\<close>

lemma fold_indices:
  assumes "\<And>i s. i < length xs \<Longrightarrow> f (int i) s = Inr (g (xs ! i) s)"
  shows "fold_result f (map int [0..<length xs]) s = Inr (fold g xs s)"
proof -
  have "fold_result f (map int [0..<k]) s = Inr (fold g (take k xs) s)" if "k \<le> length xs" for k
    using that
  proof (induction k)
    case (Suc k)
    then show ?case using assms [of k] by (simp add: take_Suc_conv_app_nth)
  qed simp
  from this [of "length xs"] show ?thesis by simp
qed

locale entry_view =
  fixes rep :: "entry \<Rightarrow> 'n \<Rightarrow> bool"
    and kind :: "'n \<Rightarrow> entry_type_t"
    and find :: "string \<Rightarrow> 'n \<Rightarrow> 'n option result"
    and count :: "'n \<Rightarrow> int"
    and item :: "int \<Rightarrow> 'n \<Rightarrow> 'n result"
    and read_int :: "'n \<Rightarrow> int result"
    and read_string :: "'n \<Rightarrow> string result"
  assumes rep_kind: "rep e n \<Longrightarrow> kind n = type_of e"
    and rep_find: "rep (Dict d) n \<Longrightarrow> \<exists>r. find k n = Inr r \<and> rel_option rep (map_of d k) r"
    and rep_count: "rep (List es) n \<Longrightarrow> count n = int (length es)"
    and rep_item: "rep (List es) n \<Longrightarrow> i < length es \<Longrightarrow> \<exists>x. item (int i) n = Inr x \<and> rep (es ! i) x"
    and rep_int: "rep (Integer v) n \<Longrightarrow> wf_entry (Integer v) \<Longrightarrow> read_int n = Inr v"
    and rep_string: "rep (String s) n \<Longrightarrow> wf_entry (String s) \<Longrightarrow> read_string n = Inr s"
begin

lemma find_absent: "rep (Dict d) n \<Longrightarrow> map_of d k = None \<Longrightarrow> find k n = Inr None"
  using rep_find [of d n k] by auto

lemma find_present:
  assumes "rep (Dict d) n" and "map_of d k = Some e"
  obtains x where "find k n = Inr (Some x)" "rep e x"
  using rep_find [OF assms(1), of k] assms(2) by (auto simp: option_rel_Some1)

lemma find_int:
  assumes "rep (Dict d) n" and "wf_entry (Dict d)"
  shows "bind_result (find k n) (\<lambda>r. case r of None \<Rightarrow> Inr dflt
      | Some x \<Rightarrow> if kind x \<noteq> Int_t then Inr dflt else read_int x) =
    Inr (case map_of d k of Some (Integer v) \<Rightarrow> v | _ \<Rightarrow> dflt)"
proof (cases "map_of d k")
  case (Some e)
  obtain x where "find k n = Inr (Some x)" "rep e x" by (rule find_present [OF assms(1) Some])
  then show ?thesis
    using Some wf_lookup [OF assms(2) Some] by (cases e) (simp_all add: rep_kind rep_int del: wf_entry.simps)
qed (use find_absent [OF assms(1)] in simp)

lemma find_string:
  assumes "rep (Dict d) n" and "wf_entry (Dict d)"
  shows "bind_result (find k n) (\<lambda>r. case r of None \<Rightarrow> Inr dflt
      | Some x \<Rightarrow> if kind x \<noteq> String_t then Inr dflt else read_string x) =
    Inr (case map_of d k of Some (String s) \<Rightarrow> s | _ \<Rightarrow> dflt)"
proof (cases "map_of d k")
  case (Some e)
  obtain x where "find k n = Inr (Some x)" "rep e x" by (rule find_present [OF assms(1) Some])
  then show ?thesis
    using Some wf_lookup [OF assms(2) Some] by (cases e) (simp_all add: rep_kind rep_string del: wf_entry.simps)
qed (use find_absent [OF assms(1)] in simp)

text \<open>A node of a given type under a key, or none.\<close>

lemma find_node:
  assumes "rep (Dict d) n"
  shows "\<exists>r. bind_result (find k n) (\<lambda>r. case r of None \<Rightarrow> Inr None
      | Some x \<Rightarrow> if kind x \<noteq> t then Inr None else Inr (Some x)) = Inr r \<and>
    rel_option rep (case map_of d k of Some e \<Rightarrow> if type_of e = t then Some e else None | None \<Rightarrow> None) r"
proof (cases "map_of d k")
  case (Some e)
  obtain x where "find k n = Inr (Some x)" "rep e x" by (rule find_present [OF assms Some])
  then show ?thesis using Some by (auto simp: rep_kind)
qed (use find_absent [OF assms] in simp)

lemma items_fold:
  assumes "rep (List es) n"
    and "\<And>i x s. i < length es \<Longrightarrow> item (int i) n = Inr x \<Longrightarrow> rep (es ! i) x \<Longrightarrow> f (int i) s = Inr (g (es ! i) s)"
  shows "fold_result f (map int [0..<nat (count n)]) s = Inr (fold g es s)"
proof -
  have "f (int i) t = Inr (g (es ! i) t)" if "i < length es" for i t
    using rep_item [OF assms(1) that] assms(2) that by blast
  then show ?thesis using fold_indices [of es f g s] by (simp add: rep_count [OF assms(1)])
qed

end

lemma represents_type: "represents buf e le \<Longrightarrow> m_type le = type_of e"
  by (cases e) auto

lemma represents_item:
  assumes "represents buf (List es) le" and "i < length es"
  shows "\<exists>x. list_at (int i) le = Inr x \<and> represents buf (es ! i) x"
proof -
  have l: "list_all2 (represents buf) es (m_list le)" "m_type le = List_t" using assms(1) by simp_all
  then have "length (m_list le) = length es" by (simp add: list_all2_lengthD)
  then show ?thesis using assms(2) l list_all2_nthD [OF l(1), of i] by (simp add: list_at_def read_at_def)
qed

interpretation lazy: entry_view "represents buf" m_type "dict_find buf" list_size list_at "int_value buf" "string_value buf"
  for buf
proof unfold_locales
  show "\<exists>r. dict_find buf k n = Inr r \<and> rel_option (represents buf) (map_of d k) r"
    if "represents buf (Dict d) n" for d n k
    using dict_find_lookup [OF that, of k] by metis
qed (auto simp: represents_type list_size_def represents_item int_value_represents string_value_represents
      simp del: wf_entry.simps)

text \<open>The typed getters of \<open>lazy_entry\<close> on a decoded dictionary.\<close>

named_theorems view_simps \<open>what the accessors return on the decoding of a value\<close>

lemma view_int_value [view_simps]:
  assumes "represents buf (Dict d) n" and "wf_entry (Dict d)"
  shows "dict_find_int_value buf k dflt n = Inr (case map_of d k of Some (Integer v) \<Rightarrow> v | _ \<Rightarrow> dflt)"
  unfolding dict_find_int_value_def by (rule lazy.find_int [OF assms])

lemma view_string_value [view_simps]:
  assumes "represents buf (Dict d) n" and "wf_entry (Dict d)"
  shows "dict_find_string_value buf k n = Inr (case map_of d k of Some (String s) \<Rightarrow> s | _ \<Rightarrow> '''')"
  unfolding dict_find_string_value_def by (rule lazy.find_string [OF assms])

lemma view_node:
  assumes "represents buf (Dict d) n"
    and "map_of d k = Some e"
  obtains x where "dict_find buf k n = Inr (Some x)" "represents buf e x"
  using lazy.find_present [OF assms] .

lemma view_absent [view_simps]:
  assumes "represents buf (Dict d) n" and "map_of d k = None"
  shows "dict_find buf k n = Inr None" "dict_find_string buf k n = Inr None"
    "dict_find_list buf k n = Inr None" "dict_find_dict buf k n = Inr None"
  using lazy.find_absent [OF assms] by (simp_all add: dict_find_string_def dict_find_list_def dict_find_dict_def)

text \<open>The bytes a decoded value was read from.\<close>

lemma view_section:
  assumes "represents buf e n" and "length buf < 2 ^ 31"
  obtains b where "data_section n = Inr (int b, int (length (encoding e)))" "m_begin n = Some (int b)"
    "m_end n = Some (int (b + length (encoding e)))" "b + length (encoding e) \<le> length buf"
    "subbytes buf (int b) (int (length (encoding e))) = encoding e"
proof -
  obtain pre post where buf: "buf = pre @ encoding e @ post" and n: "m_begin n = Some (int (length pre))"
    "m_end n = Some (int (length pre + length (encoding e)))"
    using represents_spans [OF assms(1)] by (rule spansE)
  have "length (encoding e) < 2 ^ 31" using assms(2) by (simp add: buf)
  then have "data_section n = Inr (int (length pre), int (length (encoding e)))"
    by (simp add: data_section_def n int32_id)
  then show thesis using that [of "length pre"] n by (simp add: buf)
qed

text \<open>A string below a dictionary lies in the bytes of the dictionary.\<close>

lemma dict_find_loop_member: "dict_find_loop buf k l = Inr (Some x) \<Longrightarrow> x \<in> snd ` set l"
proof (induction l)
  case (Cons nl l)
  obtain first e where "nl = (first, e)" by (cases nl)
  with Cons show ?case by (cases "m_begin e") (auto elim!: bind_resultE split: if_splits)
qed simp

lemma view_string_within:
  assumes "represents buf (Dict d) n" and "map_of d k = Some (String s)" "length s < 2 ^ 31"
    and "m_begin n = Some (int b)" "m_end n = Some (int f)"
  obtains x p where "dict_find buf k n = Inr (Some x)" "represents buf (String s) x" "m_start x = Some (int p)"
    "b \<le> p" "p + length s \<le> f" "subbytes buf (int p) (int (length s)) = s"
proof -
  obtain x where x: "dict_find buf k n = Inr (Some x)" "represents buf (String s) x"
    by (rule view_node [OF assms(1,2)])
  obtain nm where nm: "(nm, x) \<in> set (m_dict n)"
    using x(1) assms(1) dict_find_loop_member [of buf k "m_dict n" x] by (force simp: dict_find_def)
  have pairs: "list_all2 (represents_pair buf) d (m_dict n)" and in_d: "within (int b) (int f) (nm, x)"
    using assms(1,4,5) nm by (auto simp: represents_pair_def [abs_def])
  obtain kv where "represents_pair buf kv (nm, x)"
    using pairs nm by (metis (no_types, lifting) in_set_conv_nth list_all2_conv_all_nth)
  then have start: "\<exists>l. m_begin x = Some (nm + int l)" by (auto simp: represents_pair_def)
  obtain pre post where buf: "buf = pre @ encoding (String s) @ post" and e: "m_begin x = Some (int (length pre))"
    "m_end x = Some (int (length pre + length (encoding (String s))))"
    using represents_spans [OF x(2)] by (rule spansE)
  let ?p = "length pre + length (decimal (length s)) + 1"
  have enc: "encoding (String s) = decimal (length s) @ CHR '':'' # s"
    using assms(3) by (simp add: encoding_String)
  have "m_start x = Some (int ?p)" using x(2) e(2) by (simp add: enc)
  moreover have "b \<le> ?p" using start in_d e(1) by (auto simp: within_def)
  moreover have "?p + length s \<le> f" using in_d e(2) by (simp add: within_def enc)
  moreover have "subbytes buf (int ?p) (int (length s)) = s"
    using subbytes_append [of "pre @ decimal (length s) @ '':''" s post] by (simp add: buf enc add_ac)
  ultimately show thesis using that x by blast
qed

end
