(* ===== verification/FileStorage.thy ===== *)
theory FileStorage
  imports Prelude EscapeString "HOL-Library.Multiset"
begin

section \<open>The files of a torrent (\<open>libtorrent/src/file_storage.cpp\<close>, \<open>file_storage.hpp\<close>)\<close>

text \<open>
  A \<open>file_storage\<close> lays the files of a torrent one after the other in one byte space, which
  the pieces cut into parts of equal length. \<open>size_type\<close> is a 64-bit integer: the sums of
  sizes and offsets wrap around. A path is the string it was made from; what the code asks
  of \<open>boost::filesystem\<close> is a parameter (\<open>fs_ops\<close>). Iterators are positions in \<open>m_files\<close>;
  reading at a position outside the vector is the fault \<open>Out_of_bounds\<close>.
\<close>

record fs_ops =
  has_parent_path :: "string \<Rightarrow> bool"
  path_front :: "string \<Rightarrow> string"   \<comment> \<open>\<open>*p.begin()\<close>\<close>
  path_append :: "string \<Rightarrow> string \<Rightarrow> string"   \<comment> \<open>\<open>p /= q\<close>\<close>
  path_elements :: "string \<Rightarrow> string list"   \<comment> \<open>the iterators from \<open>p.begin()\<close> to \<open>p.end()\<close>\<close>
  path_extension :: "string \<Rightarrow> string"   \<comment> \<open>\<open>fs::extension (p)\<close> and \<open>p.extension()\<close>\<close>
  replace_extension :: "string \<Rightarrow> string \<Rightarrow> string"   \<comment> \<open>\<open>p.replace_extension (e)\<close>\<close>

text \<open>
  The POSIX grammar of paths that \<open>boost::filesystem\<close> documents: names separated by slashes,
  of which several count as one, an optional root, and a dot for a slash at the end.
\<close>

fun split_slash :: "string \<Rightarrow> string list" where
  "split_slash [] = [[]]"
| "split_slash (c # s) =
     (if c = CHR ''/'' then [] # split_slash s
      else (c # hd (split_slash s)) # tl (split_slash s))"

definition relative_elements :: "string \<Rightarrow> string list" where
  "relative_elements s =
     (let names = filter (\<lambda>x. x \<noteq> []) (split_slash s) in
      names @ (if names \<noteq> [] \<and> last s = CHR ''/'' then [''.''] else []))"

definition posix_elements :: "string \<Rightarrow> string list" where
  "posix_elements s =
     (if length s > 2 \<and> take 2 s = ''//'' \<and> s ! 2 \<noteq> CHR ''/'' then
        let net = takeWhile (\<lambda>c. c \<noteq> CHR ''/'') (drop 2 s);
            rest = drop (2 + length net) s
        in (''//'' @ net) # (if rest = [] then [] else ''/'' # relative_elements rest)
      else if s \<noteq> [] \<and> hd s = CHR ''/'' then ''/'' # relative_elements s
      else relative_elements s)"

definition posix_append :: "string \<Rightarrow> string \<Rightarrow> string" where
  "posix_append p q =
     (if p = [] \<or> q = [] \<or> hd q = CHR ''/'' \<or> last p = CHR ''/'' then p @ q else p @ ''/'' @ q)"

definition posix_extension :: "string \<Rightarrow> string" where
  "posix_extension p =
     (let leaf = last (split_slash p) in
      if CHR ''.'' \<in> set leaf then CHR ''.'' # rev (takeWhile (\<lambda>c. c \<noteq> CHR ''.'') (rev leaf)) else [])"

definition posix_replace_extension :: "string \<Rightarrow> string \<Rightarrow> string" where
  "posix_replace_extension p e = take (length p - length (posix_extension p)) p @ e"

definition posix_ops :: fs_ops where
  "posix_ops =
     \<lparr>has_parent_path = (\<lambda>p. length (posix_elements p) > 1),
      path_front = (\<lambda>p. hd (posix_elements p)), path_append = posix_append,
      path_elements = posix_elements, path_extension = posix_extension,
      replace_extension = posix_replace_extension\<rparr>"

subsection \<open>State\<close>

record file_entry =
  fe_path :: string
  fe_offset :: int
  fe_size :: int
  fe_file_base :: int
  fe_mtime :: int
  fe_pad_file :: bool
  fe_hidden_attribute :: bool
  fe_executable_attribute :: bool
  fe_symlink_attribute :: bool
  fe_symlink_path :: string

definition new_file_entry :: file_entry where
  "new_file_entry =
     \<lparr>fe_path = '''', fe_offset = 0, fe_size = 0, fe_file_base = 0, fe_mtime = 0, fe_pad_file = False,
      fe_hidden_attribute = False, fe_executable_attribute = False, fe_symlink_attribute = False,
      fe_symlink_path = ''''\<rparr>"

record file_slice =
  fs_file_index :: nat
  fs_offset :: int
  fs_size :: int

record peer_request =
  pr_piece :: int
  pr_start :: int
  pr_length :: int

record file_storage =
  m_piece_length :: int
  m_files :: "file_entry list"
  m_total_size :: int
  m_num_pieces :: int
  m_name :: string

definition new_file_storage :: file_storage where
  "new_file_storage =
     \<lparr>m_piece_length = 0, m_files = [], m_total_size = 0, m_num_pieces = 0, m_name = ''''\<rparr>"

subsection \<open>Operations\<close>

definition is_valid :: "file_storage \<Rightarrow> bool" where
  "is_valid st \<longleftrightarrow> m_piece_length st > 0"

definition num_files :: "file_storage \<Rightarrow> int" where
  "num_files st = int32 (int (length (m_files st)))"

definition set_num_pieces :: "int \<Rightarrow> file_storage \<Rightarrow> file_storage" where
  "set_num_pieces n st = st\<lparr>m_num_pieces := n\<rparr>"

definition set_piece_length :: "int \<Rightarrow> file_storage \<Rightarrow> file_storage" where
  "set_piece_length l st = st\<lparr>m_piece_length := l\<rparr>"

definition set_name :: "string \<Rightarrow> file_storage \<Rightarrow> file_storage" where
  "set_name n st = st\<lparr>m_name := n\<rparr>"

definition file_at :: "int \<Rightarrow> file_storage \<Rightarrow> file_entry result" where
  "file_at index st = read_at (m_files st) index"

definition piece_size :: "int \<Rightarrow> file_storage \<Rightarrow> int" where
  "piece_size index st =
     (if index = int32 (m_num_pieces st - 1) then
        int32 (int64 (m_total_size st - int64 (int32 (m_num_pieces st - 1) * m_piece_length st)))
      else m_piece_length st)"

definition rename_file :: "int \<Rightarrow> string \<Rightarrow> file_storage \<Rightarrow> file_storage result" where
  "rename_file index new_filename st =
     bind_result (read_at (m_files st) index) (\<lambda>f.
       Inr (st\<lparr>m_files := (m_files st)[nat index := f\<lparr>fe_path := new_filename\<rparr>]\<rparr>))"

text \<open>
  \<open>std::upper_bound\<close> by offset: the position of the first file that starts behind the given
  offset. The files are sorted by offset where it is used.
\<close>

definition upper_bound :: "file_entry list \<Rightarrow> int \<Rightarrow> nat" where
  "upper_bound fs off = length (takeWhile (\<lambda>f. \<not> off < fe_offset f) fs)"

definition file_at_offset :: "int \<Rightarrow> file_storage \<Rightarrow> nat result" where
  "file_at_offset off st =
     (case upper_bound (m_files st) off of
        0 \<Rightarrow> Inl Out_of_bounds
      | Suc i \<Rightarrow> Inr i)"

text \<open>\<open>rest\<close> are the files from \<open>file_iter\<close>, whose position is \<open>idx\<close>, to the end.\<close>

fun map_block_loop :: "file_entry list \<Rightarrow> nat \<Rightarrow> int \<Rightarrow> int \<Rightarrow> file_slice list \<Rightarrow> file_slice list result" where
  "map_block_loop [] idx file_offset sz ret = (if sz > 0 then Inl Out_of_bounds else Inr ret)"
| "map_block_loop (f # rest) idx file_offset sz ret =
     (if sz > 0 then
        if file_offset < fe_size f then
          let n = min (int64 (fe_size f - file_offset)) sz;
              slice = \<lparr>fs_file_index = idx, fs_offset = int64 (file_offset + fe_file_base f), fs_size = n\<rparr>
          in map_block_loop rest (Suc idx) (int64 (int64 (file_offset + n) - fe_size f))
               (int32 (sz - n)) (ret @ [slice])
        else map_block_loop rest (Suc idx) (int64 (file_offset - fe_size f)) sz ret
      else Inr ret)"

definition map_block :: "int \<Rightarrow> int \<Rightarrow> int \<Rightarrow> file_storage \<Rightarrow> file_slice list result" where
  "map_block piece off sz st =
     (if m_files st = [] then Inr []
      else
        let target = int64 (int64 (piece * m_piece_length st) + off) in
        case upper_bound (m_files st) target of
          0 \<Rightarrow> Inl Out_of_bounds
        | Suc i \<Rightarrow>
            map_block_loop (drop i (m_files st)) i
              (int64 (target - fe_offset (m_files st ! i))) sz [])"

text \<open>
  The product \<open>ret.piece * piece_length()\<close> is one of two \<open>int\<close>s, and the difference with the
  64-bit offset is cut to an \<open>int\<close>.
\<close>

definition map_file :: "int \<Rightarrow> int \<Rightarrow> int \<Rightarrow> file_storage \<Rightarrow> peer_request result" where
  "map_file file_index file_offset sz st =
     bind_result (file_at file_index st) (\<lambda>f.
       let off = int64 (file_offset + fe_offset f);
           piece = int32 (off sdiv m_piece_length st)
       in Inr \<lparr>pr_piece = piece,
               pr_start = int32 (int64 (off - int32 (piece * m_piece_length st))),
               pr_length = sz\<rparr>)"

definition flag_set :: "int \<Rightarrow> int \<Rightarrow> bool" where
  "flag_set flags f \<longleftrightarrow> flags div f mod 2 = 1"

definition add_file :: "fs_ops \<Rightarrow> string \<Rightarrow> int \<Rightarrow> int \<Rightarrow> int \<Rightarrow> string \<Rightarrow> file_storage \<Rightarrow> file_storage" where
  "add_file ops file sz flags mtime symlink_path st =
     (let name = (if \<not> has_parent_path ops file then file
                  else if m_files st = [] then path_front ops file else m_name st);
          e = \<lparr>fe_path = file, fe_offset = m_total_size st, fe_size = sz, fe_file_base = 0,
               fe_mtime = mtime, fe_pad_file = flag_set flags 1,
               fe_hidden_attribute = flag_set flags 2, fe_executable_attribute = flag_set flags 4,
               fe_symlink_attribute = flag_set flags 8,
               fe_symlink_path = (if flag_set flags 8 then symlink_path else '''')\<rparr>
      in st\<lparr>m_name := name, m_files := m_files st @ [e], m_total_size := int64 (m_total_size st + sz)\<rparr>)"

definition add_file_entry :: "fs_ops \<Rightarrow> file_entry \<Rightarrow> file_storage \<Rightarrow> file_storage" where
  "add_file_entry ops ent st =
     (let name = (if \<not> has_parent_path ops (fe_path ent) then fe_path ent
                  else if m_files st = [] then path_front ops (fe_path ent) else m_name st)
      in st\<lparr>m_name := name, m_files := m_files st @ [ent\<lparr>fe_offset := m_total_size st\<rparr>],
            m_total_size := int64 (m_total_size st + fe_size ent)\<rparr>)"

subsubsection \<open>\<open>optimize\<close>\<close>

definition alignment :: int where
  "alignment = 8 * 1024"

text \<open>\<open>std::max_element\<close> by size: the position of the first file of the largest size.\<close>

fun max_element :: "file_entry list \<Rightarrow> nat" where
  "max_element [] = 0"
| "max_element [f] = 0"
| "max_element (f # g # fs) =
     (let i = max_element (g # fs) in if fe_size f < fe_size ((g # fs) ! i) then Suc i else 0)"

definition iter_swap :: "nat \<Rightarrow> nat \<Rightarrow> 'a list \<Rightarrow> 'a list" where
  "iter_swap i j xs = xs[i := xs ! j, j := xs ! i]"

text \<open>The position of the first of the largest files that fit in \<open>pad_size\<close>.\<close>

fun best_match :: "int \<Rightarrow> file_entry list \<Rightarrow> nat \<Rightarrow> (nat \<times> int) option \<Rightarrow> nat option" where
  "best_match pad_size [] j best = map_option fst best"
| "best_match pad_size (f # fs) j best =
     (if fe_size f > pad_size then best_match pad_size fs (Suc j) best
      else if best = None \<or> fe_size f > snd (the best)
      then best_match pad_size fs (Suc j) (Some (j, fe_size f))
      else best_match pad_size fs (Suc j) best)"

definition erase_nth :: "nat \<Rightarrow> 'a list \<Rightarrow> 'a list" where
  "erase_nth i xs = take i xs @ drop (Suc i) xs"

definition padding_entry :: "fs_ops \<Rightarrow> file_entry \<Rightarrow> int \<Rightarrow> int \<Rightarrow> int \<Rightarrow> file_entry" where
  "padding_entry ops next_file pad_size off padding_file =
     new_file_entry\<lparr>fe_size := pad_size, fe_offset := off, fe_file_base := 0,
       fe_path := path_append ops
         (path_append ops (path_front ops (fe_path next_file)) ''_____padding_file_'')
         (int_string padding_file),
       fe_pad_file := True\<rparr>"

lemma best_match_bound:
  "best_match pad_size fs j best = Some k \<Longrightarrow>
     (best \<noteq> None \<longrightarrow> fst (the best) < j) \<Longrightarrow> k < j + length fs"
  by (induction pad_size fs j best rule: best_match.induct) (auto split: if_splits)

text \<open>\<open>out\<close> are the files in front of the iterator \<open>i\<close>; the second list starts with \<open>*i\<close>.\<close>

function optimize_loop :: "fs_ops \<Rightarrow> int \<Rightarrow> file_entry list \<Rightarrow> file_entry list \<Rightarrow> int \<Rightarrow> int
    \<Rightarrow> file_entry list \<times> int" where
  "optimize_loop ops limit out [] off padding_file = (out, off)"
| "optimize_loop ops limit out (f # fs) off padding_file =
     (if limit \<ge> 0 \<and> off mod alignment \<noteq> 0 \<and> fe_size f > limit \<and> \<not> fe_pad_file f then
        let pad_size = alignment - off mod alignment in
        case best_match pad_size fs 0 None of
          Some j \<Rightarrow>
            optimize_loop ops limit (out @ [(fs ! j)\<lparr>fe_offset := off\<rparr>]) (f # erase_nth j fs)
              (int64 (off + fe_size (fs ! j))) padding_file
        | None \<Rightarrow>
            let off' = int64 (off + pad_size) in
            optimize_loop ops limit
              (out @ [padding_entry ops f pad_size off padding_file, f\<lparr>fe_offset := off'\<rparr>]) fs
              (int64 (off' + fe_size f)) (int32 (padding_file + 1))
      else
        optimize_loop ops limit (out @ [f\<lparr>fe_offset := off\<rparr>]) fs (int64 (off + fe_size f)) padding_file)"
  by pat_completeness auto

termination
  by (relation "measure (\<lambda>(_, _, _, fs, _, _). length fs)")
    (auto simp: erase_nth_def dest: best_match_bound)

definition optimize :: "fs_ops \<Rightarrow> int \<Rightarrow> file_storage \<Rightarrow> file_storage result" where
  "optimize ops pad_file_limit st =
     (let limit = (if pad_file_limit \<ge> 0 \<and> pad_file_limit < alignment then alignment else pad_file_limit) in
      if m_files st = [] then Inl Out_of_bounds
      else
        let (fs, off) = optimize_loop ops limit [] (iter_swap (max_element (m_files st)) 0 (m_files st)) 0 0
        in Inr (st\<lparr>m_files := fs, m_total_size := off\<rparr>))"

subsection \<open>The layout of the files\<close>

fun laid_out :: "int \<Rightarrow> file_entry list \<Rightarrow> bool" where
  "laid_out off [] = True"
| "laid_out off (f # fs) = (fe_offset f = off \<and> 0 \<le> fe_size f \<and> laid_out (off + fe_size f) fs)"

definition total_of :: "file_entry list \<Rightarrow> int" where
  "total_of fs = sum_list (map fe_size fs)"

definition storage_ok :: "file_storage \<Rightarrow> bool" where
  "storage_ok st \<longleftrightarrow>
     laid_out 0 (m_files st) \<and> m_total_size st = total_of (m_files st) \<and> m_total_size st < 2 ^ 63"

lemma total_of_simps [simp]:
  "total_of [] = 0" "total_of (f # fs) = fe_size f + total_of fs"
  "total_of (fs @ gs) = total_of fs + total_of gs"
  by (simp_all add: total_of_def)

lemma laid_out_append [simp]:
  "laid_out off (fs @ gs) \<longleftrightarrow> laid_out off fs \<and> laid_out (off + total_of fs) gs"
  by (induction fs arbitrary: off) (auto simp: add.assoc)

lemma laid_out_total_nonneg: "laid_out off fs \<Longrightarrow> 0 \<le> total_of fs"
  by (induction off fs rule: laid_out.induct) auto

lemma laid_out_nth:
  "laid_out off fs \<Longrightarrow> i < length fs \<Longrightarrow>
     fe_offset (fs ! i) = off + total_of (take i fs) \<and> 0 \<le> fe_size (fs ! i)"
  by (induction off fs arbitrary: i rule: laid_out.induct) (auto simp: nth_Cons split: nat.splits)

lemma storage_ok_new: "storage_ok new_file_storage"
  by (simp add: storage_ok_def new_file_storage_def)

lemma storage_ok_append:
  assumes "storage_ok st" and "0 \<le> fe_size e" and "m_total_size st + fe_size e < 2 ^ 63"
    and "fe_offset e = m_total_size st"
  shows "storage_ok (st\<lparr>m_name := n, m_files := m_files st @ [e],
      m_total_size := int64 (m_total_size st + fe_size e)\<rparr>)"
  using assms laid_out_total_nonneg [of 0 "m_files st"] by (simp add: storage_ok_def int64_id)

lemma storage_ok_add_file:
  "storage_ok st \<Longrightarrow> 0 \<le> sz \<Longrightarrow> m_total_size st + sz < 2 ^ 63 \<Longrightarrow>
     storage_ok (add_file ops file sz flags mtime sl st)"
  unfolding add_file_def Let_def
  using storage_ok_append [of st "\<lparr>fe_path = file, fe_offset = m_total_size st, fe_size = sz, fe_file_base = 0,
               fe_mtime = mtime, fe_pad_file = flag_set flags 1,
               fe_hidden_attribute = flag_set flags 2, fe_executable_attribute = flag_set flags 4,
               fe_symlink_attribute = flag_set flags 8,
               fe_symlink_path = (if flag_set flags 8 then sl else '''')\<rparr>"]
  by simp

lemma storage_ok_add_file_entry:
  "storage_ok st \<Longrightarrow> 0 \<le> fe_size ent \<Longrightarrow> m_total_size st + fe_size ent < 2 ^ 63 \<Longrightarrow>
     storage_ok (add_file_entry ops ent st)"
  unfolding add_file_entry_def Let_def
  using storage_ok_append [of st "ent\<lparr>fe_offset := m_total_size st\<rparr>"] by simp

lemma storage_ok_rename:
  assumes "storage_ok st" and "rename_file i n st = Inr st'"
  shows "storage_ok st'"
proof -
  have upd: "laid_out off (fs[k := (fs ! k)\<lparr>fe_path := n\<rparr>]) = laid_out off fs \<and>
      total_of (fs[k := (fs ! k)\<lparr>fe_path := n\<rparr>]) = total_of fs" for off fs k
    by (induction off fs arbitrary: k rule: laid_out.induct) (auto split: nat.splits)
  from assms show ?thesis
    using upd by (auto simp: rename_file_def bind_result_Inr_iff read_at_def storage_ok_def split: if_splits)
qed

subsection \<open>Blocks and slices\<close>

text \<open>
  What a reader of the slices sees. \<open>hosts\<close> are the bytes of the files on disk, of which the
  torrent occupies \<open>fe_size\<close> bytes from \<open>fe_file_base\<close>; the content of the torrent is the
  concatenation of these parts.
\<close>

definition host_ok :: "file_entry \<Rightarrow> 'a list \<Rightarrow> bool" where
  "host_ok f h \<longleftrightarrow> 0 \<le> fe_file_base f \<and> 0 \<le> fe_size f \<and>
     fe_file_base f + fe_size f \<le> int (length h) \<and> length h < 2 ^ 63"

definition part_of :: "file_entry \<Rightarrow> 'a list \<Rightarrow> 'a list" where
  "part_of f h = subbytes h (fe_file_base f) (fe_size f)"

definition content_of :: "file_entry list \<Rightarrow> 'a list list \<Rightarrow> 'a list" where
  "content_of fs hosts = concat (map2 part_of fs hosts)"

definition read_slice :: "'a list list \<Rightarrow> file_slice \<Rightarrow> 'a list" where
  "read_slice hosts s = subbytes (hosts ! fs_file_index s) (fs_offset s) (fs_size s)"

lemma length_part_of: "host_ok f h \<Longrightarrow> int (length (part_of f h)) = fe_size f"
  by (simp add: part_of_def host_ok_def subbytes_def) linarith

lemma content_of_simps [simp]:
  "content_of [] hs = []" "content_of (f # fs) (h # hs) = part_of f h @ content_of fs hs"
  by (simp_all add: content_of_def)

lemma length_content_of:
  "list_all2 host_ok fs hs \<Longrightarrow> int (length (content_of fs hs)) = total_of fs"
  by (induction rule: list_all2_induct) (auto simp: length_part_of)

lemma content_of_append:
  "length fs = length hs \<Longrightarrow> content_of (fs @ gs) (hs @ is) = content_of fs hs @ content_of gs is"
  by (simp add: content_of_def)

lemma subbytes_part_of:
  assumes "host_ok f h" "0 \<le> off" "0 \<le> n" "off + n \<le> fe_size f"
  shows "subbytes h (off + fe_file_base f) n = take (nat n) (drop (nat off) (part_of f h))"
  using assms by (simp add: subbytes_def part_of_def host_ok_def drop_take min_def nat_add_distrib add.commute)

lemma subbytes_behind:
  "int (length xs) = n \<Longrightarrow> n \<le> off \<Longrightarrow> subbytes ys (off - n) sz = subbytes (xs @ ys) off sz"
  by (auto simp: subbytes_def nat_diff_distrib)

lemma subbytes_over:
  assumes "int (length xs) = m" "0 \<le> off" "off < m" "n = min (m - off) sz" "0 < sz"
  shows "take (nat n) (drop (nat off) xs) @ subbytes ys (off + n - m) (sz - n) = subbytes (xs @ ys) off sz"
proof (cases "m - off \<le> sz")
  case True
  then have "nat n = length xs - nat off" "nat (sz - n) = nat sz - (length xs - nat off)"
    "nat (off + n - m) = 0" "length xs - nat off \<le> nat sz" "nat off \<le> length xs"
    using assms by auto
  then show ?thesis by (simp add: subbytes_def)
next
  case False
  then have "n = sz" "nat sz \<le> length xs - nat off" using assms by auto
  then show ?thesis by (simp add: subbytes_def)
qed

lemma map_block_loop_reads:
  assumes "list_all2 host_ok fs hs" "length pre = idx"
    and "0 \<le> sz" "sz < 2 ^ 31" "sz > 0 \<longrightarrow> 0 \<le> fo \<and> fo + sz \<le> total_of fs" "total_of fs < 2 ^ 63"
    and "fo < 2 ^ 63" "- (2 ^ 63) \<le> fo"
  shows "\<exists>slices. map_block_loop fs idx fo sz ret = Inr (ret @ slices) \<and>
     concat (map (read_slice (pre @ hs)) slices) = subbytes (content_of fs hs) fo sz \<and>
     (\<forall>s \<in> set slices. 0 < fs_size s)"
  using assms
proof (induction fs hs arbitrary: pre idx fo sz ret rule: list_all2_induct)
  case (Cons f fs h hs)
  show ?case
  proof (cases "sz > 0")
    case True
    have size: "0 \<le> fe_size f" "int (length (part_of f h)) = fe_size f" "0 \<le> fe_file_base f"
      using Cons.hyps(1) length_part_of by (auto simp: host_ok_def)
    have base: "fe_file_base f + fe_size f < 2 ^ 63" using Cons.hyps(1) by (auto simp: host_ok_def)
    have tot: "0 \<le> total_of fs" using length_content_of [OF Cons.hyps(2)] by simp
    have IH: "\<exists>slices. map_block_loop fs (Suc idx) fo' sz' ret' = Inr (ret' @ slices) \<and>
        concat (map (read_slice (pre @ h # hs)) slices) = subbytes (content_of fs hs) fo' sz' \<and>
        (\<forall>s \<in> set slices. 0 < fs_size s)"
      if "0 \<le> sz'" "sz' < 2 ^ 31" "sz' > 0 \<longrightarrow> 0 \<le> fo' \<and> fo' + sz' \<le> total_of fs"
        "fo' < 2 ^ 63" "- (2 ^ 63) \<le> fo'" for fo' sz' ret'
      using Cons.IH [of "pre @ [h]" "Suc idx" sz' fo' ret'] Cons.prems(1,5) size tot that by simp
    show ?thesis
    proof (cases "fo < fe_size f")
      case inside: True
      define n where "n = min (fe_size f - fo) sz"
      have n: "0 < n" "n \<le> sz" "fo + n \<le> fe_size f" using True inside by (auto simp: n_def)
      let ?s = "\<lparr>fs_file_index = idx, fs_offset = fo + fe_file_base f, fs_size = n\<rparr>"
      have wrap: "int64 (fe_size f - fo) = fe_size f - fo" "int64 (fo + fe_file_base f) = fo + fe_file_base f"
        "int64 (int64 (fo + n) - fe_size f) = fo + n - fe_size f" "int32 (sz - n) = sz - n"
        using Cons.prems size tot True inside n base by (auto simp: int64_id int32_id)
      have conds: "0 \<le> sz - n" "sz - n < 2 ^ 31"
        "sz - n > 0 \<longrightarrow> 0 \<le> fo + n - fe_size f \<and> fo + n - fe_size f + (sz - n) \<le> total_of fs"
        "fo + n - fe_size f < 2 ^ 63" "- (2 ^ 63) \<le> fo + n - fe_size f"
        using Cons.prems(3-6) size tot True n by (auto simp: n_def)
      obtain slices where IH': "map_block_loop fs (Suc idx) (fo + n - fe_size f) (sz - n) (ret @ [?s]) =
          Inr ((ret @ [?s]) @ slices)"
        "concat (map (read_slice (pre @ h # hs)) slices) =
          subbytes (content_of fs hs) (fo + n - fe_size f) (sz - n)" "\<forall>s \<in> set slices. 0 < fs_size s"
        using IH [OF conds, of "ret @ [?s]"] by blast
      have "read_slice (pre @ h # hs) ?s = take (nat n) (drop (nat fo) (part_of f h))"
        using subbytes_part_of [OF Cons.hyps(1), of fo n] Cons.prems(1,4) True n
        by (simp add: read_slice_def nth_append)
      moreover have "take (nat n) (drop (nat fo) (part_of f h)) @
          subbytes (content_of fs hs) (fo + n - fe_size f) (sz - n) =
          subbytes (part_of f h @ content_of fs hs) fo sz"
        by (rule subbytes_over) (use size Cons.prems(4) True inside n in \<open>auto simp: n_def\<close>)
      ultimately show ?thesis
        using True inside IH' n by (intro exI [of _ "?s # slices"]) (simp add: wrap Let_def flip: n_def)
    next
      case False
      have wrap: "int64 (fo - fe_size f) = fo - fe_size f"
        using Cons.prems size False by (intro int64_id) auto
      have "subbytes (content_of fs hs) (fo - fe_size f) sz = subbytes (part_of f h @ content_of fs hs) fo sz"
        by (rule subbytes_behind) (use size False in auto)
      with IH [of sz "fo - fe_size f" ret] Cons.prems True False size show ?thesis
        by (auto simp: wrap)
    qed
  qed (use Cons.prems in \<open>simp add: subbytes_def\<close>)
qed (auto simp: subbytes_def)

lemma upper_bound_laid_out:
  assumes "laid_out 0 fs" "fs \<noteq> []" "0 \<le> off"
  obtains i where "upper_bound fs off = Suc i" "i < length fs" "fe_offset (fs ! i) \<le> off"
    "off < total_of fs \<Longrightarrow> off < fe_offset (fs ! i) + fe_size (fs ! i)"
proof -
  let ?P = "\<lambda>f. \<not> off < fe_offset f"
  obtain f gs where fs: "fs = f # gs" using assms(2) by (cases fs) auto
  then have "?P f" using assms by simp
  then obtain i where i: "upper_bound fs off = Suc i" by (simp add: upper_bound_def fs)
  have lt: "i < length fs"
    using i length_takeWhile_le [of ?P fs] by (simp add: upper_bound_def)
  have "?P (takeWhile ?P fs ! i)"
    using i nth_mem [of i "takeWhile ?P fs"] set_takeWhileD [of "takeWhile ?P fs ! i" ?P fs]
    by (simp add: upper_bound_def)
  then have le: "fe_offset (fs ! i) \<le> off" using i by (simp add: upper_bound_def takeWhile_nth)
  have "off < fe_offset (fs ! i) + fe_size (fs ! i)" if "off < total_of fs"
  proof (cases "Suc i < length fs")
    case True
    then have "off < fe_offset (fs ! Suc i)"
      using nth_length_takeWhile [of ?P fs] i by (simp add: upper_bound_def)
    then show ?thesis
      using True laid_out_nth [OF assms(1), of i] laid_out_nth [OF assms(1), of "Suc i"]
      by (simp add: take_Suc_conv_app_nth)
  next
    case False
    with lt have "take (Suc i) fs = fs" by simp
    then have "total_of fs = total_of (take i fs) + fe_size (fs ! i)"
      using lt by (metis take_Suc_conv_app_nth total_of_simps add.right_neutral)
    with that laid_out_nth [OF assms(1) lt] show ?thesis by simp
  qed
  with i lt le that show thesis by blast
qed

text \<open>
  C26: Every torrent offset inside the torrent is found: \<open>file_at_offset\<close> returns the file
  whose range of bytes contains it.
\<close>

theorem file_at_offset_contains:
  assumes "storage_ok st" and "0 \<le> off" and "off < m_total_size st"
  shows "\<exists>i. file_at_offset off st = Inr i \<and> i < length (m_files st) \<and>
    fe_offset (m_files st ! i) \<le> off \<and> off < fe_offset (m_files st ! i) + fe_size (m_files st ! i)"
proof -
  from assms have "m_files st \<noteq> []" by (auto simp: storage_ok_def)
  with assms obtain i where "upper_bound (m_files st) off = Suc i" "i < length (m_files st)"
    "fe_offset (m_files st ! i) \<le> off" "off < fe_offset (m_files st ! i) + fe_size (m_files st ! i)"
    by (auto simp: storage_ok_def elim: upper_bound_laid_out [of "m_files st" off])
  then show ?thesis by (simp add: file_at_offset_def)
qed

lemma content_of_split:
  assumes "list_all2 host_ok fs hs"
  shows "content_of fs hs = content_of (take i fs) (take i hs) @ content_of (drop i fs) (drop i hs)"
    and "int (length (content_of (take i fs) (take i hs))) = total_of (take i fs)"
proof -
  have "length fs = length hs" using assms by (rule list_all2_lengthD)
  then have "content_of (take i fs @ drop i fs) (take i hs @ drop i hs) =
      content_of (take i fs) (take i hs) @ content_of (drop i fs) (drop i hs)"
    by (intro content_of_append) simp
  then show "content_of fs hs = content_of (take i fs) (take i hs) @ content_of (drop i fs) (drop i hs)"
    by simp
  show "int (length (content_of (take i fs) (take i hs))) = total_of (take i fs)"
    using assms by (intro length_content_of list_all2_takeI)
qed

lemma map_block_reads:
  assumes "storage_ok st" and "list_all2 host_ok (m_files st) hosts"
    and "0 \<le> piece" "0 \<le> m_piece_length st" "0 \<le> off" "0 \<le> sz" "sz < 2 ^ 31"
    and "piece * m_piece_length st + off + sz \<le> m_total_size st"
  shows "\<exists>slices. map_block piece off sz st = Inr slices \<and>
    concat (map (read_slice hosts) slices) =
      subbytes (content_of (m_files st) hosts) (piece * m_piece_length st + off) sz \<and>
    (\<forall>s \<in> set slices. 0 < fs_size s)"
proof (cases "m_files st = []")
  case True
  then show ?thesis using assms(2) by (simp add: map_block_def subbytes_def)
next
  case False
  let ?t = "piece * m_piece_length st + off"
  let ?fs = "m_files st"
  have ok: "laid_out 0 ?fs" "m_total_size st = total_of ?fs" "total_of ?fs < 2 ^ 63"
    using assms(1) by (auto simp: storage_ok_def)
  have t: "0 \<le> ?t" "?t < 2 ^ 63" "0 \<le> piece * m_piece_length st" "piece * m_piece_length st < 2 ^ 63"
    using assms ok by (auto simp: mult_nonneg_nonneg)
  then have target: "int64 (int64 (piece * m_piece_length st) + off) = ?t"
    by (simp add: int64_id)
  obtain i where i: "upper_bound ?fs ?t = Suc i" "i < length ?fs" "fe_offset (?fs ! i) \<le> ?t"
    using upper_bound_laid_out [OF ok(1) False t(1)] .
  define fo where "fo = ?t - total_of (take i ?fs)"
  have off: "fe_offset (?fs ! i) = total_of (take i ?fs)" using laid_out_nth [OF ok(1) i(2)] by simp
  have split: "total_of ?fs = total_of (take i ?fs) + total_of (drop i ?fs)"
    by (metis append_take_drop_id total_of_simps(3))
  have pos: "0 \<le> total_of (take i ?fs)"
    using ok(1) by (metis append_take_drop_id laid_out_append laid_out_total_nonneg)
  have fo: "0 \<le> fo" "fo < 2 ^ 63" "- (2 ^ 63) \<le> fo" "int64 fo = fo"
    using i(3) off pos t by (auto simp: fo_def int64_id)
  have len: "length (take i hosts) = i" using i(2) list_all2_lengthD [OF assms(2)] by simp
  have "0 < sz \<longrightarrow> 0 \<le> fo \<and> fo + sz \<le> total_of (drop i ?fs)" "total_of (drop i ?fs) < 2 ^ 63"
    using fo assms(8) ok split pos by (auto simp: fo_def)
  from map_block_loop_reads [OF list_all2_dropI [OF assms(2)] len assms(6,7) this fo(2,3), of "[]"]
  obtain slices where "map_block_loop (drop i ?fs) i fo sz [] = Inr slices"
    "concat (map (read_slice (take i hosts @ drop i hosts)) slices) =
       subbytes (content_of (drop i ?fs) (drop i hosts)) fo sz" "\<forall>s \<in> set slices. 0 < fs_size s"
    by auto
  moreover have "subbytes (content_of (drop i ?fs) (drop i hosts)) fo sz = subbytes (content_of ?fs hosts) ?t sz"
    using subbytes_behind [OF content_of_split(2) [OF assms(2), of i], of ?t] i(3) off
    by (simp add: fo_def content_of_split(1) [OF assms(2), of i])
  ultimately show ?thesis
    using False i(1) by (simp add: map_block_def target off flip: fo_def) (simp add: fo_def fo(4) [unfolded fo_def])
qed

text \<open>
  C6: A block request is mapped to the files exactly. For a request that lies within the
  torrent, \<open>map_block\<close> returns non-empty slices of the files, and reading them one after the
  other gives exactly the requested bytes of the torrent, no byte missing, none repeated and
  none from another place.
\<close>

theorem map_block_exact:
  assumes "storage_ok st" and "list_all2 host_ok (m_files st) hosts"
    and "0 \<le> piece" "0 \<le> m_piece_length st" "0 \<le> off" "0 \<le> sz" "sz < 2 ^ 31"
    and "piece * m_piece_length st + off + sz \<le> m_total_size st"
  shows "\<exists>slices. map_block piece off sz st = Inr slices \<and>
    concat (map (read_slice hosts) slices) =
      subbytes (content_of (m_files st) hosts) (piece * m_piece_length st + off) sz \<and>
    (\<forall>s \<in> set slices. 0 < fs_size s)"
  using assms by (rule map_block_reads)

definition sample_storage :: file_storage where
  "sample_storage =
     add_file posix_ops ''t/b'' 5 0 0 ''''
       (add_file posix_ops ''t/a'' 3 0 0 ''''
         (set_piece_length 4 new_file_storage))"

lemma sample_storage_ok:
  "storage_ok sample_storage" "list_all2 host_ok (m_files sample_storage) [''abc'', ''defgh'']"
  "m_piece_length sample_storage = 4" "m_total_size sample_storage = 8" "length (m_files sample_storage) = 2"
  "fe_size (m_files sample_storage ! 0) = 3" "fe_size (m_files sample_storage ! Suc 0) = 5"
  "fe_offset (m_files sample_storage ! Suc 0) = 3"
  by (simp_all add: storage_ok_def sample_storage_def add_file_def new_file_storage_def
      set_piece_length_def host_ok_def Let_def int64_id)

theorem file_at_offset_contains_witness:
  "\<exists>i. file_at_offset 3 sample_storage = Inr i \<and> i < length (m_files sample_storage) \<and>
    fe_offset (m_files sample_storage ! i) \<le> 3 \<and>
    3 < fe_offset (m_files sample_storage ! i) + fe_size (m_files sample_storage ! i)"
  by (rule file_at_offset_contains) (simp_all add: sample_storage_ok)

theorem map_block_exact_witness:
  "\<exists>slices. map_block 0 2 4 sample_storage = Inr slices \<and>
    concat (map (read_slice [''abc'', ''defgh'']) slices) = ''cdef''"
proof -
  have "subbytes (content_of (m_files sample_storage) [''abc'', ''defgh'']) 2 4 = ''cdef''"
    by (simp add: sample_storage_def add_file_def new_file_storage_def set_piece_length_def Let_def
        content_of_def part_of_def subbytes_def)
  then show ?thesis
    using map_block_exact [OF sample_storage_ok(1,2), of 0 2 4] by (auto simp: sample_storage_ok)
qed

lemma subbytes_front:
  "0 \<le> off \<Longrightarrow> 0 \<le> sz \<Longrightarrow> off + sz \<le> int (length xs) \<Longrightarrow> subbytes (xs @ ys) off sz = subbytes xs off sz"
  by (simp add: subbytes_def)

lemma map_file_position:
  assumes "storage_ok st" and "0 \<le> i" "i < int (length (m_files st))"
    and "0 \<le> fo" "fe_offset (m_files st ! nat i) + fo < 2 ^ 63"
    and "0 < m_piece_length st" "m_piece_length st < 2 ^ 31"
    and "(fe_offset (m_files st ! nat i) + fo) div m_piece_length st < 2 ^ 31"
  shows "map_file i fo sz st = Inr
      \<lparr>pr_piece = (fe_offset (m_files st ! nat i) + fo) div m_piece_length st,
       pr_start = (fe_offset (m_files st ! nat i) + fo) mod m_piece_length st, pr_length = sz\<rparr>"
proof -
  let ?f = "m_files st ! nat i" and ?pl = "m_piece_length st"
  let ?off = "fe_offset ?f + fo"
  have f: "0 \<le> fe_offset ?f"
    using assms laid_out_nth [of 0 "m_files st" "nat i"]
    by (auto simp: storage_ok_def) (metis append_take_drop_id laid_out_append laid_out_total_nonneg)
  then have off: "int64 (fo + fe_offset ?f) = ?off" "0 \<le> ?off" using assms by (auto simp: int64_id add.commute)
  have piece: "?off sdiv ?pl = ?off div ?pl" using off assms(6) by (simp add: sdiv_nonneg)
  have "0 \<le> ?off div ?pl" using assms(6) off by (simp add: pos_imp_zdiv_nonneg_iff)
  then have piece': "int32 (?off div ?pl) = ?off div ?pl"
    using assms(8) by (intro int32_id) linarith+
  have "int32 (int64 (?off - int32 (?off div ?pl * ?pl))) = int32 (?off - ?off div ?pl * ?pl)"
    unfolding int32_int64 by (rule int32_cong) (metis int32_mod mod_diff_right_eq)
  also have "?off - ?off div ?pl * ?pl = ?off mod ?pl" by (simp add: minus_div_mult_eq_mod)
  also have "int32 (?off mod ?pl) = ?off mod ?pl"
    using assms(6,7) pos_mod_bound [of ?pl ?off] pos_mod_sign [of ?pl ?off] by (intro int32_id) linarith+
  finally show ?thesis
    using assms(2,3) by (simp add: map_file_def file_at_def read_at_Inr off Let_def piece piece')
qed

text \<open>
  C21: A range of a file is mapped to a piece request and back. \<open>map_file\<close> turns a range
  inside a file into a request whose start lies within one piece length, and mapping that
  request back with \<open>map_block\<close> gives slices that read exactly that range of that file. The
  \<open>int\<close> product in \<open>map_file\<close> may overflow, which does not change the result.
\<close>

theorem map_file_map_block:
  assumes "storage_ok st" and "list_all2 host_ok (m_files st) hosts"
    and "0 \<le> i" "i < int (length (m_files st))"
    and "0 \<le> fo" "0 \<le> sz" "sz < 2 ^ 31" "fo + sz \<le> fe_size (m_files st ! nat i)"
    and "0 < m_piece_length st" "m_piece_length st < 2 ^ 31" "m_total_size st div m_piece_length st < 2 ^ 31"
  shows "\<exists>r slices. map_file i fo sz st = Inr r \<and> 0 \<le> pr_start r \<and> pr_start r < m_piece_length st \<and>
    map_block (pr_piece r) (pr_start r) (pr_length r) st = Inr slices \<and>
    concat (map (read_slice hosts) slices) = subbytes (part_of (m_files st ! nat i) (hosts ! nat i)) fo sz"
proof -
  let ?fs = "m_files st" and ?pl = "m_piece_length st" and ?k = "nat i"
  let ?off = "fe_offset (?fs ! ?k) + fo"
  have k: "?k < length ?fs" using assms by auto
  have ok: "laid_out 0 ?fs" "m_total_size st = total_of ?fs" "total_of ?fs < 2 ^ 63"
    using assms(1) by (auto simp: storage_ok_def)
  have pos: "fe_offset (?fs ! ?k) = total_of (take ?k ?fs)" using laid_out_nth [OF ok(1) k] by simp
  have split: "?fs = take ?k ?fs @ (?fs ! ?k) # drop (Suc ?k) ?fs" using k by (simp add: id_take_nth_drop)
  then have "laid_out 0 (take ?k ?fs @ (?fs ! ?k) # drop (Suc ?k) ?fs)" using ok(1) by simp
  then have nonneg: "0 \<le> total_of (take ?k ?fs)" "0 \<le> total_of (drop (Suc ?k) ?fs)"
    by (auto dest!: laid_out_total_nonneg)
  have tot: "total_of ?fs = total_of (take ?k ?fs) + (fe_size (?fs ! ?k) + total_of (drop (Suc ?k) ?fs))"
    using split by (metis total_of_simps(2,3))
  have off: "0 \<le> ?off" "?off \<le> total_of ?fs" "?off + sz \<le> total_of ?fs" using tot nonneg assms pos by auto
  have "?off div ?pl \<le> total_of ?fs div ?pl" using off assms(9) by (intro zdiv_mono1) auto
  then have mf: "map_file i fo sz st = Inr \<lparr>pr_piece = ?off div ?pl, pr_start = ?off mod ?pl, pr_length = sz\<rparr>"
    using off ok assms by (intro map_file_position) auto
  have "\<exists>slices. map_block (?off div ?pl) (?off mod ?pl) sz st = Inr slices \<and>
      concat (map (read_slice hosts) slices) =
        subbytes (content_of ?fs hosts) (?off div ?pl * ?pl + ?off mod ?pl) sz \<and>
      (\<forall>s \<in> set slices. 0 < fs_size s)"
    using off assms ok by (intro map_block_reads) (auto simp: pos_imp_zdiv_nonneg_iff)
  moreover have "subbytes (content_of ?fs hosts) ?off sz = subbytes (part_of (?fs ! ?k) (hosts ! ?k)) fo sz"
  proof -
    have h: "host_ok (?fs ! ?k) (hosts ! ?k)" using list_all2_nthD [OF assms(2) k] .
    have hosts: "hosts = take ?k hosts @ (hosts ! ?k) # drop (Suc ?k) hosts"
      using k list_all2_lengthD [OF assms(2)] by (simp add: id_take_nth_drop)
    have "content_of (drop ?k ?fs) (drop ?k hosts) =
        part_of (?fs ! ?k) (hosts ! ?k) @ content_of (drop (Suc ?k) ?fs) (drop (Suc ?k) hosts)"
      using k list_all2_lengthD [OF assms(2)] by (simp flip: Cons_nth_drop_Suc)
    then have "subbytes (content_of ?fs hosts) ?off sz =
        subbytes (part_of (?fs ! ?k) (hosts ! ?k) @ content_of (drop (Suc ?k) ?fs) (drop (Suc ?k) hosts)) fo sz"
      using subbytes_behind [OF content_of_split(2) [OF assms(2), of ?k], of ?off] assms(5)
      by (simp add: content_of_split(1) [OF assms(2), of ?k] pos)
    also have "\<dots> = subbytes (part_of (?fs ! ?k) (hosts ! ?k)) fo sz"
      using length_part_of [OF h] assms(5,6,8) by (intro subbytes_front) auto
    finally show ?thesis .
  qed
  ultimately show ?thesis using mf assms(9) by auto
qed

theorem map_file_map_block_witness:
  "\<exists>r slices. map_file 1 2 3 sample_storage = Inr r \<and> 0 \<le> pr_start r \<and> pr_start r < m_piece_length sample_storage \<and>
    map_block (pr_piece r) (pr_start r) (pr_length r) sample_storage = Inr slices \<and>
    concat (map (read_slice [''abc'', ''defgh'']) slices) =
      subbytes (part_of (m_files sample_storage ! nat 1) ([''abc'', ''defgh''] ! nat 1)) 2 3"
  by (rule map_file_map_block) (simp_all add: sample_storage_ok)


subsection \<open>Piece sizes\<close>

definition pieces_ok :: "file_storage \<Rightarrow> bool" where
  "pieces_ok st \<longleftrightarrow> 0 < m_piece_length st \<and> m_piece_length st < 2 ^ 31 \<and> 0 < m_total_size st \<and>
     m_total_size st < 2 ^ 63 \<and> m_num_pieces st < 2 ^ 31 \<and>
     m_num_pieces st = (m_total_size st + m_piece_length st - 1) div m_piece_length st"

text \<open>
  C25: The pieces cover the torrent: where the number of pieces is the total size divided by
  the piece length, rounded up, every piece has a positive size of at most the piece length,
  and the sizes add up to the total size.
\<close>

theorem piece_sizes_cover:
  assumes "pieces_ok st"
  shows "(\<Sum>i < nat (m_num_pieces st). piece_size (int i) st) = m_total_size st \<and>
    (\<forall>i. 0 \<le> i \<and> i < m_num_pieces st \<longrightarrow> 0 < piece_size i st \<and> piece_size i st \<le> m_piece_length st)"
proof -
  let ?pl = "m_piece_length st" and ?n = "m_num_pieces st" and ?t = "m_total_size st"
  from assms have pl: "0 < ?pl" "?pl < 2 ^ 31" and t: "0 < ?t" "?t < 2 ^ 63" and n: "?n < 2 ^ 31"
    and def: "?n = (?t + ?pl - 1) div ?pl"
    by (auto simp: pieces_ok_def)
  have "?t + ?pl - 1 = ?n * ?pl + (?t + ?pl - 1) mod ?pl" unfolding def by simp
  moreover have "0 \<le> (?t + ?pl - 1) mod ?pl" "(?t + ?pl - 1) mod ?pl < ?pl" using pl by auto
  ultimately have last: "0 < ?t - (?n - 1) * ?pl" "?t - (?n - 1) * ?pl \<le> ?pl"
    by (auto simp: algebra_simps)
  have "1 \<le> ?n" unfolding def using pl t zdiv_mono1 [of ?pl "?t + ?pl - 1" ?pl] by simp
  then have "0 < ?n" by simp
  then have n1: "int32 (?n - 1) = ?n - 1" using n by (intro int32_id) auto
  have "0 \<le> (?n - 1) * ?pl" using \<open>0 < ?n\<close> pl by simp
  then have size: "piece_size i st = (if i = ?n - 1 then ?t - (?n - 1) * ?pl else ?pl)" for i
    using last pl t by (simp add: piece_size_def n1 int64_id int32_id)
  define m where "m = nat (?n - 1)"
  have m: "nat ?n = Suc m" "?n = int m + 1" using \<open>0 < ?n\<close> by (auto simp: m_def)
  have "(\<Sum>i < nat ?n. piece_size (int i) st) = (\<Sum>i < m. piece_size (int i) st) + piece_size (int m) st"
    unfolding m(1) by simp
  also have "(\<Sum>i < m. piece_size (int i) st) = (\<Sum>i < m. ?pl)"
    by (rule sum.cong) (auto simp: size m)
  also have "(\<Sum>i < m. ?pl) + piece_size (int m) st = ?t" by (simp add: size m)
  finally show ?thesis using last pl by (simp add: size)
qed

theorem piece_sizes_cover_witness:
  "(\<Sum>i < nat 3. piece_size (int i) (set_num_pieces 3 (sample_storage\<lparr>m_total_size := 9\<rparr>))) = 9"
  using piece_sizes_cover [of "set_num_pieces 3 (sample_storage\<lparr>m_total_size := 9\<rparr>)"]
  by (simp add: pieces_ok_def set_num_pieces_def sample_storage_ok)

subsection \<open>\<open>optimize\<close>\<close>

definition without_offset :: "file_entry \<Rightarrow> file_entry" where
  "without_offset f = f\<lparr>fe_offset := 0\<rparr>"

lemma without_offset_update [simp]: "without_offset (f\<lparr>fe_offset := x\<rparr>) = without_offset f"
  by (simp add: without_offset_def)

lemma best_match_fits:
  "best_match pad_size fs j best = Some k \<Longrightarrow> best = None \<or> fst (the best) < j \<Longrightarrow>
     (best \<noteq> None \<and> k = fst (the best)) \<or> (j \<le> k \<and> fe_size (fs ! (k - j)) \<le> pad_size)"
proof (induction pad_size fs j best rule: best_match.induct)
  case (2 pad_size f fs j best)
  have shift: "fe_size ((f # fs) ! (k - j)) \<le> pad_size" if "Suc j \<le> k" "fe_size (fs ! (k - Suc j)) \<le> pad_size"
    using that by (simp add: nth_Cons' Suc_le_eq)
  consider "fe_size f > pad_size" | "\<not> fe_size f > pad_size" "best = None \<or> fe_size f > snd (the best)"
    | "\<not> fe_size f > pad_size" "\<not> (best = None \<or> fe_size f > snd (the best))" by blast
  then show ?case
  proof cases
    case 1
    with "2.IH"(1) [OF 1] "2.prems" shift show ?thesis by (auto simp: less_Suc_eq)
  next
    case new: 2
    have "best_match pad_size fs (Suc j) (Some (j, fe_size f)) = Some k"
      using "2.prems"(1) new by (simp split: if_splits)
    with "2.IH"(2) [OF new] new shift show ?thesis by auto
  next
    case 3
    have "best_match pad_size fs (Suc j) best = Some k" using "2.prems"(1) 3 by (simp split: if_splits)
    with "2.IH"(3) [OF 3] "2.prems"(2) 3 shift show ?thesis by (auto simp: less_Suc_eq)
  qed
qed auto

lemma mset_erase_nth: "j < length xs \<Longrightarrow> mset xs = add_mset (xs ! j) (mset (erase_nth j xs))"
  by (subst id_take_nth_drop [of j xs]) (simp_all add: erase_nth_def)

lemma total_of_mset: "total_of fs = sum_mset (image_mset fe_size (mset fs))"
  by (simp add: total_of_def flip: sum_mset_sum_list)

lemma mset_iter_swap: "i < length xs \<Longrightarrow> j < length xs \<Longrightarrow> mset (iter_swap i j xs) = mset xs"
  by (simp add: iter_swap_def mset_swap)

definition padding_ok :: "file_entry \<Rightarrow> bool" where
  "padding_ok p \<longleftrightarrow> fe_pad_file p \<and> 0 < fe_size p \<and> fe_size p \<le> alignment"

definition aligned :: "int \<Rightarrow> file_entry \<Rightarrow> bool" where
  "aligned limit f \<longleftrightarrow> (0 \<le> limit \<and> fe_size f > limit \<and> \<not> fe_pad_file f \<longrightarrow> fe_offset f mod alignment = 0)"

lemma optimize_loop_layout:
  assumes "\<forall>f \<in> set fs. 0 \<le> fe_size f" "0 \<le> off" "off + total_of fs + alignment * int (length fs) < 2 ^ 63"
    and "limit < 0 \<or> alignment \<le> limit"
  shows "\<exists>new pads. fst (optimize_loop ops limit out fs off pf) = out @ new \<and>
    snd (optimize_loop ops limit out fs off pf) = off + total_of new \<and> laid_out off new \<and>
    mset (map without_offset new) = mset (map without_offset fs) + mset (map without_offset pads) \<and>
    list_all padding_ok pads \<and> list_all (aligned limit) new \<and>
    total_of new \<le> total_of fs + alignment * int (length fs)"
  using assms
proof (induction ops limit out fs off pf rule: optimize_loop.induct)
  case (1 ops limit out off pf)
  show ?case by (rule exI [of _ "[]"], rule exI [of _ "[]"]) simp
next
  case (2 ops limit out f fs off pf)
  define pad where "pad = alignment - off mod alignment"
  have al: "0 < alignment" by (simp add: alignment_def)
  then have pad: "0 < pad" "pad \<le> alignment" by (auto simp: pad_def)
  have padded: "(off + pad) mod alignment = 0"
    by (simp add: pad_def mod_eq_0_iff_dvd) (metis add_diff_eq dvd_add_triv_right_iff add.commute dvd_minus_mod)
  have nonneg: "0 \<le> fe_size f" "0 \<le> total_of fs"
    using "2.prems"(1) by (auto simp: total_of_def intro!: sum_list_nonneg)
  show ?case
  proof (cases "limit \<ge> 0 \<and> off mod alignment \<noteq> 0 \<and> fe_size f > limit \<and> \<not> fe_pad_file f")
    case False
    have w: "int64 (off + fe_size f) = off + fe_size f"
      using "2.prems" nonneg al by (intro int64_id) (auto simp: alignment_def)
    obtain new pads where IH: "fst (optimize_loop ops limit (out @ [f\<lparr>fe_offset := off\<rparr>]) fs (off + fe_size f) pf)
          = (out @ [f\<lparr>fe_offset := off\<rparr>]) @ new"
      "snd (optimize_loop ops limit (out @ [f\<lparr>fe_offset := off\<rparr>]) fs (off + fe_size f) pf) = off + fe_size f + total_of new"
      "laid_out (off + fe_size f) new" "list_all padding_ok pads" "list_all (aligned limit) new"
      "mset (map without_offset new) = mset (map without_offset fs) + mset (map without_offset pads)"
      "total_of new \<le> total_of fs + alignment * int (length fs)"
      using "2.IH"(3) [OF False] "2.prems" nonneg al unfolding w by (auto simp: alignment_def algebra_simps)
    have "aligned limit (f\<lparr>fe_offset := off\<rparr>)" using False by (auto simp: aligned_def)
    with IH False nonneg al show ?thesis
      by (intro exI [of _ "f\<lparr>fe_offset := off\<rparr> # new"] exI [of _ pads]) (auto simp: w algebra_simps)
  next
    case True
    show ?thesis
    proof (cases "best_match pad fs 0 None")
      case None
      define off' where "off' = off + pad"
      let ?p = "padding_entry ops f pad off pf" and ?f = "f\<lparr>fe_offset := off'\<rparr>"
      have w: "int64 (off + pad) = off'" "int64 (off' + fe_size f) = off' + fe_size f"
        using "2.prems" nonneg pad by (auto simp: off'_def alignment_def intro!: int64_id)
      obtain new pads where IH: "fst (optimize_loop ops limit (out @ [?p, ?f]) fs (off' + fe_size f) (int32 (pf + 1))) = (out @ [?p, ?f]) @ new"
        "snd (optimize_loop ops limit (out @ [?p, ?f]) fs (off' + fe_size f) (int32 (pf + 1))) = off' + fe_size f + total_of new"
        "laid_out (off' + fe_size f) new" "list_all padding_ok pads" "list_all (aligned limit) new"
        "mset (map without_offset new) = mset (map without_offset fs) + mset (map without_offset pads)"
        "total_of new \<le> total_of fs + alignment * int (length fs)"
        using "2.IH"(1) [OF True refl None [unfolded pad_def] refl] "2.prems" nonneg pad
        unfolding pad_def [symmetric] w by (auto simp: off'_def alignment_def algebra_simps)
      have p: "fe_size ?p = pad" "fe_offset ?p = off" "padding_ok ?p" "aligned limit ?p" "aligned limit ?f"
        using pad padded by (auto simp: padding_entry_def padding_ok_def aligned_def off'_def)
      have run: "optimize_loop ops limit out (f # fs) off pf =
          optimize_loop ops limit (out @ [?p, ?f]) fs (off' + fe_size f) (int32 (pf + 1))"
        using True None by (simp add: Let_def w flip: pad_def)
      show ?thesis
        unfolding run using IH p nonneg pad
        by (intro exI [of _ "?p # ?f # new"] exI [of _ "?p # pads"])
          (auto simp: off'_def algebra_simps)
    next
      case (Some j)
      have j: "j < length fs" "fe_size (fs ! j) \<le> pad"
        using best_match_bound [OF Some] best_match_fits [OF Some] by auto
      let ?g = "fs ! j" and ?gs = "f # erase_nth j fs"
      have g: "0 \<le> fe_size ?g" using j "2.prems"(1) by auto
      have ms: "mset fs = add_mset ?g (mset (erase_nth j fs))" by (rule mset_erase_nth [OF j(1)])
      have tot: "total_of fs = fe_size ?g + total_of (erase_nth j fs)"
        by (simp add: total_of_mset ms)
      have len: "length fs = Suc (length (erase_nth j fs))" using j(1) by (auto simp: erase_nth_def)
      have w: "int64 (off + fe_size ?g) = off + fe_size ?g"
        using "2.prems"(2,3) nonneg g j pad tot len by (intro int64_id) (auto simp: alignment_def)
      have "\<forall>x \<in> set (erase_nth j fs). 0 \<le> fe_size x"
        using "2.prems"(1) ms by (metis list.set_intros(2) mset_eq_setD set_mset_add_mset_insert set_mset_mset insertCI)
      then obtain new pads where IH: "fst (optimize_loop ops limit (out @ [?g\<lparr>fe_offset := off\<rparr>]) ?gs (off + fe_size ?g) pf) = (out @ [?g\<lparr>fe_offset := off\<rparr>]) @ new"
        "snd (optimize_loop ops limit (out @ [?g\<lparr>fe_offset := off\<rparr>]) ?gs (off + fe_size ?g) pf) = off + fe_size ?g + total_of new"
        "laid_out (off + fe_size ?g) new" "list_all padding_ok pads" "list_all (aligned limit) new"
        "mset (map without_offset new) = mset (map without_offset ?gs) + mset (map without_offset pads)"
        "total_of new \<le> total_of ?gs + alignment * int (length ?gs)"
        using "2.IH"(2) [OF True refl Some [unfolded pad_def]] "2.prems" nonneg pad tot len g
        unfolding pad_def [symmetric] w by (auto simp: alignment_def algebra_simps)
      have run: "optimize_loop ops limit out (f # fs) off pf =
          optimize_loop ops limit (out @ [?g\<lparr>fe_offset := off\<rparr>]) ?gs (off + fe_size ?g) pf"
        using True Some by (simp add: Let_def w flip: pad_def)
      have "aligned limit (?g\<lparr>fe_offset := off\<rparr>)"
        using j pad True "2.prems"(4) by (auto simp: aligned_def)
      moreover have "mset (map without_offset (f # fs)) =
          add_mset (without_offset ?g) (mset (map without_offset ?gs))"
        by (simp add: ms)
      ultimately show ?thesis
        unfolding run using IH nonneg pad g tot len
        by (intro exI [of _ "?g\<lparr>fe_offset := off\<rparr> # new"] exI [of _ pads]) (auto simp: algebra_simps)
    qed
  qed
qed

lemma max_element_max:
  "fs \<noteq> [] \<Longrightarrow> max_element fs < length fs \<and> (\<forall>g \<in> set fs. fe_size g \<le> fe_size (fs ! max_element fs))"
  by (induction fs rule: max_element.induct) (auto simp: Let_def)

text \<open>
  C10: \<open>optimize\<close> keeps every file and aligns the large ones. Its result is a storage whose
  files again lie one after the other from offset 0 and fill the total size; it has exactly
  the files of the original (their offsets apart) and padding files of at most 8 KiB; with a
  limit, every file larger than the limit (at least 8 KiB) that is not itself a padding file
  starts at a multiple of 8 KiB.
\<close>

theorem optimize_correct:
  assumes "m_files st \<noteq> []" and "\<forall>f \<in> set (m_files st). 0 \<le> fe_size f"
    and "total_of (m_files st) + 8192 * int (length (m_files st)) < 2 ^ 63"
  shows "\<exists>st' pads. optimize ops pad_file_limit st = Inr st' \<and> storage_ok st' \<and>
    mset (map without_offset (m_files st')) =
      mset (map without_offset (m_files st)) + mset (map without_offset pads) \<and>
    (\<forall>p \<in> set pads. fe_pad_file p \<and> 0 < fe_size p \<and> fe_size p \<le> 8192) \<and>
    (0 \<le> pad_file_limit \<longrightarrow> (\<forall>f \<in> set (m_files st').
       fe_size f > max pad_file_limit 8192 \<and> \<not> fe_pad_file f \<longrightarrow> fe_offset f mod 8192 = 0))"
proof -
  let ?fs = "iter_swap (max_element (m_files st)) 0 (m_files st)"
  let ?limit = "if pad_file_limit \<ge> 0 \<and> pad_file_limit < alignment then alignment else pad_file_limit"
  have ms: "mset ?fs = mset (m_files st)"
    using max_element_max [OF assms(1)] assms(1) by (intro mset_iter_swap) auto
  then have fs: "set ?fs = set (m_files st)" "length ?fs = length (m_files st)" "total_of ?fs = total_of (m_files st)"
    by (auto simp: total_of_mset dest: mset_eq_setD mset_eq_length)
  have "\<forall>f \<in> set ?fs. 0 \<le> fe_size f" "0 + total_of ?fs + alignment * int (length ?fs) < 2 ^ 63"
    "?limit < 0 \<or> alignment \<le> ?limit"
    using assms fs by (auto simp: alignment_def)
  from optimize_loop_layout [OF this(1) order_refl this(2,3), of ops "[]" 0]
  obtain new pads where new: "optimize_loop ops ?limit [] ?fs 0 0 = (new, total_of new)" "laid_out 0 new"
    "mset (map without_offset new) = mset (map without_offset ?fs) + mset (map without_offset pads)"
    "list_all padding_ok pads" "list_all (aligned ?limit) new"
    "total_of new \<le> total_of ?fs + alignment * int (length ?fs)"
    by (auto simp: prod_eq_iff)
  have "optimize ops pad_file_limit st = Inr (st\<lparr>m_files := new, m_total_size := total_of new\<rparr>)"
    using assms(1) new(1) by (simp add: optimize_def)
  moreover have "storage_ok (st\<lparr>m_files := new, m_total_size := total_of new\<rparr>)"
    using new fs assms(3) by (simp add: storage_ok_def alignment_def)
  moreover have "mset (map without_offset new) =
      mset (map without_offset (m_files st)) + mset (map without_offset pads)"
    using new(3) ms by simp
  moreover have "\<forall>p \<in> set pads. fe_pad_file p \<and> 0 < fe_size p \<and> fe_size p \<le> 8192"
    using new(4) by (auto simp: list_all_iff padding_ok_def alignment_def)
  moreover have "0 \<le> pad_file_limit \<longrightarrow> (\<forall>f \<in> set new.
       fe_size f > max pad_file_limit 8192 \<and> \<not> fe_pad_file f \<longrightarrow> fe_offset f mod 8192 = 0)"
    using new(5) by (auto simp: list_all_iff aligned_def alignment_def split: if_splits)
  ultimately show ?thesis by (intro exI [of _ "st\<lparr>m_files := new, m_total_size := total_of new\<rparr>"] exI [of _ pads]) simp
qed

theorem optimize_correct_witness:
  "\<exists>st' pads. optimize posix_ops 0 sample_storage = Inr st' \<and> storage_ok st' \<and>
    mset (map without_offset (m_files st')) =
      mset (map without_offset (m_files sample_storage)) + mset (map without_offset pads)"
proof -
  have "m_files sample_storage \<noteq> []" using sample_storage_ok(5) by auto
  moreover have "\<forall>f \<in> set (m_files sample_storage). 0 \<le> fe_size f"
    "total_of (m_files sample_storage) + 8192 * int (length (m_files sample_storage)) < 2 ^ 63"
    by (simp_all add: sample_storage_def add_file_def new_file_storage_def set_piece_length_def Let_def)
  ultimately show ?thesis
    using optimize_correct [of sample_storage posix_ops 0] by blast
qed

end
