(* ===== verification/Paths.thy ===== *)
theory Paths
  imports FileStorage
begin

unbundle bit_operations_syntax

section \<open>Names of files (\<open>libtorrent/src/torrent_info.cpp\<close>)\<close>

text \<open>
  What is done to the names in a torrent before they become paths on disk: the repair of
  strings that are not UTF-8 and the removal of path elements that would leave the download
  directory. Bytes are masked as in the code; the mask of a signed \<open>char\<close> that is promoted to
  \<open>int\<close> with a constant below 256 is the mask of its unsigned value.
\<close>

subsection \<open>UTF-8\<close>

definition convert_to_utf8 :: "string \<Rightarrow> char \<Rightarrow> string" where
  "convert_to_utf8 str c =
     str @ [to_char (0xc0 OR drop_bit 6 (uchar c AND 0xff)), to_char (0x80 OR (uchar c AND 0x3f))]"

definition ascii :: "char \<Rightarrow> bool" where
  "ascii c \<longleftrightarrow> uchar c AND 0x80 = 0"

definition continuation :: "char \<Rightarrow> bool" where
  "continuation c \<longleftrightarrow> uchar c AND 0xc0 = 0x80"

text \<open>\<open>verify_loop\<close> is the loop: the list is the rest of the string from the iterator on.\<close>

fun verify_loop :: "string \<Rightarrow> string \<Rightarrow> bool \<Rightarrow> string \<times> bool" where
  "verify_loop [] tmp_path valid = (tmp_path, valid)"
| "verify_loop (c # s) tmp_path valid =
     (if ascii c then verify_loop s (tmp_path @ [c]) valid
      else case s of
        [] \<Rightarrow> verify_loop s (convert_to_utf8 tmp_path c) False
      | d # s1 \<Rightarrow>
          if uchar c AND 0xe0 = 0xc0 \<and> continuation d then verify_loop s1 (tmp_path @ [c, d]) valid
          else case s1 of
            [] \<Rightarrow> verify_loop s (convert_to_utf8 tmp_path c) False
          | e # s2 \<Rightarrow>
              if uchar c AND 0xf0 = 0xe0 \<and> continuation d \<and> continuation e
              then verify_loop s2 (tmp_path @ [c, d, e]) valid
              else case s2 of
                [] \<Rightarrow> verify_loop s (convert_to_utf8 tmp_path c) False
              | f # s3 \<Rightarrow>
                  if uchar c AND 0xf0 = 0xe0 \<and> continuation d \<and> continuation e \<and> continuation f
                  then verify_loop s3 (tmp_path @ [c, d, e, f]) valid
                  else verify_loop s (convert_to_utf8 tmp_path c) False)"

text \<open>The new value of \<open>target\<close>, and the return value.\<close>

definition verify_encoding :: "string \<Rightarrow> string \<times> bool" where
  "verify_encoding target =
     (let (tmp_path, valid) = verify_loop target [] True in
      (if valid then target else tmp_path, valid))"

definition verify_encoding_file :: "file_entry \<Rightarrow> file_entry" where
  "verify_encoding_file target =
     (let (p, valid) = verify_encoding (fe_path target) in
      if valid then target else target\<lparr>fe_path := p\<rparr>)"

subsection \<open>Path elements\<close>

definition valid_path_element :: "string \<Rightarrow> bool" where
  "valid_path_element element =
     (\<not> (element = [] \<or> element = ''.'' \<or> element = ''..'' \<or> hd element = CHR ''/''
         \<or> hd element = CHR 0x5C \<or> last element = CHR '':''))"

text \<open>\<open>FILENAME_MAX\<close> is 4096 on the platform.\<close>

definition trim_path_element :: "fs_ops \<Rightarrow> string \<Rightarrow> string" where
  "trim_path_element ops path_element =
     (if length path_element > 4096 then
        let ext = path_extension ops path_element in
        if length ext > 15 then take 4096 path_element
        else take (4096 - length ext) path_element @ ext
      else path_element)"

definition sanitize_path :: "fs_ops \<Rightarrow> string \<Rightarrow> string" where
  "sanitize_path ops p =
     fold (\<lambda>element new_path.
         if \<not> valid_path_element element then new_path
         else path_append ops new_path (trim_path_element ops element))
       (path_elements ops p) []"

subsection \<open>The repair of an encoding\<close>

text \<open>
  The repaired string and whether anything was repaired, without the accumulator and without
  the test for sequences of four bytes: that test repeats the one for three bytes and is
  never reached with success.
\<close>

definition two_bytes :: "char \<Rightarrow> char \<Rightarrow> bool" where
  "two_bytes c d \<longleftrightarrow> uchar c AND 0xe0 = 0xc0 \<and> continuation d"

definition three_bytes :: "char \<Rightarrow> char \<Rightarrow> char \<Rightarrow> bool" where
  "three_bytes c d e \<longleftrightarrow> uchar c AND 0xf0 = 0xe0 \<and> continuation d \<and> continuation e"

fun sequence_length :: "string \<Rightarrow> nat" where
  "sequence_length [] = 0"
| "sequence_length (c # s) =
     (if ascii c then 1
      else if s \<noteq> [] \<and> two_bytes c (hd s) then 2
      else if length s \<ge> 2 \<and> three_bytes c (s ! 0) (s ! 1) then 3
      else 0)"

function repaired :: "string \<Rightarrow> string" where
  "repaired [] = []"
| "repaired (c # s) =
     (case sequence_length (c # s) of
        0 \<Rightarrow> convert_to_utf8 [] c @ repaired s
      | Suc n \<Rightarrow> c # take n s @ repaired (drop n s))"
  by pat_completeness auto

termination by (relation "measure length") auto

function all_sequences :: "string \<Rightarrow> bool" where
  "all_sequences [] = True"
| "all_sequences (c # s) =
     (case sequence_length (c # s) of
        0 \<Rightarrow> False
      | Suc n \<Rightarrow> all_sequences (drop n s))"
  by pat_completeness auto

termination by (relation "measure length") auto

declare verify_loop.simps(2) [simp del] repaired.simps(2) [simp del] all_sequences.simps(2) [simp del]

lemma convert_to_utf8_append: "convert_to_utf8 str c = str @ convert_to_utf8 [] c"
  by (simp add: convert_to_utf8_def)

lemma repaired_cases:
  "ascii c \<Longrightarrow> repaired (c # s) = c # repaired s"
  "\<not> ascii c \<Longrightarrow> two_bytes c d \<Longrightarrow> repaired (c # d # s) = c # d # repaired s"
  "\<not> ascii c \<Longrightarrow> \<not> two_bytes c d \<Longrightarrow> three_bytes c d e \<Longrightarrow> repaired (c # d # e # s) = c # d # e # repaired s"
  "\<not> ascii c \<Longrightarrow> s = [] \<or> \<not> two_bytes c (hd s) \<Longrightarrow> length s < 2 \<or> \<not> three_bytes c (s ! 0) (s ! 1) \<Longrightarrow>
     repaired (c # s) = convert_to_utf8 [] c @ repaired s"
  by (auto simp: repaired.simps eval_nat_numeral)

lemma all_sequences_cases:
  "ascii c \<Longrightarrow> all_sequences (c # s) = all_sequences s"
  "\<not> ascii c \<Longrightarrow> two_bytes c d \<Longrightarrow> all_sequences (c # d # s) = all_sequences s"
  "\<not> ascii c \<Longrightarrow> \<not> two_bytes c d \<Longrightarrow> three_bytes c d e \<Longrightarrow> all_sequences (c # d # e # s) = all_sequences s"
  "\<not> ascii c \<Longrightarrow> s = [] \<or> \<not> two_bytes c (hd s) \<Longrightarrow> length s < 2 \<or> \<not> three_bytes c (s ! 0) (s ! 1) \<Longrightarrow>
     \<not> all_sequences (c # s)"
  by (auto simp: all_sequences.simps eval_nat_numeral)

lemma sequence_cases [case_names ascii two three bad]:
  obtains "ascii c"
    | d s2 where "\<not> ascii c" "s1 = d # s2" "two_bytes c d"
    | d e s3 where "\<not> ascii c" "s1 = d # e # s3" "\<not> two_bytes c d" "three_bytes c d e"
    | "\<not> ascii c" "s1 = [] \<or> \<not> two_bytes c (hd s1)" "length s1 < 2 \<or> \<not> three_bytes c (s1 ! 0) (s1 ! 1)"
  by (cases s1; cases "tl s1") auto

lemma verify_loop_repaired:
  "verify_loop s tmp_path valid = (tmp_path @ repaired s, valid \<and> all_sequences s)"
proof (induction s arbitrary: tmp_path valid rule: length_induct)
  case (1 s)
  then have IH: "verify_loop t tmp v = (tmp @ repaired t, v \<and> all_sequences t)" if "length t < length s" for t tmp v
    using that by blast
  show ?case
  proof (cases s)
    case (Cons c s1)
    note conv = convert_to_utf8_append [of tmp_path c] and step = verify_loop.simps(2) [of c s1 tmp_path valid]
    show ?thesis
    proof (cases rule: sequence_cases [where c = c and ?s1.0 = s1])
      case ascii
      with step IH Cons show ?thesis by (simp add: repaired_cases all_sequences_cases)
    next
      case two
      with step IH Cons show ?thesis by (simp add: repaired_cases all_sequences_cases two_bytes_def)
    next
      case three
      with step IH Cons show ?thesis by (simp add: repaired_cases all_sequences_cases two_bytes_def three_bytes_def)
    next
      case bad
      have "verify_loop s tmp_path valid = verify_loop s1 (convert_to_utf8 tmp_path c) False"
        using bad unfolding Cons step by (auto simp: two_bytes_def three_bytes_def split: list.split)
      with bad IH Cons show ?thesis by (simp add: repaired_cases all_sequences_cases conv)
    qed
  qed simp
qed

lemma byte_classes:
  "\<forall>c. two_bytes (convert_to_utf8 [] c ! 0) (convert_to_utf8 [] c ! 1) \<and>
       \<not> ascii (convert_to_utf8 [] c ! 0) \<and> \<not> ascii (convert_to_utf8 [] c ! 1)"
  "\<forall>c. continuation c \<longrightarrow> \<not> ascii c"
  by code_simp+

lemma convert_to_utf8_pair:
  obtains a b where "convert_to_utf8 [] c = [a, b]" "two_bytes a b" "\<not> ascii a" "\<not> ascii b"
  using byte_classes(1) [rule_format, of c] by (auto simp: convert_to_utf8_def)

lemma not_ascii_parts:
  "two_bytes c d \<Longrightarrow> \<not> ascii d" "three_bytes c d e \<Longrightarrow> \<not> ascii d" "three_bytes c d e \<Longrightarrow> \<not> ascii e"
  using byte_classes(2) by (auto simp: two_bytes_def three_bytes_def)

text \<open>Induction over the sequences of a string, as the loop takes it apart.\<close>

lemma sequences_induct [case_names none ascii two three bad]:
  assumes "P []"
    and step_ascii: "\<And>c s. ascii c \<Longrightarrow> P s \<Longrightarrow> P (c # s)"
    and step_two: "\<And>c d s. \<not> ascii c \<Longrightarrow> two_bytes c d \<Longrightarrow> P s \<Longrightarrow> P (c # d # s)"
    and step_three: "\<And>c d e s. \<not> ascii c \<Longrightarrow> \<not> two_bytes c d \<Longrightarrow> three_bytes c d e \<Longrightarrow> P s \<Longrightarrow> P (c # d # e # s)"
    and step_bad: "\<And>c s. \<not> ascii c \<Longrightarrow> s = [] \<or> \<not> two_bytes c (hd s) \<Longrightarrow>
       length s < 2 \<or> \<not> three_bytes c (s ! 0) (s ! 1) \<Longrightarrow> P s \<Longrightarrow> P (c # s)"
  shows "P s"
proof (induction s rule: length_induct)
  case (1 s)
  show ?case
  proof (cases s)
    case (Cons c s1)
    then have IH: "P t" if "length t < Suc (length s1)" for t using 1 that by simp
    show ?thesis
    proof (cases rule: sequence_cases [where c = c and ?s1.0 = s1])
      case ascii
      then show ?thesis using step_ascii IH [of s1] Cons by simp
    next
      case (two d s2)
      then show ?thesis using step_two IH [of s2] Cons by simp
    next
      case (three d e s3)
      then show ?thesis using step_three IH [of s3] Cons by simp
    next
      case bad
      then show ?thesis using step_bad IH [of s1] Cons by simp
    qed
  qed (use assms(1) in simp)
qed

lemma all_sequences_repaired: "all_sequences (repaired s)"
proof (induction s rule: sequences_induct)
  case (bad c s)
  then show ?case by (rule_tac c = c in convert_to_utf8_pair) (simp add: repaired_cases all_sequences_cases)
qed (simp_all add: repaired_cases all_sequences_cases)

lemma repaired_all_sequences: "all_sequences s \<Longrightarrow> repaired s = s"
  by (induction s rule: sequences_induct) (simp_all add: repaired_cases all_sequences_cases)

lemma filter_ascii_repaired: "filter ascii (repaired s) = filter ascii s"
proof (induction s rule: sequences_induct)
  case (bad c s)
  then show ?case by (rule_tac c = c in convert_to_utf8_pair) (simp add: repaired_cases)
qed (simp_all add: repaired_cases not_ascii_parts)

lemma verify_encoding_repaired: "verify_encoding s = (repaired s, all_sequences s)"
  by (auto simp: verify_encoding_def verify_loop_repaired repaired_all_sequences)

text \<open>
  C30: The repair of an encoding gives a string that needs none: verifying the result of
  \<open>verify_encoding\<close> accepts it and leaves it as it is. The repair neither adds nor removes nor
  reorders characters of the ASCII range, so that it cannot make a path separator or a dot, and
  the strings that are accepted are the ones it does not change.
\<close>

theorem verify_encoding_repairs:
  "verify_encoding (fst (verify_encoding s)) = (fst (verify_encoding s), True) \<and>
   filter ascii (fst (verify_encoding s)) = filter ascii s \<and>
   (snd (verify_encoding s) \<longleftrightarrow> fst (verify_encoding s) = s)"
proof -
  have "all_sequences s" if "repaired s = s" using all_sequences_repaired [of s] that by simp
  then show ?thesis
    by (auto simp: verify_encoding_repaired all_sequences_repaired repaired_all_sequences filter_ascii_repaired)
qed

text \<open>
  Characters of four bytes are not recognised: the test for them repeats the mask of three
  bytes, and the well-formed encoding of U+1F600 is rejected and each of its bytes replaced by
  the encoding of a Latin-1 character.
\<close>

theorem verify_encoding_four_bytes:
  "verify_encoding [CHR 0xF0, CHR 0x9F, CHR 0x98, CHR 0x80] =
     ([CHR 0xC3, CHR 0xB0, CHR 0xC2, CHR 0x9F, CHR 0xC2, CHR 0x98, CHR 0xC2, CHR 0x80], False)"
  by code_simp

subsection \<open>Paths that stay inside\<close>

text \<open>
  A path is inside a directory when it is empty or a sequence of names none of which is empty,
  a dot or two dots: it is relative and never goes up.
\<close>

definition plain_name :: "string \<Rightarrow> bool" where
  "plain_name x \<longleftrightarrow> x \<noteq> [] \<and> x \<noteq> ''.'' \<and> x \<noteq> ''..'' \<and> CHR ''/'' \<notin> set x"

definition inside :: "string \<Rightarrow> bool" where
  "inside p \<longleftrightarrow> p = [] \<or> list_all plain_name (split_slash p)"

lemma split_slash_nonempty [simp]: "split_slash s \<noteq> []"
  by (cases s) auto

lemma split_slash_free: "CHR ''/'' \<notin> set s \<Longrightarrow> split_slash s = [s]"
  by (induction s) auto

lemma split_slash_append:
  "split_slash (p @ q) =
     butlast (split_slash p) @ (last (split_slash p) @ hd (split_slash q)) # tl (split_slash q)"
proof (induction p)
  case (Cons c p)
  then show ?case by (cases "split_slash p") auto
qed simp

lemma split_slash_elements: "x \<in> set (split_slash s) \<Longrightarrow> CHR ''/'' \<notin> set x"
proof (induction s arbitrary: x)
  case (Cons c s)
  then show ?case by (cases "split_slash s") (auto split: if_splits)
qed simp

lemma split_slash_snoc: "CHR ''/'' \<notin> set q \<Longrightarrow> split_slash (p @ CHR ''/'' # q) = split_slash p @ [q]"
  by (simp add: split_slash_append split_slash_free)

lemma split_slash_head: "split_slash s = x # xs \<Longrightarrow> x = takeWhile (\<lambda>c. c \<noteq> CHR ''/'') s"
proof (induction s arbitrary: x xs)
  case (Cons c s)
  then show ?case by (cases "split_slash s") (auto split: if_splits)
qed simp

lemma inside_relative: "inside p \<Longrightarrow> p \<noteq> [] \<Longrightarrow> hd p \<noteq> CHR ''/''"
  by (cases p) (auto simp: inside_def plain_name_def split: if_splits)

lemma inside_last: "inside p \<Longrightarrow> p \<noteq> [] \<Longrightarrow> last p \<noteq> CHR ''/''"
proof
  assume p: "inside p" "p \<noteq> []" "last p = CHR ''/''"
  then obtain q where "p = q @ CHR ''/'' # []" by (metis append_butlast_last_id)
  with p(1) show False using split_slash_snoc [of "[]" q] by (simp add: inside_def plain_name_def)
qed

lemma inside_append:
  assumes "inside p" and "plain_name q"
  shows "inside (posix_append p q)"
proof (cases "p = []")
  case True
  then show ?thesis using assms(2) by (simp add: inside_def posix_append_def split_slash_free plain_name_def)
next
  case False
  have q: "q \<noteq> [] \<and> hd q \<noteq> CHR ''/'' \<and> CHR ''/'' \<notin> set q"
    using assms(2) by (cases q) (auto simp: plain_name_def)
  then have "posix_append p q = p @ CHR ''/'' # q"
    using inside_last [OF assms(1) False] False by (simp add: posix_append_def)
  then show ?thesis
    using assms False q by (simp add: inside_def split_slash_snoc)
qed

lemma ascii_slash: "\<not> ascii c \<Longrightarrow> c \<noteq> CHR ''/''"
proof -
  have "ascii (CHR ''/'')" by code_simp
  then show "\<not> ascii c \<Longrightarrow> c \<noteq> CHR ''/''" by auto
qed

lemma split_slash_repaired: "split_slash (repaired s) = map repaired (split_slash s)"
proof (induction s rule: sequences_induct)
  case (bad c s)
  obtain a b where ab: "convert_to_utf8 [] c = [a, b]" "\<not> ascii a" "\<not> ascii b"
    by (rule convert_to_utf8_pair)
  obtain x xs where s: "split_slash s = x # xs" by (cases "split_slash s") auto
  have x: "x = takeWhile (\<lambda>c. c \<noteq> CHR ''/'') s" using split_slash_head [OF s] .
  have hd: "hd x = hd s \<and> s \<noteq> []" if "x \<noteq> []" using that x by (cases s) (auto split: if_splits)
  have nth: "x ! 0 = s ! 0 \<and> x ! 1 = s ! 1 \<and> length s \<ge> 2" if "length x \<ge> 2"
    using that unfolding x
    using takeWhile_nth [of 0 "\<lambda>c. c \<noteq> CHR ''/''" s] takeWhile_nth [of 1 "\<lambda>c. c \<noteq> CHR ''/''" s]
      length_takeWhile_le [of "\<lambda>c. c \<noteq> CHR ''/''" s]
    by (cases "takeWhile (\<lambda>c. c \<noteq> CHR ''/'') s = []") (simp_all del: One_nat_def)
  have "x = [] \<or> \<not> two_bytes c (hd x)" using bad(2) hd by (cases "x = []") simp_all
  moreover have "length x < 2 \<or> \<not> three_bytes c (x ! 0) (x ! 1)"
    using bad(3) nth by (cases "length x < 2") simp_all
  ultimately have "repaired (c # x) = a # b # repaired x" using bad(1) ab(1) by (simp add: repaired_cases)
  moreover have "repaired (c # s) = a # b # repaired s" using bad ab(1) by (simp add: repaired_cases)
  ultimately show ?case using s bad(1,4) ab(2,3) by (simp add: ascii_slash)
next
  case none
  then show ?case by simp
next
  case (ascii c s)
  then show ?case by (cases "split_slash s") (auto simp: repaired_cases)
next
  case (two c d s)
  then show ?case
    using not_ascii_parts(1) [OF two(2)] by (cases "split_slash s") (simp_all add: repaired_cases ascii_slash)
next
  case (three c d e s)
  then show ?case
    using not_ascii_parts(2,3) [OF three(3)] by (cases "split_slash s") (simp_all add: repaired_cases ascii_slash)
qed

lemma plain_name_repaired: "plain_name x \<Longrightarrow> plain_name (repaired x)"
proof -
  assume x: "plain_name x"
  have "CHR ''/'' \<notin> set (repaired x)"
  proof -
    have "split_slash x = [x]" using x by (simp add: plain_name_def split_slash_free)
    then have "split_slash (repaired x) = [repaired x]" by (simp add: split_slash_repaired)
    then show ?thesis by (metis list.set_intros(1) split_slash_elements)
  qed
  moreover have "repaired x \<noteq> t" if t: "t = [] \<or> t = ''.'' \<or> t = ''..''" for t
  proof
    assume r: "repaired x = t"
    have "ascii (CHR ''.'')" by code_simp
    with t have "filter ascii t = t" by auto
    with r have "filter ascii x = repaired x" using filter_ascii_repaired [of x] by simp
    moreover have "length (filter ascii x) < length x" if "\<exists>c \<in> set x. \<not> ascii c"
      using that by (meson length_filter_less)
    moreover have "length x \<le> length (repaired x)"
    proof (induction x rule: sequences_induct)
      case (bad c s)
      then show ?case by (rule_tac c = c in convert_to_utf8_pair) (simp add: repaired_cases)
    qed (simp_all add: repaired_cases)
    ultimately have "\<forall>c \<in> set x. ascii c" by fastforce
    then have "filter ascii x = x" by simp
    with \<open>filter ascii x = repaired x\<close> r t x show False by (auto simp: plain_name_def)
  qed
  ultimately show ?thesis by (simp add: plain_name_def)
qed

lemma inside_repaired: "inside p \<Longrightarrow> inside (repaired p)"
  by (auto simp: inside_def split_slash_repaired list_all_iff plain_name_repaired)

lemma posix_elements_names:
  "x \<in> set (posix_elements p) \<Longrightarrow> valid_path_element x \<Longrightarrow> CHR ''/'' \<notin> set x"
proof -
  have rel: "CHR ''/'' \<notin> set y" if "y \<in> set (relative_elements q)" for y q
    using that split_slash_elements [of y q] by (auto simp: relative_elements_def Let_def split: if_splits)
  have root: "\<not> valid_path_element (CHR ''/'' # y)" for y by (simp add: valid_path_element_def)
  show "x \<in> set (posix_elements p) \<Longrightarrow> valid_path_element x \<Longrightarrow> CHR ''/'' \<notin> set x"
    using rel [of x] root by (auto simp: posix_elements_def Let_def split: if_splits)
qed

lemma posix_extension_suffix:
  obtains stem where "last (split_slash p) = stem @ posix_extension p"
proof (cases "CHR ''.'' \<in> set (last (split_slash p))")
  case True
  then obtain ys zs where "last (split_slash p) = ys @ CHR ''.'' # zs" "CHR ''.'' \<notin> set zs"
    by (meson split_list_last)
  moreover have "takeWhile (\<lambda>c. c \<noteq> CHR ''.'') (rev zs @ CHR ''.'' # rev ys) = rev zs"
    using calculation(2) takeWhile_miss [of "CHR ''.''" "rev zs"] by simp
  ultimately have "last (split_slash p) = ys @ posix_extension p"
    by (simp add: posix_extension_def Let_def)
  with that show thesis .
next
  case False
  with that show thesis by (simp add: posix_extension_def Let_def)
qed

lemma split_slash_leaf:
  obtains pre where "p = pre @ last (split_slash p)" "last (split_slash pre) = []"
    "butlast (split_slash p) = butlast (split_slash pre)" "CHR ''/'' \<notin> set (last (split_slash p))"
proof (cases "CHR ''/'' \<in> set p")
  case True
  then obtain ys zs where p: "p = ys @ CHR ''/'' # zs" "CHR ''/'' \<notin> set zs" by (meson split_list_last)
  then have "split_slash p = split_slash ys @ [zs]" "split_slash (ys @ ''/'') = split_slash ys @ [[]]"
    by (simp_all add: split_slash_snoc)
  with p that [of "ys @ ''/''"] show thesis by simp
next
  case False
  with that [of "[]"] show thesis by (simp add: split_slash_free)
qed

text \<open>Replacing the extension of a path changes the end of its last name.\<close>

lemma inside_replace_extension:
  assumes "inside p" and "e = ''.'' @ ds @ posix_extension p" and "ds \<noteq> []" "\<forall>d \<in> set ds. is_digit d"
  shows "inside (posix_replace_extension p e)"
proof -
  obtain pre where pre: "p = pre @ last (split_slash p)" "last (split_slash pre) = []"
    "butlast (split_slash p) = butlast (split_slash pre)" "CHR ''/'' \<notin> set (last (split_slash p))"
    by (rule split_slash_leaf)
  obtain stem where stem: "last (split_slash p) = stem @ posix_extension p" by (rule posix_extension_suffix)
  let ?name = "stem @ ''.'' @ ds @ posix_extension p"
  obtain d ds' where d: "ds = d # ds'" using assms(3) by (cases ds) auto
  then have digit: "is_digit d" using assms(4) by simp
  have "CHR ''/'' \<notin> set ?name"
    using pre(4) stem assms(4) by (auto simp: is_digit_iff schar_def uchar_def)
  moreover have "?name \<noteq> ''.''" "?name \<noteq> ''..''"
    using digit by (auto simp: d append_eq_Cons_conv is_digit_iff schar_def uchar_def)
  ultimately have name: "plain_name ?name" by (simp add: plain_name_def)
  have "posix_replace_extension p e = pre @ ?name"
  proof -
    have "take (length p - length (posix_extension p)) p = pre @ stem"
    proof -
      have "p = (pre @ stem) @ posix_extension p" using pre(1) stem by simp
      then show ?thesis by (metis append_eq_conv_conj diff_add_inverse2 length_append)
    qed
    then show ?thesis by (simp add: posix_replace_extension_def assms(2))
  qed
  moreover have "split_slash (pre @ ?name) = butlast (split_slash pre) @ [?name]"
    using split_slash_append [of pre ?name] split_slash_free [of ?name] name pre(2)
    by (simp only: plain_name_def list.sel append_Nil) simp
  moreover have "list_all plain_name (butlast (split_slash pre))"
    using assms(1) pre(3) by (auto simp: inside_def list_all_iff in_set_butlastD)
  ultimately show ?thesis using name by (simp add: inside_def)
qed

subsection \<open>What the code relies on from \<open>boost::filesystem\<close>\<close>

text \<open>
  The interface: iterating over a path, appending to it, its extension and the replacement
  of the extension follow the POSIX grammar.
\<close>

locale path_grammar =
  fixes ops :: fs_ops
  assumes elements: "path_elements ops p = posix_elements p"
    and append: "path_append ops p q = posix_append p q"
    and extension: "path_extension ops p = posix_extension p"
    and replace: "replace_extension ops p e = posix_replace_extension p e"
begin

lemma trim_plain:
  assumes "valid_path_element x" and "CHR ''/'' \<notin> set x"
  shows "plain_name (trim_path_element ops x)"
proof (cases "length x > 4096")
  case True
  let ?ext = "posix_extension x"
  obtain stem where stem: "x = stem @ ?ext"
    using posix_extension_suffix [of x] assms(2) by (auto simp: split_slash_free)
  have names: "plain_name y" if "set y \<subseteq> set x" "length y > 2" for y
    using that assms(2) by (auto simp: plain_name_def)
  show ?thesis
  proof (cases "length ?ext > 15")
    case long: True
    have "plain_name (take 4096 x)" using True set_take_subset [of 4096 x] by (intro names) simp_all
    then show ?thesis using True long by (simp add: trim_path_element_def extension)
  next
    case False
    have "set ?ext \<subseteq> set x" by (subst (2) stem) simp
    then have "plain_name (take (4096 - length ?ext) x @ ?ext)"
      using True False set_take_subset [of "4096 - length ?ext" x] by (intro names) simp_all
    then show ?thesis using True False by (simp add: trim_path_element_def extension Let_def)
  qed
next
  case False
  then show ?thesis using assms by (simp add: trim_path_element_def plain_name_def valid_path_element_def)
qed

lemma sanitize_inside: "inside (sanitize_path ops p)"
proof -
  have "inside (fold (\<lambda>element new_path.
         if \<not> valid_path_element element then new_path
         else path_append ops new_path (trim_path_element ops element)) es new_path)"
    if "set es \<subseteq> set (posix_elements p)" "inside new_path" for es new_path
    using that
  proof (induction es arbitrary: new_path)
    case (Cons x es)
    then show ?case
      using posix_elements_names [of x p] by (auto simp: append inside_append trim_plain)
  qed simp
  then show ?thesis by (simp add: sanitize_path_def elements inside_def)
qed

lemma verified_inside: "inside (fe_path e) \<Longrightarrow> inside (fe_path (verify_encoding_file e))"
  using inside_repaired [of "fe_path e"] by (simp add: verify_encoding_file_def verify_encoding_repaired Let_def)

lemma renamed_inside:
  "inside p \<Longrightarrow> inside (replace_extension ops p (take 14 (''.'' @ decimal n) @ path_extension ops p))"
proof -
  have "take 13 (decimal n) \<noteq> []" by simp
  moreover have "\<forall>d \<in> set (take 13 (decimal n)). is_digit d" by (meson decimal_digits in_set_takeD)
  ultimately show "inside p \<Longrightarrow> inside (replace_extension ops p (take 14 (''.'' @ decimal n) @ path_extension ops p))"
    using inside_replace_extension [of p _ "take 13 (decimal n)"] by (simp add: replace extension)
qed

end

interpretation posix: path_grammar posix_ops
  by unfold_locales (simp_all add: posix_ops_def)

end
