(* ===== verification/Merkle.thy ===== *)
theory Merkle
  imports Prelude
begin

section \<open>Merkle trees of piece hashes (\<open>libtorrent/src/torrent_info.cpp\<close>)\<close>

text \<open>
  The tree is an array of 20-byte hashes: the root first, the children of node \<open>n\<close> at
  \<open>2 * n + 1\<close> and \<open>2 * n + 2\<close>, and a leaf per piece from \<open>m_merkle_first_leaf\<close> on. The
  \<open>std::map\<close> of a sub-tree is a finite map from node numbers to hashes. The hash function is
  a parameter. Node numbers are \<open>int\<close>s; the shifts and sums of the code wrap around.
\<close>

type_synonym sha1_hash = string

type_synonym subtree = "(int \<times> sha1_hash) list"

definition merkle_get_parent :: "int \<Rightarrow> int" where
  "merkle_get_parent tree_node = int32 (tree_node - 1) sdiv 2"

definition merkle_get_sibling :: "int \<Rightarrow> int" where
  "merkle_get_sibling tree_node = int32 (tree_node + (if tree_node mod 2 = 1 then 1 else - 1))"

definition merkle_num_nodes :: "int \<Rightarrow> int" where
  "merkle_num_nodes leafs = int32 (int32 (leafs * 2) - 1)"

text \<open>The loop counts the bits of \<open>pieces\<close>; the last shift is by that count.\<close>

function merkle_bits :: "int \<Rightarrow> nat" where
  "merkle_bits pieces = (if pieces > 0 then Suc (merkle_bits (pieces div 2)) else 0)"
  by auto

termination by (relation "measure nat") auto

declare merkle_bits.simps [simp del]

definition merkle_num_leafs :: "int \<Rightarrow> int" where
  "merkle_num_leafs pieces = int32 (2 ^ merkle_bits pieces)"

lemma merkle_parent_value: "0 < n \<Longrightarrow> n < 2 ^ 31 \<Longrightarrow> merkle_get_parent n = (n - 1) div 2"
  by (simp add: merkle_get_parent_def int32_id sdiv_nonneg)

text \<open>
  \<open>to_add\<close> collects the nodes on the way to the root. The result of the loop is \<open>None\<close> where a
  sibling is missing, and the hash that was computed for the root otherwise. An insertion
  with \<open>operator[]\<close> overwrites. An \<open>int\<close> is below \<open>2 ^ 31\<close>; the second test is there for the
  function to be total.
\<close>

function merkle_climb :: "(string \<Rightarrow> sha1_hash) \<Rightarrow> subtree \<Rightarrow> int \<Rightarrow> sha1_hash \<Rightarrow> subtree
    \<Rightarrow> (sha1_hash \<times> subtree) option" where
  "merkle_climb hash nodes n h to_add =
     (if n > 0 \<and> n < 2 ^ 31 then
        let sibling = merkle_get_sibling n;
            parent = merkle_get_parent n
        in case map_of nodes sibling of
             None \<Rightarrow> None
           | Some sibling_hash \<Rightarrow>
               merkle_climb hash nodes parent
                 (if sibling < n then hash (sibling_hash @ h) else hash (h @ sibling_hash))
                 ((sibling, sibling_hash) # (n, h) # to_add)
      else Some (h, to_add))"
  by auto

termination
  by (relation "measure (\<lambda>(_, _, n, _, _). nat n)") (auto simp: merkle_parent_value)

declare merkle_climb.simps [simp del]

text \<open>The loop over \<open>to_add\<close>, which is sorted by node number; keys are distinct there.\<close>

definition store_nodes :: "subtree \<Rightarrow> sha1_hash list \<Rightarrow> sha1_hash list result" where
  "store_nodes to_add tree =
     fold_result (\<lambda>(n, h) t. if 0 \<le> n \<and> n < int (length t) then Inr (t[nat n := h]) else Inl Out_of_bounds)
       to_add tree"

definition add_merkle_nodes :: "(string \<Rightarrow> sha1_hash) \<Rightarrow> int \<Rightarrow> subtree \<Rightarrow> int \<Rightarrow> sha1_hash list
    \<Rightarrow> (bool \<times> sha1_hash list) result" where
  "add_merkle_nodes hash first_leaf nodes piece tree =
     (let n = int32 (first_leaf + piece) in
      case map_of nodes n of
        None \<Rightarrow> Inr (False, tree)
      | Some h \<Rightarrow>
          (case merkle_climb hash nodes n h [] of
             None \<Rightarrow> Inr (False, tree)
           | Some (h', to_add) \<Rightarrow>
               bind_result (read_at tree 0) (\<lambda>root.
                 if h' \<noteq> root then Inr (False, tree)
                 else bind_result (store_nodes (rev to_add) tree) (\<lambda>t. Inr (True, t)))))"

text \<open>\<open>build_merkle_list\<close>: newer entries shadow older ones.\<close>

function merkle_collect :: "sha1_hash list \<Rightarrow> int \<Rightarrow> subtree \<Rightarrow> subtree result" where
  "merkle_collect tree n ret =
     (if n > 0 \<and> n < 2 ^ 31 then
        bind_result (read_at tree (merkle_get_sibling n)) (\<lambda>s.
          merkle_collect tree (merkle_get_parent n) ((merkle_get_sibling n, s) # ret))
      else Inr ret)"
  by auto

termination
  by (relation "measure (\<lambda>(_, n, _). nat n)") (auto simp: merkle_parent_value)

declare merkle_collect.simps [simp del]

definition build_merkle_list :: "int \<Rightarrow> sha1_hash list \<Rightarrow> int \<Rightarrow> subtree result" where
  "build_merkle_list first_leaf tree piece =
     (let n = int32 (first_leaf + piece) in
      bind_result (read_at tree n) (\<lambda>h.
      bind_result (read_at tree 0) (\<lambda>root.
        merkle_collect tree n [(0, root), (n, h)])))"

subsection \<open>Shape of the tree\<close>

lemma merkle_bits_bound: "0 \<le> p \<Longrightarrow> p < 2 ^ merkle_bits p \<and> (p = 0 \<or> 2 ^ merkle_bits p \<le> 2 * p)"
proof (induction p rule: merkle_bits.induct)
  case (1 p)
  show ?case
  proof (cases "p > 0")
    case True
    then have IH: "p div 2 < 2 ^ merkle_bits (p div 2)" "p div 2 = 0 \<or> 2 ^ merkle_bits (p div 2) \<le> 2 * (p div 2)"
      using 1 by auto
    have "merkle_bits p = Suc (merkle_bits (p div 2))" using True by (simp add: merkle_bits.simps [of p])
    moreover have "2 ^ merkle_bits (p div 2) \<le> p"
      using IH(2) True by (cases "p div 2 = 0") (auto simp: merkle_bits.simps [of 0])
    ultimately show ?thesis using IH(1) by simp
  qed (use 1 in \<open>simp add: merkle_bits.simps\<close>)
qed

lemma merkle_sibling_value:
  "0 < n \<Longrightarrow> n < 2 ^ 31 - 1 \<Longrightarrow> merkle_get_sibling n = (if odd n then n + 1 else n - 1)"
  by (auto simp: merkle_get_sibling_def int32_id odd_iff_mod_2_eq_one)

text \<open>
  The shape of the tree for a number of pieces below \<open>2 ^ 29\<close>: the number of leaves is a
  power of two, more than there are pieces and at most twice as many, the number of nodes is
  one less than twice that, and the leaf of every piece is a node of the tree.
\<close>

theorem merkle_shape:
  assumes "0 < pieces" "pieces < 2 ^ 29"
  defines "leafs \<equiv> merkle_num_leafs pieces"
  shows "(\<exists>k. leafs = 2 ^ k) \<and> pieces < leafs \<and> leafs \<le> 2 * pieces \<and>
    merkle_num_nodes leafs = 2 * leafs - 1 \<and>
    (\<forall>i. 0 \<le> i \<and> i < pieces \<longrightarrow> merkle_num_nodes leafs - leafs + i < merkle_num_nodes leafs)"
proof -
  have b: "pieces < 2 ^ merkle_bits pieces" "2 ^ merkle_bits pieces \<le> 2 * pieces"
    using merkle_bits_bound [of pieces] assms by auto
  then have "leafs = 2 ^ merkle_bits pieces"
    using assms unfolding leafs_def merkle_num_leafs_def by (intro int32_id) auto
  moreover from this have "merkle_num_nodes leafs = 2 * leafs - 1"
    using b assms unfolding merkle_num_nodes_def by (simp add: int32_id)
  ultimately show ?thesis using b by auto
qed

theorem merkle_shape_witness: "merkle_num_leafs 4 = 8 \<and> merkle_num_nodes 8 = 15 \<and> 7 + 3 < (15 :: int)"
proof -
  have "merkle_num_leafs 4 = 8" "merkle_num_nodes 8 = 15" by code_simp+
  with merkle_shape [of 4] show ?thesis by auto
qed

text \<open>
  A tree in which every inner node is the hash of its children.
\<close>

definition child_pair :: "sha1_hash list \<Rightarrow> nat \<Rightarrow> string" where
  "child_pair tree m = tree ! (2 * m + 1) @ tree ! (2 * m + 2)"

definition merkle_ok :: "(string \<Rightarrow> sha1_hash) \<Rightarrow> sha1_hash list \<Rightarrow> bool" where
  "merkle_ok hash tree \<longleftrightarrow>
     odd (length tree) \<and> length tree < 2 ^ 31 - 1 \<and> list_all (\<lambda>h. length h = 20) tree \<and>
     list_all (\<lambda>m. tree ! m = hash (child_pair tree m)) [0..<length tree div 2]"

lemma merkle_ok_node:
  assumes "merkle_ok hash tree" and "2 * m + 2 < length tree"
  shows "tree ! m = hash (child_pair tree m)"
  using assms by (auto simp: merkle_ok_def list_all_iff)

lemma merkle_ok_length: "merkle_ok hash tree \<Longrightarrow> m < length tree \<Longrightarrow> length (tree ! m) = 20"
  by (simp add: merkle_ok_def list_all_length)

text \<open>A node below the root is the left or the right child of its parent.\<close>

lemma merkle_node_cases:
  assumes "odd (length tree)" "length tree < 2 ^ 31 - 1" "k < length tree" "0 < k"
  obtains (left) p where "k = 2 * p + 1" "2 * p + 2 < length tree"
      "merkle_get_sibling (int k) = int (2 * p + 2)" "merkle_get_parent (int k) = int p"
    | (right) p where "k = 2 * p + 2" "2 * p + 2 < length tree"
      "merkle_get_sibling (int k) = int (2 * p + 1)" "merkle_get_parent (int k) = int p"
proof (cases "odd k")
  case True
  then obtain p where p: "k = 2 * p + 1" by (auto elim: oddE)
  then have "2 * p + 2 < length tree" using assms(1,3) by presburger
  moreover have "merkle_get_sibling (int k) = int (2 * p + 2)" "merkle_get_parent (int k) = int p"
    using p assms by (simp_all add: merkle_sibling_value merkle_parent_value)
  ultimately show thesis using p left by blast
next
  case False
  with assms(4) have "k = 2 * (k div 2 - 1) + 2" by presburger
  then obtain p where p: "k = 2 * p + 2" by blast
  moreover have "merkle_get_sibling (int k) = int (2 * p + 1)" "merkle_get_parent (int k) = int p"
    using p assms by (simp_all add: merkle_sibling_value merkle_parent_value)
  ultimately show thesis using assms(3) right by blast
qed

subsection \<open>Only true nodes are added\<close>

text \<open>The strings that \<open>add_merkle_nodes\<close> hashes on its way to the root.\<close>

function climb_inputs :: "(string \<Rightarrow> sha1_hash) \<Rightarrow> subtree \<Rightarrow> int \<Rightarrow> sha1_hash \<Rightarrow> string list" where
  "climb_inputs hash nodes n h =
     (if n > 0 \<and> n < 2 ^ 31 then
        case map_of nodes (merkle_get_sibling n) of
          None \<Rightarrow> []
        | Some s \<Rightarrow>
            let x = (if merkle_get_sibling n < n then s @ h else h @ s)
            in x # climb_inputs hash nodes (merkle_get_parent n) (hash x)
      else [])"
  by auto

termination
  by (relation "measure (\<lambda>(_, _, n, _). nat n)") (auto simp: merkle_parent_value)

declare climb_inputs.simps [simp del]

definition tree_inputs :: "sha1_hash list \<Rightarrow> string list" where
  "tree_inputs tree = map (child_pair tree) [0..<length tree div 2]"

text \<open>One round of the loop at a node below the root.\<close>

lemma merkle_climb_step:
  fixes h :: sha1_hash
  assumes "0 < n" "n < 2 ^ 31" "map_of nodes (merkle_get_sibling n) = Some s"
  defines "x \<equiv> (if merkle_get_sibling n < n then s @ h else h @ s)"
  shows "merkle_climb hash nodes n h acc =
      merkle_climb hash nodes (merkle_get_parent n) (hash x) ((merkle_get_sibling n, s) # (n, h) # acc)"
    and "climb_inputs hash nodes n h = x # climb_inputs hash nodes (merkle_get_parent n) (hash x)"
  using assms by (simp_all add: merkle_climb.simps [of hash nodes n] climb_inputs.simps [of hash nodes n] Let_def)

definition true_node :: "sha1_hash list \<Rightarrow> int \<times> sha1_hash \<Rightarrow> bool" where
  "true_node tree q \<longleftrightarrow> (\<exists>j < length tree. q = (int j, tree ! j))"

lemma true_nodeI: "j < length tree \<Longrightarrow> m = int j \<Longrightarrow> x = tree ! j \<Longrightarrow> true_node tree (m, x)"
  by (auto simp: true_node_def)

lemma climb_sound:
  assumes ok: "merkle_ok hash tree" and len: "\<forall>x. length (hash x) = 20"
    and nodes: "\<forall>m x. map_of nodes m = Some x \<longrightarrow> length x = 20"
  shows "merkle_climb hash nodes (int k) h acc = Some (tree ! 0, out) \<Longrightarrow> k < length tree \<Longrightarrow> length h = 20 \<Longrightarrow>
    inj_on hash (set (climb_inputs hash nodes (int k) h) \<union> set (tree_inputs tree)) \<Longrightarrow>
    h = tree ! k \<and>
    (\<forall>q \<in> set out. q \<in> set acc \<or> true_node tree q)"
proof (induction k arbitrary: h acc rule: less_induct)
  case (less k)
  have tree: "odd (length tree)" "length tree < 2 ^ 31 - 1" using ok by (simp_all add: merkle_ok_def)
  show ?case
  proof (cases "k = 0")
    case True
    then show ?thesis using less.prems(1) by (auto simp: merkle_climb.simps)
  next
    case False
    then have k: "0 < int k" "int k < 2 ^ 31" using less.prems(2) tree by auto
    have "map_of nodes (merkle_get_sibling (int k)) \<noteq> None"
      using less.prems(1) k by (auto simp: merkle_climb.simps [of hash nodes "int k"] Let_def split: option.splits)
    then obtain s where s: "map_of nodes (merkle_get_sibling (int k)) = Some s" by blast
    define x where "x = (if merkle_get_sibling (int k) < int k then s @ h else h @ s)"
    note step = merkle_climb_step [OF k s, where h = h and hash = hash, folded x_def]
    have s20: "length s = 20" using nodes s by blast
    have parent: "hash x = tree ! p" and rest: "\<forall>q \<in> set out.
        q \<in> set ((merkle_get_sibling (int k), s) # (int k, h) # acc) \<or> true_node tree q"
      if "merkle_get_parent (int k) = int p" "p < k" for p
      using less.IH [of p "hash x" "(merkle_get_sibling (int k), s) # (int k, h) # acc"] that less.prems step len
      by (auto simp: inj_on_Un)
    have pair: "x = child_pair tree p"
      if "merkle_get_parent (int k) = int p" "p < k" "2 * p + 2 < length tree" for p
    proof -
      have "hash x = hash (child_pair tree p)" using parent [OF that(1,2)] merkle_ok_node [OF ok that(3)] by simp
      moreover have "child_pair tree p \<in> set (tree_inputs tree)" using that(3) by (auto simp: tree_inputs_def)
      ultimately show ?thesis using less.prems(4) step(2) by (auto simp: inj_on_def)
    qed
    have "0 < k" using False by simp
    show ?thesis
    proof (cases rule: merkle_node_cases [OF tree less.prems(2) \<open>0 < k\<close>, case_names left right])
      case (left p)
      then have "h @ s = tree ! (2 * p + 1) @ tree ! (2 * p + 2)"
        using pair [of p] by (simp add: x_def child_pair_def)
      moreover have "length (tree ! (2 * p + 1)) = 20" using left merkle_ok_length [OF ok] by simp
      ultimately have "h = tree ! k" "s = tree ! (2 * p + 2)" using less.prems(3) left by auto
      moreover from this have "true_node tree (int k, h)" "true_node tree (merkle_get_sibling (int k), s)"
        using left less.prems(2) by (auto intro: true_nodeI [of k] true_nodeI [of "2 * p + 2"])
      moreover have "p < k" using left by simp
      ultimately show ?thesis using rest [OF left(4)] by auto
    next
      case (right p)
      then have "s @ h = tree ! (2 * p + 1) @ tree ! (2 * p + 2)"
        using pair [of p] by (simp add: x_def child_pair_def)
      moreover have "length (tree ! (2 * p + 1)) = 20" using right merkle_ok_length [OF ok] by simp
      ultimately have "h = tree ! k" "s = tree ! (2 * p + 1)" using s20 right by auto
      moreover from this have "true_node tree (int k, h)" "true_node tree (merkle_get_sibling (int k), s)"
        using right less.prems(2) by (auto intro: true_nodeI [of k] true_nodeI [of "2 * p + 1"])
      moreover have "p < k" using right by simp
      ultimately show ?thesis using rest [OF right(4)] by auto
    qed
  qed
qed

lemma climb_keeps: "merkle_climb hash nodes n h acc = Some (r, out) \<Longrightarrow> set acc \<subseteq> set out"
proof (induction hash nodes n h acc rule: merkle_climb.induct)
  case (1 hash nodes n h acc)
  then show ?case
    by (cases "map_of nodes (merkle_get_sibling n)")
      (auto simp: merkle_climb.simps [of hash nodes n] Let_def split: if_splits)
qed

lemma climb_start:
  assumes "merkle_climb hash nodes n h acc = Some (r, out)" and "0 < n" "n < 2 ^ 31"
  shows "(n, h) \<in> set out"
proof -
  obtain s where s: "map_of nodes (merkle_get_sibling n) = Some s"
    using assms
    by (cases "map_of nodes (merkle_get_sibling n)") (auto simp: merkle_climb.simps [of hash nodes n] Let_def)
  from assms(1) show ?thesis
    unfolding merkle_climb_step(1) [OF assms(2,3) s, where h = h and hash = hash] by (auto dest: climb_keeps)
qed

lemma store_nodes_true:
  assumes "\<forall>q \<in> set nodes. true_node tree q" and "length t = length tree"
  shows "\<exists>t'. store_nodes nodes t = Inr t' \<and> length t' = length tree \<and>
    (\<forall>j < length tree. t' ! j = (if int j \<in> fst ` set nodes then tree ! j else t ! j))"
  using assms
proof (induction nodes arbitrary: t)
  case (Cons q nodes)
  from Cons.prems(1) obtain i where i: "i < length tree" "q = (int i, tree ! i)" by (auto simp: true_node_def)
  have "length (t[i := tree ! i]) = length tree" using Cons.prems(2) by simp
  with Cons obtain t' where t': "store_nodes nodes (t[i := tree ! i]) = Inr t'" "length t' = length tree"
    "\<forall>j < length tree. t' ! j = (if int j \<in> fst ` set nodes then tree ! j else t[i := tree ! i] ! j)"
    by (metis list.set_intros(2))
  have "store_nodes (q # nodes) t = Inr t'" using t'(1) i Cons.prems(2) by (simp add: store_nodes_def)
  moreover have "t' ! j = (if int j \<in> fst ` set (q # nodes) then tree ! j else t ! j)" if "j < length tree" for j
    using t'(3) that i Cons.prems(2) by (auto simp: nth_list_update)
  ultimately show ?case using t'(2) by blast
qed (simp add: store_nodes_def)

lemma add_merkle_nodes_cases:
  assumes "add_merkle_nodes hash first_leaf nodes piece t = Inr (True, t')" and "t \<noteq> []"
  obtains h out where "map_of nodes (int32 (first_leaf + piece)) = Some h"
    "merkle_climb hash nodes (int32 (first_leaf + piece)) h [] = Some (t ! 0, out)"
    "store_nodes (rev out) t = Inr t'"
  using assms
  by (auto simp: add_merkle_nodes_def Let_def read_at_def bind_result_Inr_iff split: option.splits if_splits prod.splits)

text \<open>
  C12: Nothing but true hashes enters the tree. Let \<open>tree\<close> be a hash tree with the root that \<open>t\<close>
  has. If \<open>add_merkle_nodes\<close> accepts a sub-tree for a piece, and the hash function does not
  collide on the strings that were hashed, then the leaf of the piece is the one of \<open>tree\<close>, and
  every node of the new tree is the old one or the one of \<open>tree\<close>.
\<close>

theorem add_merkle_nodes_sound:
  assumes "merkle_ok hash tree" and "\<forall>x. length (hash x) = 20"
    and "\<forall>m x. map_of nodes m = Some x \<longrightarrow> length x = 20"
    and "length t = length tree" "t ! 0 = tree ! 0"
    and n: "int32 (first_leaf + piece) = int n" "n < length tree"
    and "inj_on hash (set (climb_inputs hash nodes (int n) (the (map_of nodes (int n)))) \<union> set (tree_inputs tree))"
    and "add_merkle_nodes hash first_leaf nodes piece t = Inr (True, t')"
  shows "length t' = length tree \<and> t' ! n = tree ! n \<and> (\<forall>j < length tree. t' ! j = tree ! j \<or> t' ! j = t ! j)"
proof -
  have "t \<noteq> []" using assms(4) n(2) by auto
  with assms(9) obtain h out where h: "map_of nodes (int n) = Some h"
    "merkle_climb hash nodes (int n) h [] = Some (tree ! 0, out)" "store_nodes (rev out) t = Inr t'"
    unfolding n(1) [symmetric] assms(5) [symmetric] by (rule add_merkle_nodes_cases)
  have "length h = 20" using assms(3) h(1) by blast
  then have sound: "h = tree ! n" "\<forall>q \<in> set out. true_node tree q"
    using climb_sound [OF assms(1-3) h(2) n(2)] assms(8) h(1) by auto
  then obtain "length t' = length tree"
    and t': "\<forall>j < length tree. t' ! j = (if int j \<in> fst ` set out then tree ! j else t ! j)"
    using store_nodes_true [of "rev out" tree t] assms(4) h(3) by auto
  moreover have "t' ! n = tree ! n"
  proof (cases "n = 0")
    case True
    then show ?thesis using t' n(2) assms(5) by auto
  next
    case False
    have "int n < 2 ^ 31" using assms(1) n(2) by (auto simp: merkle_ok_def)
    then have "(int n, h) \<in> set out" using climb_start [OF h(2)] False by simp
    then have "int n \<in> fst ` set out" by force
    then show ?thesis using t' n(2) by simp
  qed
  ultimately show ?thesis by auto
qed

text \<open>A small tree with two leaves, under a function that keeps the first 20 bytes.\<close>

definition sample_hash :: "string \<Rightarrow> sha1_hash" where
  "sample_hash x = take 20 (x @ replicate 20 (CHR ''0''))"

definition sample_tree :: "sha1_hash list" where
  "sample_tree = [replicate 20 (CHR ''a''), replicate 20 (CHR ''a''), replicate 20 (CHR ''b'')]"

lemma sample_tree_ok: "merkle_ok sample_hash sample_tree" "\<forall>x. length (sample_hash x) = 20"
proof -
  have "list_all (\<lambda>m. sample_tree ! m = sample_hash (child_pair sample_tree m)) [0..<1]" by code_simp
  then show "merkle_ok sample_hash sample_tree" by (simp add: merkle_ok_def sample_tree_def)
  show "\<forall>x. length (sample_hash x) = 20" by (auto simp: sample_hash_def min_def)
qed

theorem add_merkle_nodes_sound_witness:
  "\<exists>t'. add_merkle_nodes sample_hash 1 [(1, replicate 20 (CHR ''a'')), (2, replicate 20 (CHR ''b''))] 0
      [replicate 20 (CHR ''a''), replicate 20 (CHR ''0''), replicate 20 (CHR ''0'')] = Inr (True, t') \<and>
    t' ! 1 = replicate 20 (CHR ''a'')"
proof -
  let ?nodes = "[(1, replicate 20 (CHR ''a'')), (2, replicate 20 (CHR ''b''))] :: subtree"
  let ?t = "[replicate 20 (CHR ''a''), replicate 20 (CHR ''0''), replicate 20 (CHR ''0'')]"
  have run: "add_merkle_nodes sample_hash 1 ?nodes 0 ?t = Inr (True, sample_tree)" by code_simp
  have inputs: "climb_inputs sample_hash ?nodes (int 1) (the (map_of ?nodes (int 1))) = tree_inputs sample_tree"
    "length (tree_inputs sample_tree) = 1" by code_simp+
  have n: "int32 (1 + 0) = int 1" by (simp add: int32_id)
  have len: "\<forall>m x. map_of ?nodes m = Some x \<longrightarrow> length x = 20" by simp
  obtain y where "tree_inputs sample_tree = [y]" using inputs(2) by (auto simp: length_Suc_conv)
  then have "inj_on sample_hash (set (climb_inputs sample_hash ?nodes (int 1) (the (map_of ?nodes (int 1)))) \<union>
      set (tree_inputs sample_tree))"
    unfolding inputs(1) by simp
  from add_merkle_nodes_sound [OF sample_tree_ok len _ _ n _ this run]
  have "sample_tree ! 1 = replicate 20 (CHR ''a'')" by (simp add: sample_tree_def)
  with run show ?thesis by blast
qed

subsection \<open>The list that is built for a piece is accepted\<close>

fun ancestors :: "nat \<Rightarrow> nat list" where
  "ancestors 0 = []"
| "ancestors (Suc k) = Suc k # ancestors (k div 2)"

definition sibling_of :: "nat \<Rightarrow> nat" where
  "sibling_of k = (if odd k then k + 1 else k - 1)"

lemma sibling_below: "odd n \<Longrightarrow> k < n \<Longrightarrow> sibling_of k < n"
  by (auto simp: sibling_of_def) (metis Suc_lessI even_Suc)

lemma merkle_links:
  assumes "odd (length tree)" "length tree < 2 ^ 31 - 1" "Suc k < length tree"
  shows "merkle_get_sibling (1 + int k) = int (sibling_of (Suc k))"
    and "merkle_get_parent (1 + int k) = int (k div 2)"
  using assms by (auto simp: merkle_sibling_value merkle_parent_value sibling_of_def zdiv_int)

lemma climb_complete:
  assumes ok: "merkle_ok hash tree"
    and "\<forall>j \<in> set (ancestors k). map_of nodes (int (sibling_of j)) = Some (tree ! sibling_of j)"
    and "k < length tree"
  shows "\<exists>out. merkle_climb hash nodes (int k) (tree ! k) acc = Some (tree ! 0, out) \<and>
    (\<forall>q \<in> set out. q \<in> set acc \<or> true_node tree q)"
  using assms(2,3)
proof (induction k arbitrary: acc rule: ancestors.induct)
  case 1
  then show ?case by (auto simp: merkle_climb.simps)
next
  case (2 k)
  have tree: "odd (length tree)" "length tree < 2 ^ 31 - 1" using ok by (simp_all add: merkle_ok_def)
  note links = merkle_links [OF tree 2(3)]
  let ?s = "sibling_of (Suc k)" and ?p = "k div 2"
  have s: "?s < length tree" using sibling_below tree(1) 2(3) by blast
  have nodes: "map_of nodes (merkle_get_sibling (1 + int k)) = Some (tree ! ?s)" using 2(2) links by simp
  have p: "tree ! ?p = hash (child_pair tree ?p)"
  proof (rule merkle_ok_node [OF ok])
    show "2 * ?p + 2 < length tree" using tree(1) 2(3) by presburger
  qed
  have pair: "child_pair tree ?p = (if merkle_get_sibling (1 + int k) < 1 + int k then tree ! ?s @ tree ! Suc k
      else tree ! Suc k @ tree ! ?s)"
  proof (cases "odd k")
    case True
    then have "2 * ?p + 1 = k" "2 * ?p + 2 = Suc k" by presburger+
    then show ?thesis using True links(1) by (simp add: child_pair_def sibling_of_def)
  next
    case False
    then have "2 * ?p = k" by simp
    then show ?thesis using False links(1) by (simp add: child_pair_def sibling_of_def)
  qed
  have "merkle_climb hash nodes (int (Suc k)) (tree ! Suc k) acc =
      merkle_climb hash nodes (int ?p) (tree ! ?p) ((int ?s, tree ! ?s) # (int (Suc k), tree ! Suc k) # acc)"
    using merkle_climb_step(1) [of "1 + int k" nodes "tree ! ?s" hash "tree ! Suc k" acc] nodes p pair links tree(2) 2(3)
    by simp
  moreover have "?p < length tree" using 2(3) by auto
  with 2 obtain out where "merkle_climb hash nodes (int ?p) (tree ! ?p) ((int ?s, tree ! ?s) # (int (Suc k), tree ! Suc k) # acc)
      = Some (tree ! 0, out)"
    "\<forall>q \<in> set out. q \<in> set ((int ?s, tree ! ?s) # (int (Suc k), tree ! Suc k) # acc) \<or> true_node tree q"
    by (metis ancestors.simps(2) list.set_intros(2))
  moreover have "true_node tree (int ?s, tree ! ?s)" "true_node tree (int (Suc k), tree ! Suc k)"
    using s 2(3) by (auto intro: true_nodeI)
  ultimately show ?case by auto
qed

lemma collect_nodes:
  assumes "odd (length tree)" "length tree < 2 ^ 31 - 1" "k < length tree"
  shows "\<exists>ret'. merkle_collect tree (int k) ret = Inr ret' \<and> set ret \<subseteq> set ret' \<and>
    (\<forall>q \<in> set ret'. q \<in> set ret \<or> true_node tree q) \<and>
    (\<forall>j \<in> set (ancestors k). int (sibling_of j) \<in> fst ` set ret')"
  using assms(3)
proof (induction k arbitrary: ret rule: ancestors.induct)
  case 1
  then show ?case by (simp add: merkle_collect.simps)
next
  case (2 k)
  note links = merkle_links [OF assms(1,2) 2(2)]
  let ?s = "sibling_of (Suc k)" and ?p = "k div 2"
  have s: "?s < length tree" using sibling_below assms(1) 2(2) by blast
  let ?q = "(int ?s, tree ! ?s)"
  have "merkle_collect tree (int (Suc k)) ret = merkle_collect tree (int ?p) (?q # ret)"
    using links s assms(2) 2(2) by (simp add: merkle_collect.simps [of tree "1 + int k"] read_at_def)
  moreover have "?p < length tree" using 2(2) by auto
  with 2(1) obtain ret' where ret': "merkle_collect tree (int ?p) (?q # ret) = Inr ret'"
    "set (?q # ret) \<subseteq> set ret'" "\<forall>q \<in> set ret'. q \<in> set (?q # ret) \<or> true_node tree q"
    "\<forall>j \<in> set (ancestors ?p). int (sibling_of j) \<in> fst ` set ret'" by blast
  moreover have "true_node tree ?q" using s by (auto intro: true_nodeI)
  moreover have "int ?s \<in> fst ` set ret'" using ret'(2) by force
  ultimately show ?case by auto
qed

lemma map_of_true_nodes:
  assumes "\<forall>q \<in> set nodes. true_node tree q" and "int j \<in> fst ` set nodes"
  shows "map_of nodes (int j) = Some (tree ! j)"
proof -
  obtain x where x: "map_of nodes (int j) = Some x"
    using assms(2) by (metis map_of_eq_None_iff not_None_eq)
  then have "true_node tree (int j, x)" using assms(1) map_of_SomeD by fastforce
  with x show ?thesis by (auto simp: true_node_def)
qed

text \<open>
  C27: A peer that has the whole tree can always convince one that only has the root. The list
  that \<open>build_merkle_list\<close> makes for a piece of a hash tree is accepted by \<open>add_merkle_nodes\<close>
  with any tree of the same size and root, whatever else that tree holds, and the leaf of the
  piece is there afterwards.
\<close>

theorem build_merkle_list_accepted:
  assumes "merkle_ok hash tree" and "length t = length tree" "t ! 0 = tree ! 0"
    and n: "int32 (first_leaf + piece) = int n" "n < length tree"
  shows "\<exists>nodes t'. build_merkle_list first_leaf tree piece = Inr nodes \<and>
    add_merkle_nodes hash first_leaf nodes piece t = Inr (True, t') \<and>
    length t' = length tree \<and> t' ! n = tree ! n \<and> (\<forall>j < length tree. t' ! j = tree ! j \<or> t' ! j = t ! j)"
proof -
  have tree: "odd (length tree)" "length tree < 2 ^ 31 - 1" using assms(1) by (simp_all add: merkle_ok_def)
  have pos: "0 < length tree" using n(2) by linarith
  let ?ret = "[(0, tree ! 0), (int n, tree ! n)]"
  obtain nodes where nodes: "merkle_collect tree (int n) ?ret = Inr nodes" "set ?ret \<subseteq> set nodes"
    "\<forall>q \<in> set nodes. q \<in> set ?ret \<or> true_node tree q" "\<forall>j \<in> set (ancestors n). int (sibling_of j) \<in> fst ` set nodes"
    using collect_nodes [OF tree n(2), of ?ret] by blast
  have "true_node tree (0, tree ! 0)" "true_node tree (int n, tree ! n)"
    using true_nodeI [of 0 tree] true_nodeI [of n tree] n(2) pos by simp_all
  with nodes(3) have true: "\<forall>q \<in> set nodes. true_node tree q" by auto
  have leaf: "map_of nodes (int n) = Some (tree ! n)"
    using map_of_true_nodes [OF true] nodes(2) by force
  obtain out where out: "merkle_climb hash nodes (int n) (tree ! n) [] = Some (tree ! 0, out)"
    "\<forall>q \<in> set out. true_node tree q"
    using climb_complete [OF assms(1) _ n(2), of nodes "[]"] map_of_true_nodes [OF true] nodes(4) by auto
  obtain t' where t': "store_nodes (rev out) t = Inr t'" "length t' = length tree"
    "\<forall>j < length tree. t' ! j = (if int j \<in> fst ` set out then tree ! j else t ! j)"
    using store_nodes_true [of "rev out" tree t] out(2) assms(2) by auto
  have build: "build_merkle_list first_leaf tree piece = Inr nodes"
    using n nodes(1) pos by (simp add: build_merkle_list_def Let_def read_at_def)
  have add: "add_merkle_nodes hash first_leaf nodes piece t = Inr (True, t')"
    using n leaf out(1) assms(2,3) t'(1) pos by (simp add: add_merkle_nodes_def Let_def read_at_def)
  have "t' ! n = tree ! n"
  proof (cases n)
    case 0
    then show ?thesis using t'(3) n(2) assms(3) by auto
  next
    case (Suc k)
    then have "(int n, tree ! n) \<in> set out" using climb_start [OF out(1)] tree(2) n(2) by simp
    then show ?thesis using t'(3) n(2) by force
  qed
  with build add t'(2,3) show ?thesis by auto
qed

theorem build_merkle_list_accepted_witness:
  "\<exists>nodes t'. build_merkle_list 1 sample_tree 1 = Inr nodes \<and>
    add_merkle_nodes sample_hash 1 nodes 1 (replicate 20 (CHR ''a'') # replicate 2 []) = Inr (True, t') \<and>
    t' ! 2 = replicate 20 (CHR ''b'')"
proof -
  have "int32 (1 + 1) = int 2" by (simp add: int32_id)
  with build_merkle_list_accepted [OF sample_tree_ok(1), of "replicate 20 (CHR ''a'') # replicate 2 []" 1 1 2]
  show ?thesis by (auto simp: sample_tree_def)
qed

text \<open>
  The number of leaves is not the nearest power of two where the number of pieces is one
  itself: four pieces get eight leaves.
\<close>

lemma merkle_num_leafs_power: "merkle_num_leafs (2 ^ k) = int32 (2 ^ (k + 1))"
proof -
  have "merkle_bits (2 ^ k) = k + 1"
    by (induction k) (simp_all add: merkle_bits.simps [of "2 ^ _"] merkle_bits.simps [of 1] merkle_bits.simps [of 0]
        merkle_bits.simps [of "2 * 2 ^ _"])
  then show ?thesis by (simp add: merkle_num_leafs_def)
qed

end
