(* ===== verification/BaseEncoding.thy ===== *)
theory BaseEncoding
  imports EscapeString
begin

unbundle bit_operations_syntax

section \<open>Base 64 and base 32 (\<open>libtorrent/src/escape_string.cpp\<close>)\<close>

text \<open>
  The encodings work on \<open>unsigned char\<close> buffers of one group, 8-bit words here. The result of
  a shift or of a bitwise or is an \<open>int\<close> in the code and is cut to eight bits by the
  assignment to the buffer, which is what the operations on 8-bit words do.
\<close>

definition byte_of :: "char \<Rightarrow> 8 word" where
  "byte_of c = word_of_int (uchar c)"

definition char_of_byte :: "8 word \<Rightarrow> char" where
  "char_of_byte w = to_char (uint w)"

lemma char_of_byte_of [simp]: "char_of_byte (byte_of c) = c"
  using uchar_range [of c] by (simp add: char_of_byte_def byte_of_def uint_word_of_int)

text \<open>\<open>std::fill\<close> with zeros and \<open>std::copy\<close> of a chunk into a buffer of \<open>n\<close> bytes.\<close>

definition load_chunk :: "nat \<Rightarrow> string \<Rightarrow> 8 word list" where
  "load_chunk n chunk = map byte_of chunk @ replicate (n - length chunk) 0"

subsection \<open>Base 64\<close>

definition base64_table :: string where
  "base64_table = ''ABCDEFGHIJKLMNOPQRSTUVWXYZabcdefghijklmnopqrstuvwxyz0123456789+/''"

definition base64_group :: "8 word list \<Rightarrow> 8 word list" where
  "base64_group inbuf =
     [drop_bit 2 (inbuf ! 0 AND 0xfc),
      push_bit 4 (inbuf ! 0 AND 0x03) OR drop_bit 4 (inbuf ! 1 AND 0xf0),
      push_bit 2 (inbuf ! 1 AND 0x0f) OR drop_bit 6 (inbuf ! 2 AND 0xc0),
      inbuf ! 2 AND 0x3f]"

function base64encode :: "string \<Rightarrow> string" where
  "base64encode s =
     (if s = [] then []
      else
        let available_input = min 3 (length s);
            outbuf = base64_group (load_chunk 3 (take available_input s))
        in map (\<lambda>w. base64_table ! unat w) (take (available_input + 1) outbuf)
           @ replicate (3 - available_input) (CHR ''='')
           @ base64encode (drop available_input s))"
  by auto

termination by (relation "measure length") auto

declare base64encode.simps [simp del]

subsection \<open>Base 32\<close>

definition base32_table :: string where
  "base32_table = ''ABCDEFGHIJKLMNOPQRSTUVWXYZ234567''"

definition base32_group :: "8 word list \<Rightarrow> 8 word list" where
  "base32_group inbuf =
     [drop_bit 3 (inbuf ! 0 AND 0xf8),
      push_bit 2 (inbuf ! 0 AND 0x07) OR drop_bit 6 (inbuf ! 1 AND 0xc0),
      drop_bit 1 (inbuf ! 1 AND 0x3e),
      push_bit 4 (inbuf ! 1 AND 0x01) OR drop_bit 4 (inbuf ! 2 AND 0xf0),
      push_bit 1 (inbuf ! 2 AND 0x0f) OR drop_bit 7 (inbuf ! 3 AND 0x80),
      drop_bit 2 (inbuf ! 3 AND 0x7c),
      push_bit 3 (inbuf ! 3 AND 0x03) OR drop_bit 5 (inbuf ! 4 AND 0xe0),
      inbuf ! 4 AND 0x1f]"

definition encode_mapping :: "nat list" where
  "encode_mapping = [0, 2, 4, 5, 7, 8]"

function base32encode :: "string \<Rightarrow> string" where
  "base32encode s =
     (if s = [] then []
      else
        let available_input = min 5 (length s);
            outbuf = base32_group (load_chunk 5 (take available_input s));
            num_out = encode_mapping ! available_input
        in map (\<lambda>w. base32_table ! unat w) (take num_out outbuf)
           @ replicate (8 - num_out) (CHR ''='')
           @ base32encode (drop available_input s))"
  by auto

termination by (relation "measure length") auto

declare base32encode.simps [simp del]

definition to_upper :: "char \<Rightarrow> char" where
  "to_upper c =
     (if schar c \<ge> schar (CHR ''a'') \<and> schar c \<le> schar (CHR ''z'')
      then to_char (schar c - schar (CHR ''a'') + schar (CHR ''A'')) else c)"

text \<open>
  The digit loop of one group: the value of each character, and the position of the first
  padding character in \<open>pad_start\<close>, where 0 stands for none.
\<close>

definition base32_value :: "char \<Rightarrow> 8 word option" where
  "base32_value c =
     (let inp = to_upper c in
      if schar inp \<ge> schar (CHR ''A'') \<and> schar inp \<le> schar (CHR ''Z'')
      then Some (word_of_int (schar inp - schar (CHR ''A'')))
      else if schar inp \<ge> schar (CHR ''2'') \<and> schar inp \<le> schar (CHR ''7'')
      then Some (word_of_int (schar inp - schar (CHR ''2'') + (schar (CHR ''Z'') - schar (CHR ''A'')) + 1))
      else if inp = CHR ''1'' then Some (word_of_int (schar (CHR ''I'') - schar (CHR ''A'')))
      else None)"

fun base32_digits :: "string \<Rightarrow> nat \<Rightarrow> nat \<Rightarrow> (8 word list \<times> nat) option" where
  "base32_digits [] j pad_start = Some ([], pad_start)"
| "base32_digits (c # s) j pad_start =
     (case base32_value c of
        Some w \<Rightarrow> map_option (map_prod (Cons w) id) (base32_digits s (Suc j) pad_start)
      | None \<Rightarrow>
          if to_upper c = CHR ''='' then
            map_option (map_prod (Cons 0) id)
              (base32_digits s (Suc j) (if pad_start = 0 then j else pad_start))
          else None)"

definition base32_ungroup :: "8 word list \<Rightarrow> 8 word list" where
  "base32_ungroup inbuf =
     [push_bit 3 (inbuf ! 0) OR drop_bit 2 (inbuf ! 1),
      push_bit 6 (inbuf ! 1 AND 0x3) OR push_bit 1 (inbuf ! 2) OR drop_bit 4 (inbuf ! 3 AND 0x10),
      push_bit 4 (inbuf ! 3 AND 0x0f) OR drop_bit 1 (inbuf ! 4 AND 0x1e),
      push_bit 7 (inbuf ! 4 AND 0x01) OR push_bit 2 (inbuf ! 5 AND 0x1f) OR drop_bit 3 (inbuf ! 6 AND 0x18),
      push_bit 5 (inbuf ! 6 AND 0x07) OR inbuf ! 7]"

definition decode_mapping :: "nat list" where
  "decode_mapping = [5, 1, 1, 2, 2, 3, 4, 4, 5]"

function base32decode_loop :: "string \<Rightarrow> string \<Rightarrow> string" where
  "base32decode_loop ret s =
     (if s = [] then ret
      else
        let available_input = min 8 (length s);
            pad_start = (if available_input < 8 then available_input else 0)
        in case base32_digits (take available_input s) 0 pad_start of
             None \<Rightarrow> []
           | Some (ws, pad_start') \<Rightarrow>
               let inbuf = ws @ replicate (8 - length ws) 0;
                   num_out = decode_mapping ! pad_start'
               in base32decode_loop (ret @ map char_of_byte (take num_out (base32_ungroup inbuf)))
                    (drop available_input s))"
  by auto

termination by (relation "measure (length \<circ> snd)") auto

declare base32decode_loop.simps [simp del]

definition base32decode :: "string \<Rightarrow> string" where
  "base32decode s = base32decode_loop [] s"

subsection \<open>Groups\<close>

lemma bit_cases_8: "n < 8 \<Longrightarrow> (n :: nat) = 0 \<or> n = 1 \<or> n = 2 \<or> n = 3 \<or> n = 4 \<or> n = 5 \<or> n = 6 \<or> n = 7"
  by linarith

lemma byte_eqI:
  fixes a b :: "8 word"
  assumes "bit a 0 = bit b 0" "bit a 1 = bit b 1" "bit a 2 = bit b 2" "bit a 3 = bit b 3"
    "bit a 4 = bit b 4" "bit a 5 = bit b 5" "bit a 6 = bit b 6" "bit a 7 = bit b 7"
  shows "a = b"
proof (rule bit_word_eqI)
  fix n assume "n < LENGTH(8)"
  then have "n < 8" by simp
  then show "bit a n = bit b n" using bit_cases_8 [of n] assms by auto
qed

lemma bit_times_two: "bit (a * 2 :: 8 word) n \<longleftrightarrow> n \<noteq> 0 \<and> n < 8 \<and> bit a (n - 1)"
  by (auto simp: mult.commute [of a 2] bit_double_iff)

lemma base32_group_inverse:
  fixes a b c d e :: "8 word"
  shows "push_bit 3 (drop_bit 3 a) AND 248 OR drop_bit 2 (push_bit 2 a) AND 7 = a"
    and "push_bit 6 (drop_bit 6 b) AND 192 OR drop_bit (Suc 0) b * 2 AND 62 OR drop_bit 4 (push_bit 4 b) AND 1 = b"
    and "push_bit 4 (drop_bit 4 c) AND 240 OR drop_bit (Suc 0) (c * 2) AND 15 = c"
    and "(push_bit 7 (c * 2) AND 3840 OR push_bit 7 (drop_bit 7 d) AND 128) AND 128 OR
      push_bit 2 (drop_bit 2 d) AND 124 OR drop_bit 3 (push_bit 3 d) AND 3 = d"
    and "push_bit 5 (drop_bit 5 e) AND 224 OR e AND 31 = e"
  by (rule byte_eqI; simp add: bit_simps bit_times_two flip: numeral_2_eq_2 numeral_3_eq_3)+

lemma base32_group_small:
  fixes a b c d e :: "8 word"
  shows "\<forall>w \<in> set (base32_group [a, b, c, d, e]). unat w < 32"
proof -
  have small: "unat w < 32" if "\<not> bit w 5" "\<not> bit w 6" "\<not> bit w 7" for w :: "8 word"
  proof -
    have "w = w AND 0x1f" using that by (intro byte_eqI) (simp_all add: bit_simps)
    also have "w AND 0x1f = take_bit 5 w" by (simp add: take_bit_eq_mask mask_eq_exp_minus_1)
    finally have "w = take_bit 5 w" .
    then have "unat w < 2 ^ 5" by (metis unsigned_take_bit_eq take_bit_nat_less_exp)
    then show ?thesis by simp
  qed
  show ?thesis by (auto simp: base32_group_def intro!: small) (simp_all add: bit_simps bit_times_two)
qed

lemma base32_table_value:
  assumes "k < 32"
  shows "base32_value (base32_table ! k) = Some (of_nat k)"
proof -
  have "\<forall>k \<in> set [0..<32]. base32_value (base32_table ! k) = Some (of_nat k)" by code_simp
  with assms show ?thesis by simp
qed

lemma base32_digits_table:
  assumes "\<forall>w \<in> set ws. unat w < 32"
  shows "base32_digits (map (\<lambda>w. base32_table ! unat w) ws @ rest) j p =
    map_option (map_prod ((@) ws) id) (base32_digits rest (j + length ws) p)"
  using assms
proof (induction ws arbitrary: j)
  case (Cons w ws)
  then have "base32_value (base32_table ! unat w) = Some w" by (simp add: base32_table_value)
  with Cons show ?case by (simp add: option.map_comp o_def prod.map_comp id_def)
next
  case Nil
  show ?case by (cases "base32_digits rest j p") auto
qed

lemma base32_digits_pad:
  "base32_digits (replicate m (CHR ''='')) j p =
    Some (replicate m 0, if p = 0 \<and> m \<noteq> 0 then (if j = 0 \<and> m \<noteq> 1 then 1 else j) else p)"
proof (induction m arbitrary: j p)
  case (Suc m)
  have "base32_value (CHR ''='') = None" "to_upper (CHR ''='') = CHR ''=''" by code_simp+
  with Suc show ?case by (cases m) auto
qed simp

lemma replicate_word [simp]:
  "replicate 6 x = [x, x, x, x, x, x]" "replicate 5 x = [x, x, x, x, x]" "replicate 4 x = [x, x, x, x]"
  "replicate 3 x = [x, x, x]" "replicate 2 x = [x, x]"
  by (simp_all add: numeral_eq_Suc)

lemma base32_chunk_cases:
  assumes "chunk \<noteq> []" "length chunk \<le> 5"
  obtains x1 where "chunk = [x1]" | x1 x2 where "chunk = [x1, x2]" | x1 x2 x3 where "chunk = [x1, x2, x3]"
    | x1 x2 x3 x4 where "chunk = [x1, x2, x3, x4]" | x1 x2 x3 x4 x5 where "chunk = [x1, x2, x3, x4, x5]"
proof -
  have "length chunk = 1 \<or> length chunk = 2 \<or> length chunk = 3 \<or> length chunk = 4 \<or> length chunk = 5"
  proof -
    have "0 < length chunk" using assms(1) by simp
    with assms(2) show ?thesis by arith
  qed
  then show thesis using that by (auto simp: length_Suc_conv numeral_eq_Suc)
qed

lemma base32_chunk_bytes:
  fixes a b c d e :: "8 word"
  defines "g \<equiv> base32_group [a, b, c, d, e]"
  shows "take (length [a]) (base32_ungroup (take 2 g @ replicate 6 0)) = [a]"
    "take (length [a, b]) (base32_ungroup (take 4 g @ replicate 4 0)) = [a, b]"
    "take (length [a, b, c]) (base32_ungroup (take 5 g @ replicate 3 0)) = [a, b, c]"
    "take (length [a, b, c, d]) (base32_ungroup (take 7 g @ [0])) = [a, b, c, d]"
    "take (length [a, b, c, d, e]) (base32_ungroup g) = [a, b, c, d, e]"
  unfolding g_def
  by (simp_all add: base32_group_def base32_ungroup_def base32_group_inverse)

lemma base32_chunk:
  assumes "chunk \<noteq> []" "length chunk \<le> 5"
  defines "k \<equiv> encode_mapping ! length chunk"
  defines "ws \<equiv> take k (base32_group (load_chunk 5 chunk))"
  shows "length ws = k" "k \<le> 8" "0 < k" "decode_mapping ! (if k = 8 then 0 else k) = length chunk"
    "map char_of_byte (take (length chunk) (base32_ungroup (ws @ replicate (8 - k) 0))) = chunk"
    "\<forall>w \<in> set ws. unat w < 32"
proof -
  have len: "length (base32_group xs) = 8" for xs by (simp add: base32_group_def)
  have map: "map char_of_byte (map byte_of chunk) = chunk" by (simp add: o_def)
  have "length ws = k \<and> k \<le> 8 \<and> 0 < k \<and> decode_mapping ! (if k = 8 then 0 else k) = length chunk \<and>
    take (length chunk) (base32_ungroup (ws @ replicate (8 - k) 0)) = map byte_of chunk \<and>
    (\<forall>w \<in> set ws. unat w < 32)"
    using assms(1,2)
  proof (cases rule: base32_chunk_cases)
    case (1 x1)
    show ?thesis
      using base32_chunk_bytes(1) base32_group_small
      by (auto simp: 1 k_def ws_def encode_mapping_def decode_mapping_def load_chunk_def len dest: in_set_takeD)
  next
    case (2 x1 x2)
    show ?thesis
      using base32_chunk_bytes(2) base32_group_small
      by (auto simp: 2 k_def ws_def encode_mapping_def decode_mapping_def load_chunk_def len dest: in_set_takeD)
  next
    case (3 x1 x2 x3)
    show ?thesis
      using base32_chunk_bytes(3) base32_group_small
      by (auto simp: 3 k_def ws_def encode_mapping_def decode_mapping_def load_chunk_def len dest: in_set_takeD)
  next
    case (4 x1 x2 x3 x4)
    show ?thesis
      using base32_chunk_bytes(4) base32_group_small
      by (auto simp: 4 k_def ws_def encode_mapping_def decode_mapping_def load_chunk_def len dest: in_set_takeD)
  next
    case (5 x1 x2 x3 x4 x5)
    show ?thesis
      using base32_chunk_bytes(5) base32_group_small
      by (auto simp: 5 k_def ws_def encode_mapping_def decode_mapping_def load_chunk_def len dest: in_set_takeD)
  qed
  then show "length ws = k" "k \<le> 8" "0 < k" "decode_mapping ! (if k = 8 then 0 else k) = length chunk"
    "map char_of_byte (take (length chunk) (base32_ungroup (ws @ replicate (8 - k) 0))) = chunk"
    "\<forall>w \<in> set ws. unat w < 32"
    using map by auto
qed

lemma base32decode_step:
  assumes "length s = 8" "base32_digits s 0 0 = Some (ws, p)" "length ws = 8"
  shows "base32decode_loop ret (s @ rest) =
    base32decode_loop (ret @ map char_of_byte (take (decode_mapping ! p) (base32_ungroup ws))) rest"
proof -
  have "s \<noteq> []" using assms(1) by auto
  with assms show ?thesis by (simp add: base32decode_loop.simps [of ret "s @ rest"] Let_def)
qed

lemma base32decode_chunk:
  assumes "chunk \<noteq> []" "length chunk \<le> 5"
  defines "k \<equiv> encode_mapping ! length chunk"
  shows "base32decode_loop ret (map (\<lambda>w. base32_table ! unat w) (take k (base32_group (load_chunk 5 chunk)))
      @ replicate (8 - k) (CHR ''='') @ rest) = base32decode_loop (ret @ chunk) rest"
proof -
  note ch = base32_chunk [OF assms(1,2), folded k_def]
  let ?ws = "take k (base32_group (load_chunk 5 chunk))"
  let ?s = "map (\<lambda>w. base32_table ! unat w) ?ws @ replicate (8 - k) (CHR ''='')"
  have len: "length ?s = 8" using ch(1,2) by simp
  have "base32_digits ?s 0 0 = Some (?ws @ replicate (8 - k) 0, if k = 8 then 0 else k)"
    using base32_digits_table [OF ch(6), of "replicate (8 - k) (CHR ''='')" 0 0] ch(1,2,3)
    by (auto simp: base32_digits_pad)
  from base32decode_step [OF len this, of ret rest]
  have "base32decode_loop ret (?s @ rest) = base32decode_loop (ret @ chunk) rest"
    using ch(1,2,4,5) by simp
  then show ?thesis by simp
qed


end
