(* ===== verification/Urls.thy ===== *)
theory Urls
  imports BaseEncoding Bencode
begin

section \<open>URLs (\<open>libtorrent/src/parse_url.cpp\<close>, \<open>escape_string.cpp\<close>)\<close>

text \<open>
  Splitting a URL into its components, encoding the path of one, and looking up an argument.
  Positions in a string are natural numbers; \<open>std::find\<close> returns the length where it finds
  nothing.
\<close>

definition find_from :: "nat \<Rightarrow> char \<Rightarrow> string \<Rightarrow> nat" where
  "find_from start c s = start + length (takeWhile (\<lambda>d. d \<noteq> c) (drop start s))"

definition between :: "nat \<Rightarrow> nat \<Rightarrow> string \<Rightarrow> string" where
  "between i j s = take (j - i) (drop i s)"

datatype url_error = No_error | Unsupported_url_protocol | Expected_close_bracket_in_address

record url_parts =
  up_protocol :: string
  up_auth :: string
  up_hostname :: string
  up_port :: int
  up_path :: string

text \<open>The part behind \<open>://\<close>: user and password, host, port and path. \<open>start\<close> is behind the slashes.\<close>

definition parse_authority :: "string \<Rightarrow> string \<Rightarrow> int \<Rightarrow> nat \<Rightarrow> url_parts \<times> url_error" where
  "parse_authority url protocol port start =
     (let n = length url;
          at = find_from start (CHR ''@'') url;
          colon = find_from start (CHR '':'') url;
          fin = find_from start (CHR ''/'') url;
          has_auth = (at \<noteq> n \<and> colon \<noteq> n \<and> colon < at \<and> at < fin);
          auth = (if has_auth then between start at url else '''');
          start' = (if has_auth then at + 1 else start);
          bracket = (start' \<noteq> n \<and> url ! start' = CHR ''['');
          close = find_from start' (CHR '']'') url
      in if bracket \<and> close = n then
           (\<lparr>up_protocol = protocol, up_auth = auth, up_hostname = '''', up_port = port,
             up_path = drop start' url\<rparr>, Expected_close_bracket_in_address)
         else
           let port_pos = find_from (if bracket then close else start') (CHR '':'') url
           in if port_pos < fin then
                (\<lparr>up_protocol = protocol, up_auth = auth, up_hostname = between start' port_pos url,
                  up_port = atoi (between (port_pos + 1) fin url), up_path = drop fin url\<rparr>, No_error)
              else
                (\<lparr>up_protocol = protocol, up_auth = auth, up_hostname = between start' fin url,
                  up_port = port, up_path = drop fin url\<rparr>, No_error))"

definition parse_url_components :: "string \<Rightarrow> url_parts \<times> url_error" where
  "parse_url_components url =
     (let n = length url;
          start = length (takeWhile (\<lambda>c. c = CHR '' '' \<or> c = CHR 0x09) url);
          fin = find_from 0 (CHR '':'') url;
          protocol = between start fin url;
          port = (if protocol = ''https'' then 443 else 80);
          failed = (\<lparr>up_protocol = protocol, up_auth = '''', up_hostname = '''', up_port = port,
                     up_path = drop start url\<rparr>, Unsupported_url_protocol)
      in if fin = n then failed
         else if fin + 1 = n \<or> url ! (fin + 1) \<noteq> CHR ''/'' then failed
         else if fin + 2 = n \<or> url ! (fin + 2) \<noteq> CHR ''/'' then failed
         else parse_authority url protocol port (fin + 3))"

text \<open>
  \<open>maybe_url_encode\<close> formats into an array of \<open>NAME_MAX * 4\<close> bytes: \<open>snprintf\<close> cuts the text
  to one byte less, and the \<open>c_str\<close> arguments end at their first zero byte.
\<close>

definition maybe_url_encode :: "string \<Rightarrow> string" where
  "maybe_url_encode url =
     (let (p, ec) = parse_url_components url in
      if ec \<noteq> No_error then url
      else if \<not> need_encoding (up_path p) then url
      else
        take (255 * 4 - 1)
          (c_str (up_protocol p) @ ''://'' @ c_str (up_auth p) @ (if up_auth p = [] then '''' else ''@'')
           @ c_str (up_hostname p) @ '':'' @ int_string (up_port p) @ escape_path (up_path p)))"

text \<open>The first position at or behind \<open>i\<close> where \<open>p\<close> occurs in \<open>s\<close>.\<close>

fun find_substring :: "string \<Rightarrow> string \<Rightarrow> nat option" where
  "find_substring p [] = (if p = [] then Some 0 else None)"
| "find_substring p (c # s) =
     (if take (length p) (c # s) = p then Some 0 else map_option Suc (find_substring p s))"

definition url_has_argument :: "string \<Rightarrow> string \<Rightarrow> string option" where
  "url_has_argument url argument =
     (let q = find_from 0 (CHR ''?'') url in
      if q = length url then None
      else
        let i = q + 1; arg = argument @ ''='' in
        if take (length arg) (drop i url) = arg then
          Some (takeWhile (\<lambda>c. c \<noteq> CHR ''&'') (drop (i + length arg) url))
        else
          let arg' = ''&'' @ arg in
          case find_substring arg' (drop i url) of
            None \<Rightarrow> None
          | Some k \<Rightarrow> Some (takeWhile (\<lambda>c. c \<noteq> CHR ''&'') (drop (i + k + length arg') url)))"

subsection \<open>Taking a URL apart\<close>

lemma find_from_hit: "c \<notin> set b \<Longrightarrow> find_from (length a) c (a @ b @ c # r) = length a + length b"
  by (simp add: find_from_def takeWhile_miss)

lemma find_from_miss: "c \<notin> set b \<Longrightarrow> length a + length b \<le> find_from (length a) c (a @ b @ r)"
  by (simp add: find_from_def takeWhile_miss)

lemma find_from_none: "c \<notin> set b \<Longrightarrow> find_from (length a) c (a @ b) = length a + length b"
  by (induction b) (auto simp: find_from_def)

lemma find_from_le: "c \<in> set b \<Longrightarrow> find_from (length a) c (a @ b @ r) < length a + length b"
proof -
  assume "c \<in> set b"
  then have "length (takeWhile (\<lambda>d. d \<noteq> c) (b @ r)) < length b" by (induction b) auto
  then show ?thesis by (simp add: find_from_def)
qed

lemma between_append: "between (length a) (length a + length b) (a @ b @ r) = b"
  by (simp add: between_def)

definition plain_host :: "string \<Rightarrow> bool" where
  "plain_host host \<longleftrightarrow> CHR '':'' \<notin> set host \<and> CHR ''/'' \<notin> set host \<and> CHR ''@'' \<notin> set host \<and>
     (host = [] \<or> hd host \<noteq> CHR ''['')"

definition plain_auth :: "string \<Rightarrow> bool" where
  "plain_auth auth \<longleftrightarrow> auth = [] \<or> CHR '':'' \<in> set auth \<and> CHR ''@'' \<notin> set auth \<and> CHR ''/'' \<notin> set auth"

definition plain_protocol :: "string \<Rightarrow> bool" where
  "plain_protocol p \<longleftrightarrow> CHR '':'' \<notin> set p \<and> (p = [] \<or> hd p \<noteq> CHR '' '' \<and> hd p \<noteq> CHR 0x09)"

definition assemble_url :: "url_parts \<Rightarrow> string" where
  "assemble_url u = up_protocol u @ ''://'' @ (if up_auth u = [] then '''' else up_auth u @ ''@'')
     @ up_hostname u @ '':'' @ decimal (nat (up_port u)) @ up_path u"

lemma digit_not_slash: "c \<in> set (decimal n) \<Longrightarrow> c \<noteq> CHR ''/'' \<and> c \<noteq> CHR ''@'' \<and> c \<noteq> CHR '':''"
  by (drule decimal_digits) (auto simp: is_digit_iff schar_def uchar_def)

lemma parse_authority_assembled:
  fixes port :: nat
  assumes "plain_host host" "plain_auth auth" "port < 2 ^ 31" "path = [] \<or> hd path = CHR ''/''"
  defines "auth_part \<equiv> (if auth = [] then '''' else auth @ ''@'')"
  shows "parse_authority (pre @ auth_part @ host @ CHR '':'' # decimal port @ path) protocol dflt (length pre) =
    (\<lparr>up_protocol = protocol, up_auth = auth, up_hostname = host, up_port = int port, up_path = path\<rparr>, No_error)"
    (is "parse_authority ?url _ _ _ = _")
proof -
  let ?body = "auth_part @ host @ CHR '':'' # decimal port"
  let ?start = "length pre"
  have slash: "CHR ''/'' \<notin> set ?body"
    using assms(1,2) digit_not_slash [of "CHR ''/''" port] by (auto simp: plain_host_def plain_auth_def auth_part_def)
  have fin: "find_from ?start (CHR ''/'') ?url = ?start + length ?body"
  proof (cases path)
    case Nil
    then show ?thesis using find_from_none [OF slash, of pre] by simp
  next
    case (Cons c r)
    with assms(4) have "?url = pre @ ?body @ CHR ''/'' # r" by simp
    then show ?thesis using find_from_hit [OF slash, of pre r] by simp
  qed
  define s where "s = pre @ auth_part"
  have url: "?url = s @ host @ CHR '':'' # decimal port @ path" by (simp add: s_def)
  have port_pos: "find_from (length s) (CHR '':'') ?url = length s + length host"
    unfolding url using assms(1) by (intro find_from_hit) (simp add: plain_host_def)
  have bracket: "\<not> (length s \<noteq> length ?url \<and> ?url ! length s = CHR ''['')"
    unfolding url using assms(1) by (cases host) (auto simp: plain_host_def nth_append)
  have host: "between (length s) (length s + length host) ?url = host"
    unfolding url by (rule between_append)
  have portstr: "between (length s + length host + 1) (?start + length ?body) ?url = decimal port"
  proof -
    have e1: "length s + length host + 1 = length (s @ host @ '':'')" by simp
    have e2: "?start + length ?body = length (s @ host @ '':'') + length (decimal port)" by (simp add: s_def)
    have u: "?url = (s @ host @ '':'') @ decimal port @ path" by (simp add: s_def)
    show ?thesis unfolding e1 e2 u by (rule between_append)
  qed
  have path: "drop (?start + length ?body) ?url = path" by simp
  have num: "atoi (decimal port) = int port" using assms(3) by (rule atoi_decimal)
  define at where "at = find_from ?start (CHR ''@'') ?url"
  define colon where "colon = find_from ?start (CHR '':'') ?url"
  define has where "has \<longleftrightarrow> at \<noteq> length ?url \<and> colon \<noteq> length ?url \<and> colon < at \<and> at < ?start + length ?body"
  have auth: "(if has then between ?start at ?url else '''') = auth \<and> (if has then at + 1 else ?start) = length s"
  proof (cases "auth = []")
    case True
    then have no_at: "CHR ''@'' \<notin> set ?body"
      using assms(1) digit_not_slash [of "CHR ''@''" port] by (auto simp: plain_host_def auth_part_def)
    have "?start + length ?body \<le> at"
      using find_from_miss [OF no_at, of pre path] by (simp add: at_def)
    then have "\<not> has" by (simp add: has_def)
    with True show ?thesis by (simp add: s_def auth_part_def)
  next
    case False
    let ?r = "host @ CHR '':'' # decimal port @ path"
    have u: "?url = pre @ auth @ CHR ''@'' # ?r" using False by (simp add: auth_part_def)
    have at: "at = ?start + length auth"
      unfolding at_def u using assms(2) False by (intro find_from_hit) (auto simp: plain_auth_def)
    have "colon < ?start + length auth"
      unfolding colon_def u using assms(2) False by (intro find_from_le) (auto simp: plain_auth_def)
    then have has unfolding has_def at using False by (auto simp: auth_part_def)
    moreover have "between ?start at ?url = auth" unfolding at u by (rule between_append)
    ultimately show ?thesis using False by (simp add: at s_def auth_part_def)
  qed
  then have a1: "(if has then between ?start at ?url else '''') = auth" and
    a2: "(if has then at + 1 else ?start) = length s" by blast+
  have lt: "length s + length host < ?start + length ?body" by (simp add: s_def)
  show ?thesis
    unfolding parse_authority_def Let_def fin at_def [symmetric] colon_def [symmetric] has_def [symmetric] a1 a2
    using bracket lt by (simp only: simp_thms if_False if_True port_pos host portstr path num)
qed

text \<open>
  C28: A URL is taken apart into what it was put together from: for a protocol, an optional
  user and password, a host name, a port and a path that keep to their alphabets,
  \<open>parse_url_components\<close> returns exactly these parts and no error.
\<close>

theorem parse_url_assembled:
  assumes "plain_protocol (up_protocol u)" "plain_auth (up_auth u)" "plain_host (up_hostname u)"
    and "0 \<le> up_port u" "up_port u < 2 ^ 31" and "up_path u = [] \<or> hd (up_path u) = CHR ''/''"
  shows "parse_url_components (assemble_url u) = (u, No_error)"
proof -
  let ?p = "up_protocol u"
  let ?a = "if up_auth u = [] then '''' else up_auth u @ ''@''"
  let ?rest = "?a @ up_hostname u @ CHR '':'' # decimal (nat (up_port u)) @ up_path u"
  have url: "assemble_url u = ?p @ CHR '':'' # CHR ''/'' # CHR ''/'' # ?rest" by (simp add: assemble_url_def)
  have ws: "takeWhile (\<lambda>c. c = CHR '' '' \<or> c = CHR 0x09) (assemble_url u) = []"
    unfolding url using assms(1) by (cases ?p) (auto simp: plain_protocol_def)
  have fin: "find_from 0 (CHR '':'') (assemble_url u) = length ?p"
    unfolding url using assms(1) find_from_hit [of "CHR '':''" ?p "[]"] by (simp add: plain_protocol_def)
  have prot: "between 0 (length ?p) (assemble_url u) = ?p" unfolding url by (simp add: between_def)
  have slashes: "assemble_url u ! (length ?p + 1) = CHR ''/''" "assemble_url u ! (length ?p + 2) = CHR ''/''"
    unfolding url by (simp_all add: nth_append)
  have lens: "length ?p \<noteq> length (assemble_url u)" "length ?p + 1 \<noteq> length (assemble_url u)"
    "length ?p + 2 \<noteq> length (assemble_url u)"
    unfolding url by simp_all
  have n: "nat (up_port u) < 2 ^ 31" using assms(4,5) by auto
  have auth: "parse_authority (assemble_url u) ?p port (length ?p + 3) = (u, No_error)" for port
  proof -
    have "assemble_url u = (?p @ ''://'') @ ?rest" "length ?p + 3 = length (?p @ ''://'')" by (simp_all add: url)
    then have "parse_authority (assemble_url u) ?p port (length ?p + 3) =
        (\<lparr>up_protocol = ?p, up_auth = up_auth u, up_hostname = up_hostname u, up_port = int (nat (up_port u)),
          up_path = up_path u\<rparr>, No_error)"
      by (simp only: parse_authority_assembled [OF assms(3,2) n assms(6)])
    with assms(4) show ?thesis by simp
  qed
  show ?thesis
    unfolding parse_url_components_def Let_def ws fin
    by (simp only: list.size prot slashes lens auth if_False simp_thms)
qed

theorem parse_url_assembled_witness:
  "parse_url_components ''http://joe:pw@example.org:8080/a'' =
    (\<lparr>up_protocol = ''http'', up_auth = ''joe:pw'', up_hostname = ''example.org'', up_port = 8080, up_path = ''/a''\<rparr>, No_error)"
proof -
  let ?u = "\<lparr>up_protocol = ''http'', up_auth = ''joe:pw'', up_hostname = ''example.org'', up_port = 8080, up_path = ''/a''\<rparr>"
  have "assemble_url ?u = ''http://joe:pw@example.org:8080/a''"
    by (simp add: assemble_url_def decimal.simps digit_char_values)
  with parse_url_assembled [of ?u] show ?thesis
    by (simp add: plain_protocol_def plain_auth_def plain_host_def)
qed

text \<open>
  A URL that already has escapes and one character that needs them is escaped twice:
  the percent sign counts as allowed when \<open>maybe_url_encode\<close> looks for characters to encode,
  and is escaped itself when it encodes them.
\<close>

theorem maybe_url_encode_twice:
  "maybe_url_encode ''http://h/a%20b c'' = ''http://h:80/a%2520b%20c'' \<and>
   maybe_url_encode ''http://h/a%20b'' = ''http://h/a%20b''"
proof -
  have "parse_url_components ''http://h/a%20b c'' =
      (\<lparr>up_protocol = ''http'', up_auth = '''', up_hostname = ''h'', up_port = 80, up_path = ''/a%20b c''\<rparr>, No_error)"
    "parse_url_components ''http://h/a%20b'' =
      (\<lparr>up_protocol = ''http'', up_auth = '''', up_hostname = ''h'', up_port = 80, up_path = ''/a%20b''\<rparr>, No_error)"
    by (simp_all add: parse_url_components_def parse_authority_def find_from_def between_def Let_def)
  moreover have "need_encoding ''/a%20b c''" "\<not> need_encoding ''/a%20b''"
    "escape_path ''/a%20b c'' = ''/a%2520b%20c''" by code_simp+
  moreover have "int_string 80 = ''80''" by (simp add: int_string_def decimal.simps digit_char_values)
  ultimately show ?thesis by (simp add: maybe_url_encode_def c_str_def)
qed

end
