(* ===== verification/TorrentInfo.thy ===== *)
theory TorrentInfo
  imports EntryView Paths Merkle Urls
begin

section \<open>Torrent files (\<open>libtorrent/src/torrent_info.cpp\<close>, \<open>torrent_info.hpp\<close>)\<close>

text \<open>
  A \<open>torrent_info\<close> is filled from a decoded torrent file. The operations return \<open>Inl\<close> of an
  error where the code sets \<open>ec\<close> and the throwing constructors throw; the object is lost then.
  Parameters: the path operations (\<open>ops\<close>), the SHA-1 function (\<open>hash\<close>), the permutation that
  \<open>std::random_shuffle\<close> applies (\<open>shuffle\<close>), and the file system. \<open>m_piece_hashes\<close> is an offset
  into \<open>m_info_section\<close>.
\<close>

subsection \<open>State\<close>

record announce_entry =
  ae_url :: string
  ae_tier :: int
  ae_fail_limit :: int
  ae_fails :: int
  ae_source :: int
  ae_verified :: bool
  ae_updating :: bool
  ae_start_sent :: bool
  ae_complete_sent :: bool

definition new_announce_entry :: "string \<Rightarrow> announce_entry" where
  "new_announce_entry u =
     \<lparr>ae_url = u, ae_tier = 0, ae_fail_limit = 3, ae_fails = 0, ae_source = 0, ae_verified = False,
      ae_updating = False, ae_start_sent = False, ae_complete_sent = False\<rparr>"

definition announce_trim :: "announce_entry \<Rightarrow> announce_entry" where
  "announce_trim e = e\<lparr>ae_url := dropWhile is_space (ae_url e)\<rparr>"

record torrent_info =
  ti_files :: file_storage
  ti_orig_files :: "file_storage option"
  ti_urls :: "announce_entry list"
  ti_url_seeds :: "string list"
  ti_http_seeds :: "string list"
  ti_nodes :: "(string \<times> int) list"
  ti_info_hash :: sha1_hash
  ti_creation_date :: "int option"
  ti_comment :: string
  ti_created_by :: string
  ti_multifile :: bool
  ti_private :: bool
  ti_info_section :: string
  ti_piece_hashes :: "int option"
  ti_merkle_tree :: "sha1_hash list"
  ti_merkle_first_leaf :: int

text \<open>\<open>m_info_hash\<close> is not initialised; it is zero here and is not read before it is set.\<close>

definition new_torrent_info :: torrent_info where
  "new_torrent_info =
     \<lparr>ti_files = new_file_storage, ti_orig_files = None, ti_urls = [], ti_url_seeds = [], ti_http_seeds = [],
      ti_nodes = [], ti_info_hash = replicate 20 (CHR 0x00), ti_creation_date = None, ti_comment = '''',
      ti_created_by = '''', ti_multifile = False, ti_private = False, ti_info_section = '''',
      ti_piece_hashes = None, ti_merkle_tree = [], ti_merkle_first_leaf = 0\<rparr>"

definition is_merkle_torrent :: "torrent_info \<Rightarrow> bool" where
  "is_merkle_torrent ti \<longleftrightarrow> ti_merkle_tree ti \<noteq> []"

definition hash_for_piece :: "int \<Rightarrow> torrent_info \<Rightarrow> sha1_hash result" where
  "hash_for_piece index ti =
     (if is_merkle_torrent ti then read_at (ti_merkle_tree ti) (int32 (ti_merkle_first_leaf ti + index))
      else case ti_piece_hashes ti of
        None \<Rightarrow> Inl Null_pointer
      | Some p \<Rightarrow>
          let i = p + int32 (index * 20) in
          if i < 0 \<or> i + 20 > int (length (ti_info_section ti)) then Inl Out_of_bounds
          else Inr (subbytes (ti_info_section ti) i 20))"

text \<open>\<open>copy_on_write\<close> keeps the file list as it was in the torrent file.\<close>

definition copy_on_write :: "torrent_info \<Rightarrow> torrent_info" where
  "copy_on_write ti = (case ti_orig_files ti of Some _ \<Rightarrow> ti | None \<Rightarrow> ti\<lparr>ti_orig_files := Some (ti_files ti)\<rparr>)"

definition orig_files :: "torrent_info \<Rightarrow> file_storage" where
  "orig_files ti = (case ti_orig_files ti of Some f \<Rightarrow> f | None \<Rightarrow> ti_files ti)"

definition torrent_rename_file :: "int \<Rightarrow> string \<Rightarrow> torrent_info \<Rightarrow> torrent_info result" where
  "torrent_rename_file index new_filename ti =
     (let ti' = copy_on_write ti in
      bind_result (rename_file index new_filename (ti_files ti')) (\<lambda>fs. Inr (ti'\<lparr>ti_files := fs\<rparr>)))"

subsection \<open>Files of the info dictionary\<close>

definition list_indices :: "lazy_entry \<Rightarrow> int list" where
  "list_indices e = map int [0..<nat (list_size e)]"

definition attr_flag :: "char \<Rightarrow> file_entry \<Rightarrow> file_entry" where
  "attr_flag c target =
     (if c = CHR ''l'' then target\<lparr>fe_symlink_attribute := True, fe_size := 0\<rparr>
      else if c = CHR ''x'' then target\<lparr>fe_executable_attribute := True\<rparr>
      else if c = CHR ''h'' then target\<lparr>fe_hidden_attribute := True\<rparr>
      else if c = CHR ''p'' then target\<lparr>fe_pad_file := True\<rparr>
      else target)"

definition read_attribute :: "string \<Rightarrow> lazy_entry \<Rightarrow> int \<Rightarrow> file_entry \<Rightarrow> file_entry result" where
  "read_attribute buf attr i target =
     (case m_start attr of
        None \<Rightarrow> Inl Wrong_member
      | Some p \<Rightarrow> bind_result (read_at buf (p + i)) (\<lambda>c. Inr (attr_flag c target)))"

definition extract_attributes :: "string \<Rightarrow> lazy_entry \<Rightarrow> file_entry \<Rightarrow> file_entry result" where
  "extract_attributes buf dict target =
     bind_result (dict_find_string buf ''attr'' dict) (\<lambda>attr.
       case attr of
         None \<Rightarrow> Inr target
       | Some a \<Rightarrow> fold_result (read_attribute buf a) (map int [0..<nat (string_length a)]) target)"

definition append_symlink_element :: "fs_ops \<Rightarrow> string \<Rightarrow> lazy_entry \<Rightarrow> int \<Rightarrow> file_entry \<Rightarrow> file_entry result" where
  "append_symlink_element ops buf s_p i target =
     bind_result (list_at i s_p) (\<lambda>x.
     bind_result (string_value buf x) (\<lambda>element.
       Inr (target\<lparr>fe_symlink_path := path_append ops (fe_symlink_path target) (trim_path_element ops element)\<rparr>)))"

definition extract_symlink :: "fs_ops \<Rightarrow> string \<Rightarrow> lazy_entry \<Rightarrow> file_entry \<Rightarrow> file_entry result" where
  "extract_symlink ops buf dict target =
     bind_result (dict_find buf ''symlink path'' dict) (\<lambda>s_p.
       case s_p of
         None \<Rightarrow> Inr target
       | Some s \<Rightarrow>
           if m_type s = List_t then
             fold_result (append_symlink_element ops buf s) (list_indices s) target
           else Inr target)"

text \<open>The elements of a path list appended to a path; \<open>None\<close> where one is not a string.\<close>

definition append_path_element :: "fs_ops \<Rightarrow> string \<Rightarrow> lazy_entry \<Rightarrow> int \<Rightarrow> string option \<Rightarrow> string option result" where
  "append_path_element ops buf p i acc =
     (case acc of
        None \<Rightarrow> Inr None
      | Some path \<Rightarrow>
          bind_result (list_at i p) (\<lambda>x.
            if m_type x \<noteq> String_t then Inr None
            else bind_result (string_value buf x) (\<lambda>element.
              Inr (Some (path_append ops path (trim_path_element ops element))))))"

definition append_path_list :: "fs_ops \<Rightarrow> string \<Rightarrow> lazy_entry \<Rightarrow> string \<Rightarrow> string option result" where
  "append_path_list ops buf p root_dir =
     fold_result (append_path_element ops buf p) (list_indices p) (Some root_dir)"

definition is_pad_name :: "string \<Rightarrow> bool" where
  "is_pad_name path \<longleftrightarrow> find_substring ''_____padding_file_'' path \<noteq> None"

definition list_or_none :: "lazy_entry option \<Rightarrow> lazy_entry option" where
  "list_or_none r = (case r of Some p \<Rightarrow> if m_type p = List_t then Some p else None | None \<Rightarrow> None)"

definition named_file :: "fs_ops \<Rightarrow> string \<Rightarrow> int \<Rightarrow> int \<Rightarrow> file_entry" where
  "named_file ops path sz ts =
     (let target = verify_encoding_file (new_file_entry\<lparr>fe_size := sz, fe_mtime := (if ts \<ge> 0 then ts else 0),
            fe_path := sanitize_path ops path\<rparr>)
      in if is_pad_name (fe_path target) then target\<lparr>fe_pad_file := True\<rparr> else target)"

text \<open>\<open>extract_single_file\<close>: \<open>None\<close> for the return value false.\<close>

definition extract_single_file :: "fs_ops \<Rightarrow> string \<Rightarrow> lazy_entry \<Rightarrow> string \<Rightarrow> file_entry option result" where
  "extract_single_file ops buf dict root_dir =
     bind_result (dict_find buf ''length'' dict) (\<lambda>len.
       case len of
         None \<Rightarrow> Inr None
       | Some l \<Rightarrow>
           if m_type l \<noteq> Int_t then Inr None
           else
             bind_result (int_value buf l) (\<lambda>sz.
             bind_result (dict_find_int_value buf ''mtime'' (- 1) dict) (\<lambda>ts.
             bind_result (dict_find buf ''path.utf-8'' dict) (\<lambda>p1.
             bind_result (if list_or_none p1 = None then dict_find buf ''path'' dict else Inr p1) (\<lambda>p2.
               case list_or_none p2 of
                 None \<Rightarrow> Inr None
               | Some p \<Rightarrow>
                   bind_result (append_path_list ops buf p root_dir) (\<lambda>r.
                     case r of
                       None \<Rightarrow> Inr None
                     | Some path \<Rightarrow>
                         bind_result (extract_attributes buf dict (named_file ops path sz ts)) (\<lambda>t4.
                         bind_result (extract_symlink ops buf dict t4) (\<lambda>t5. Inr (Some t5)))))))))"

definition same_paths :: "file_entry list \<Rightarrow> string \<Rightarrow> nat" where
  "same_paths fs path = length (filter (\<lambda>k. string_equal_no_case (c_str path) (c_str (fe_path k))) fs)"

text \<open>
  A name that is taken gets the number of files with that name in front of its extension.
  \<open>snprintf\<close> cuts the suffix to 14 characters.
\<close>

definition store_file :: "fs_ops \<Rightarrow> file_entry \<Rightarrow> file_storage \<Rightarrow> file_storage" where
  "store_file ops e target =
     (let cnt = same_paths (m_files target) (fe_path e);
          e' = (if cnt = 0 then e
                else e\<lparr>fe_path := replace_extension ops (fe_path e)
                         (take 14 (''.'' @ decimal cnt) @ path_extension ops (fe_path e))\<rparr>)
      in add_file_entry ops e' target)"

definition extract_file_at :: "fs_ops \<Rightarrow> string \<Rightarrow> lazy_entry \<Rightarrow> string \<Rightarrow> int \<Rightarrow> file_storage option
    \<Rightarrow> file_storage option result" where
  "extract_file_at ops buf l root_dir i acc =
     (case acc of
        None \<Rightarrow> Inr None
      | Some target \<Rightarrow>
          bind_result (list_at i l) (\<lambda>x.
          bind_result (extract_single_file ops buf x root_dir) (\<lambda>r.
            Inr (map_option (\<lambda>e. store_file ops e target) r))))"

definition extract_files :: "fs_ops \<Rightarrow> string \<Rightarrow> lazy_entry \<Rightarrow> string \<Rightarrow> file_storage \<Rightarrow> file_storage option result" where
  "extract_files ops buf l root_dir target =
     (if m_type l \<noteq> List_t then Inr None
      else fold_result (extract_file_at ops buf l root_dir) (list_indices l) (Some target))"

subsection \<open>The info dictionary\<close>

definition single_file_entry :: "fs_ops \<Rightarrow> string \<Rightarrow> lazy_entry \<Rightarrow> string \<Rightarrow> file_entry result" where
  "single_file_entry ops buf info name =
     bind_result (dict_find_int_value buf ''length'' (- 1) info) (\<lambda>sz.
     bind_result (dict_find_int_value buf ''mtime'' (- 1) info) (\<lambda>ts.
     bind_result (extract_attributes buf info
         (new_file_entry\<lparr>fe_path := name, fe_offset := 0, fe_size := sz, fe_mtime := (if ts \<ge> 0 then ts else 0)\<rparr>)) (\<lambda>e1.
     bind_result (extract_symlink ops buf info e1) (\<lambda>e2.
       let e3 = (if is_pad_name (fe_path e2) then e2\<lparr>fe_pad_file := True\<rparr> else e2)
       in if fe_size e3 < 0 then Inl (Thrown ''torrent_invalid_length'') else Inr e3))))"

definition read_files :: "fs_ops \<Rightarrow> string \<Rightarrow> lazy_entry \<Rightarrow> string \<Rightarrow> torrent_info \<Rightarrow> torrent_info result" where
  "read_files ops buf info name ti =
     bind_result (dict_find_list buf ''files'' info) (\<lambda>i.
       case i of
         None \<Rightarrow>
           bind_result (single_file_entry ops buf info name) (\<lambda>e.
             Inr (ti\<lparr>ti_files := add_file_entry ops e (ti_files ti), ti_multifile := False\<rparr>))
       | Some l \<Rightarrow>
           bind_result (extract_files ops buf l name (ti_files ti)) (\<lambda>r.
             case r of
               None \<Rightarrow> Inl (Thrown ''torrent_file_parse_failed'')
             | Some fs \<Rightarrow> Inr (ti\<lparr>ti_files := fs, ti_multifile := True\<rparr>)))"

definition piece_count :: "file_storage \<Rightarrow> int" where
  "piece_count st =
     int32 (int64 (int64 (m_total_size st + m_piece_length st) - 1) sdiv m_piece_length st)"

text \<open>\<open>std::memset\<close> and \<open>assign\<close>: a tree of zeros with the root hash in front.\<close>

definition empty_merkle_tree :: "int \<Rightarrow> sha1_hash \<Rightarrow> sha1_hash list \<times> int" where
  "empty_merkle_tree num_pieces root =
     (let num_leafs = merkle_num_leafs num_pieces;
          num_nodes = merkle_num_nodes num_leafs
      in ((replicate (nat num_nodes) (replicate 20 (CHR 0x00)))[0 := root], int32 (num_nodes - num_leafs)))"

definition is_string :: "lazy_entry option \<Rightarrow> bool" where
  "is_string r \<longleftrightarrow> (case r of None \<Rightarrow> False | Some x \<Rightarrow> m_type x = String_t)"

definition read_hashes :: "string \<Rightarrow> lazy_entry \<Rightarrow> int \<Rightarrow> torrent_info \<Rightarrow> torrent_info result" where
  "read_hashes buf info section ti =
     bind_result (dict_find buf ''pieces'' info) (\<lambda>pieces.
     bind_result (dict_find buf ''root hash'' info) (\<lambda>root_hash.
       if \<not> is_string pieces \<and> \<not> is_string root_hash then Inl (Thrown ''torrent_missing_pieces'')
       else case pieces of
         Some x \<Rightarrow>
           if string_length x \<noteq> int32 (m_num_pieces (ti_files ti) * 20) then Inl (Thrown ''torrent_invalid_hashes'')
           else (case m_start x of
                   None \<Rightarrow> Inl Wrong_member
                 | Some p \<Rightarrow> Inr (ti\<lparr>ti_piece_hashes := Some (p - section)\<rparr>))
       | None \<Rightarrow>
           (case root_hash of
              None \<Rightarrow> Inl Null_pointer
            | Some x \<Rightarrow>
                if string_length x \<noteq> 20 then Inl (Thrown ''torrent_invalid_hashes'')
                else bind_result (string_value buf x) (\<lambda>root.
                  let (tree, first_leaf) = empty_merkle_tree (m_num_pieces (ti_files ti)) root
                  in Inr (ti\<lparr>ti_merkle_tree := tree, ti_merkle_first_leaf := first_leaf\<rparr>)))))"

text \<open>\<open>name.utf-8\<close>, or \<open>name\<close> where that is missing or empty.\<close>

definition utf8_or :: "string \<Rightarrow> string \<Rightarrow> string \<Rightarrow> lazy_entry \<Rightarrow> string result" where
  "utf8_or buf key_utf8 key e =
     bind_result (dict_find_string_value buf key_utf8 e) (\<lambda>s.
       if s = [] then dict_find_string_value buf key e else Inr s)"

definition parse_info_section :: "fs_ops \<Rightarrow> (string \<Rightarrow> sha1_hash) \<Rightarrow> string \<Rightarrow> lazy_entry \<Rightarrow> torrent_info
    \<Rightarrow> torrent_info result" where
  "parse_info_section ops hash buf info ti =
     (if m_type info \<noteq> Dict_t then Inl (Thrown ''torrent_info_no_dict'')
      else
        bind_result (data_section info) (\<lambda>(section, section_size).
          if section < 0 \<or> section_size < 0 \<or> section + section_size > int (length buf) then Inl Out_of_bounds
          else
            let bytes = subbytes buf section section_size;
                ti1 = ti\<lparr>ti_info_hash := hash bytes, ti_info_section := bytes\<rparr>
            in
            bind_result (dict_find_int_value buf ''piece length'' (- 1) info) (\<lambda>pl.
              let piece_length = int32 pl in
              if piece_length \<le> 0 then Inl (Thrown ''torrent_missing_piece_length'')
              else
                bind_result (utf8_or buf ''name.utf-8'' ''name'' info) (\<lambda>name0.
                  if name0 = [] then Inl (Thrown ''torrent_missing_name'')
                  else
                    let name1 = sanitize_path ops name0 in
                    if \<not> valid_path_element name1 then Inl (Thrown ''torrent_invalid_name'')
                    else
                      let name = fst (verify_encoding name1);
                          ti2 = ti1\<lparr>ti_files := set_piece_length piece_length (ti_files ti1)\<rparr>
                      in
                      bind_result (read_files ops buf info name ti2) (\<lambda>ti3.
                        let fs = set_name name (ti_files ti3);
                            ti4 = ti3\<lparr>ti_files := set_num_pieces (piece_count fs) fs\<rparr>
                        in
                        bind_result (read_hashes buf info section ti4) (\<lambda>ti5.
                        bind_result (dict_find_int_value buf ''private'' 0 info) (\<lambda>private.
                          Inr (ti5\<lparr>ti_private := (private \<noteq> 0)\<rparr>))))))))"

subsection \<open>The whole file\<close>

definition read_tier :: "string \<Rightarrow> lazy_entry \<Rightarrow> int \<Rightarrow> announce_entry list \<Rightarrow> announce_entry list result" where
  "read_tier buf l j urls =
     bind_result (list_at j l) (\<lambda>tier.
       if m_type tier \<noteq> List_t then Inr urls
       else
         fold_result (\<lambda>k acc.
             bind_result (list_string_value_at buf k tier) (\<lambda>u.
               if u = [] then Inr acc
               else Inr (acc @ [announce_trim ((new_announce_entry u)\<lparr>ae_tier := j mod 256, ae_fail_limit := 0,
                                  ae_source := 1\<rparr>)])))
           (list_indices tier) urls)"

fun shuffle_tiers :: "(announce_entry list \<Rightarrow> announce_entry list) \<Rightarrow> int \<Rightarrow> announce_entry list
    \<Rightarrow> announce_entry list \<Rightarrow> announce_entry list" where
  "shuffle_tiers shuffle current_tier seg [] = shuffle seg"
| "shuffle_tiers shuffle current_tier seg (e # es) =
     (if ae_tier e \<noteq> current_tier then shuffle seg @ shuffle_tiers shuffle (ae_tier e) [e] es
      else shuffle_tiers shuffle current_tier (seg @ [e]) es)"

definition read_trackers :: "(announce_entry list \<Rightarrow> announce_entry list) \<Rightarrow> string \<Rightarrow> lazy_entry
    \<Rightarrow> announce_entry list result" where
  "read_trackers shuffle buf torrent_file =
     bind_result (dict_find_list buf ''announce-list'' torrent_file) (\<lambda>i.
     bind_result (case i of None \<Rightarrow> Inr [] | Some l \<Rightarrow> fold_result (read_tier buf l) (list_indices l) []) (\<lambda>urls.
       if urls \<noteq> [] then Inr (shuffle_tiers shuffle (ae_tier (hd urls)) [] urls)
       else
         bind_result (dict_find_string_value buf ''announce'' torrent_file) (\<lambda>u.
           let e = announce_trim ((new_announce_entry u)\<lparr>ae_fail_limit := 0, ae_source := 1\<rparr>)
           in Inr (if ae_url e = [] then [] else [e]))))"

definition read_nodes :: "string \<Rightarrow> lazy_entry \<Rightarrow> (string \<times> int) list result" where
  "read_nodes buf torrent_file =
     bind_result (dict_find_list buf ''nodes'' torrent_file) (\<lambda>r.
       case r of
         None \<Rightarrow> Inr []
       | Some l \<Rightarrow>
           fold_result (\<lambda>i acc.
               bind_result (list_at i l) (\<lambda>n.
                 if m_type n \<noteq> List_t \<or> list_size n < 2 then Inr acc
                 else bind_result (list_at 0 n) (\<lambda>x0. bind_result (list_at 1 n) (\<lambda>x1.
                   if m_type x0 \<noteq> String_t \<or> m_type x1 \<noteq> Int_t then Inr acc
                   else bind_result (string_value buf x0) (\<lambda>host. bind_result (int_value buf x1) (\<lambda>port.
                     Inr (acc @ [(host, int32 port)])))))))
             (list_indices l) [])"

text \<open>The seeds under a key: one string, or the strings of a list.\<close>

definition read_seeds :: "string \<Rightarrow> string \<Rightarrow> lazy_entry \<Rightarrow> string list result" where
  "read_seeds buf key torrent_file =
     bind_result (dict_find buf key torrent_file) (\<lambda>r.
       case r of
         None \<Rightarrow> Inr []
       | Some s \<Rightarrow>
           if m_type s = String_t then
             bind_result (string_value buf s) (\<lambda>url. Inr [maybe_url_encode url])
           else if m_type s = List_t then
             fold_result (\<lambda>i acc.
                 bind_result (list_at i s) (\<lambda>x.
                   if m_type x \<noteq> String_t then Inr acc
                   else bind_result (string_value buf x) (\<lambda>url. Inr (acc @ [maybe_url_encode url]))))
               (list_indices s) []
           else Inr [])"

definition parse_torrent_file :: "fs_ops \<Rightarrow> (string \<Rightarrow> sha1_hash) \<Rightarrow> (announce_entry list \<Rightarrow> announce_entry list)
    \<Rightarrow> string \<Rightarrow> lazy_entry \<Rightarrow> torrent_info \<Rightarrow> torrent_info result" where
  "parse_torrent_file ops hash shuffle buf torrent_file ti =
     (if m_type torrent_file \<noteq> Dict_t then Inl (Thrown ''torrent_is_no_dict'')
      else
        bind_result (read_trackers shuffle buf torrent_file) (\<lambda>urls.
        bind_result (read_nodes buf torrent_file) (\<lambda>nodes.
        bind_result (dict_find_int_value buf ''creation date'' (- 1) torrent_file) (\<lambda>cd.
        bind_result (read_seeds buf ''url-list'' torrent_file) (\<lambda>url_seeds.
        bind_result (read_seeds buf ''httpseeds'' torrent_file) (\<lambda>http_seeds.
        bind_result (utf8_or buf ''comment.utf-8'' ''comment'' torrent_file) (\<lambda>comment.
        bind_result (utf8_or buf ''created by.utf-8'' ''created by'' torrent_file) (\<lambda>created_by.
        bind_result (dict_find_dict buf ''info'' torrent_file) (\<lambda>info.
          let ti' = ti\<lparr>ti_urls := urls, ti_nodes := ti_nodes ti @ nodes,
                ti_creation_date := (if cd \<ge> 0 then Some cd else ti_creation_date ti),
                ti_url_seeds := ti_url_seeds ti @ url_seeds, ti_http_seeds := ti_http_seeds ti @ http_seeds,
                ti_comment := fst (verify_encoding comment), ti_created_by := fst (verify_encoding created_by)\<rparr>
          in case info of
               None \<Rightarrow> Inl (Thrown ''torrent_missing_info'')
             | Some x \<Rightarrow> parse_info_section ops hash buf x ti')))))))))"

text \<open>
  The throwing constructors, from a decoded file, a buffer and a file; \<open>None\<close> where the decoder
  does not return. A file that cannot be read gives an empty object.
\<close>

definition torrent_info_lazy :: "fs_ops \<Rightarrow> (string \<Rightarrow> sha1_hash) \<Rightarrow> (announce_entry list \<Rightarrow> announce_entry list)
    \<Rightarrow> string \<Rightarrow> lazy_entry \<Rightarrow> torrent_info result" where
  "torrent_info_lazy ops hash shuffle buf e = parse_torrent_file ops hash shuffle buf e new_torrent_info"

definition torrent_info_buffer :: "fs_ops \<Rightarrow> (string \<Rightarrow> sha1_hash) \<Rightarrow> (announce_entry list \<Rightarrow> announce_entry list)
    \<Rightarrow> string \<Rightarrow> torrent_info result option" where
  "torrent_info_buffer ops hash shuffle buf =
     (case lazy_bdecode buf 1000 of
        None \<Rightarrow> None
      | Some (r, e) \<Rightarrow>
          Some (bind_result r (\<lambda>ret.
            if ret \<noteq> 0 then Inl (Thrown ''invalid_bencoding'')
            else parse_torrent_file ops hash shuffle buf e new_torrent_info)))"

text \<open>
  \<open>load_file\<close>: the file system is a map from names to contents, and \<open>nread\<close> what \<open>readv\<close>
  returns for a file.
\<close>

definition load_file :: "(string \<Rightarrow> string option) \<Rightarrow> (string \<Rightarrow> int) \<Rightarrow> string \<Rightarrow> int \<times> string" where
  "load_file disk nread filename =
     (case disk filename of
        None \<Rightarrow> (- 1, [])
      | Some v \<Rightarrow>
          if length v > 5000000 then (- 2, [])
          else if v = [] then (0, [])
          else if nread filename \<noteq> int (length v) then (- 3, v)
          else (0, v))"

definition torrent_info_file :: "fs_ops \<Rightarrow> (string \<Rightarrow> sha1_hash) \<Rightarrow> (announce_entry list \<Rightarrow> announce_entry list)
    \<Rightarrow> (string \<Rightarrow> string option) \<Rightarrow> (string \<Rightarrow> int) \<Rightarrow> string \<Rightarrow> torrent_info result option" where
  "torrent_info_file ops hash shuffle disk nread filename =
     (let (ret, buf) = load_file disk nread filename in
      if ret < 0 then Some (Inr new_torrent_info)
      else torrent_info_buffer ops hash shuffle buf)"

text \<open>\<open>std::sort\<close> by tier is a parameter: it does not fix the order within a tier.\<close>

definition add_tracker :: "(announce_entry list \<Rightarrow> announce_entry list) \<Rightarrow> string \<Rightarrow> int \<Rightarrow> torrent_info \<Rightarrow> torrent_info" where
  "add_tracker sort_by_tier url tier ti =
     ti\<lparr>ti_urls := sort_by_tier (ti_urls ti @ [(new_announce_entry url)\<lparr>ae_tier := tier mod 256, ae_source := 2\<rparr>])\<rparr>"

text \<open>\<open>swap\<close> of two objects. It leaves the HTTP seeds and the Merkle tree where they are.\<close>

definition torrent_swap :: "torrent_info \<Rightarrow> torrent_info \<Rightarrow> torrent_info \<times> torrent_info" where
  "torrent_swap a b =
     (b\<lparr>ti_http_seeds := ti_http_seeds a, ti_merkle_tree := ti_merkle_tree a,
         ti_merkle_first_leaf := ti_merkle_first_leaf a\<rparr>,
      a\<lparr>ti_http_seeds := ti_http_seeds b, ti_merkle_tree := ti_merkle_tree b,
         ti_merkle_first_leaf := ti_merkle_first_leaf b\<rparr>)"

subsection \<open>Paths stay inside the download directory\<close>

lemma extract_attributes_path:
  assumes "extract_attributes buf dict t = Inr t'"
  shows "fe_path t' = fe_path t"
proof -
  obtain r where r: "(case r of None \<Rightarrow> Inr t
      | Some a \<Rightarrow> fold_result (read_attribute buf a) (map int [0..<nat (string_length a)]) t) = Inr t'"
    using assms by (auto simp: extract_attributes_def bind_result_Inr_iff)
  show ?thesis
  proof (cases r)
    case (Some a)
    then have "fold_result (read_attribute buf a) (map int [0..<nat (string_length a)]) t = Inr t'" using r by simp
    then show ?thesis
      by (rule fold_result_invariant [where P = "\<lambda>u. fe_path u = fe_path t"])
        (auto simp: read_attribute_def bind_result_Inr_iff attr_flag_def split: option.splits if_splits)
  qed (use r in simp)
qed

lemma extract_symlink_path:
  assumes "extract_symlink ops buf dict t = Inr t'"
  shows "fe_path t' = fe_path t"
proof -
  obtain r where r: "(case r of None \<Rightarrow> Inr t
      | Some s \<Rightarrow> if m_type s = List_t then fold_result (append_symlink_element ops buf s) (list_indices s) t else Inr t) = Inr t'"
    using assms by (auto simp: extract_symlink_def bind_result_Inr_iff)
  show ?thesis
  proof (cases "\<exists>s. r = Some s \<and> m_type s = List_t")
    case True
    then obtain s where "fold_result (append_symlink_element ops buf s) (list_indices s) t = Inr t'" using r by auto
    then show ?thesis
      by (rule fold_result_invariant [where P = "\<lambda>u. fe_path u = fe_path t"])
        (auto simp: append_symlink_element_def bind_result_Inr_iff)
  qed (use r in \<open>auto split: option.splits if_splits\<close>)
qed

lemma named_file_inside: "path_grammar ops \<Longrightarrow> inside (fe_path (named_file ops path sz ts))"
  by (simp add: named_file_def Let_def path_grammar.verified_inside path_grammar.sanitize_inside)

lemma extract_single_file_inside:
  assumes "path_grammar ops" and "extract_single_file ops buf dict root_dir = Inr (Some e)"
  shows "inside (fe_path e)"
proof -
  from assms(2) obtain t t' path sz ts where "extract_attributes buf dict t = Inr t'"
    "extract_symlink ops buf dict t' = Inr e" "t = named_file ops path sz ts"
    unfolding extract_single_file_def
    by (auto elim!: bind_resultE split: option.splits if_splits)
  then show ?thesis
    using extract_attributes_path [of buf dict t t'] extract_symlink_path [of ops buf dict t' e]
      named_file_inside [OF assms(1)] by simp
qed

definition files_inside :: "file_storage \<Rightarrow> bool" where
  "files_inside st \<longleftrightarrow> (\<forall>f \<in> set (m_files st). inside (fe_path f))"

lemma files_inside_store:
  assumes "path_grammar ops" "files_inside st" "inside (fe_path e)"
  shows "files_inside (store_file ops e st)"
  using assms path_grammar.renamed_inside [OF assms(1,3)]
  by (auto simp: files_inside_def store_file_def add_file_entry_def Let_def)

lemma extract_files_inside:
  assumes "path_grammar ops" and "extract_files ops buf l root_dir st = Inr (Some st')" and "files_inside st"
  shows "files_inside st'"
proof -
  let ?P = "\<lambda>acc. pred_option files_inside acc"
  have "fold_result (extract_file_at ops buf l root_dir) (list_indices l) (Some st) = Inr (Some st')"
    using assms(2) by (auto simp: extract_files_def split: if_splits)
  then have "?P (Some st')"
  proof (rule fold_result_invariant [where P = ?P])
    show "?P acc'" if "?P acc" "extract_file_at ops buf l root_dir i acc = Inr acc'" for i acc acc'
      using that extract_single_file_inside [OF assms(1)] files_inside_store [OF assms(1)]
      by (auto simp: extract_file_at_def bind_result_Inr_iff pred_option_def split: option.splits)
  qed (use assms(3) in simp)
  then show ?thesis by simp
qed

lemma single_file_path: "single_file_entry ops buf info name = Inr e \<Longrightarrow> fe_path e = name"
  unfolding single_file_entry_def
  by (auto elim!: bind_resultE simp: Let_def dest!: extract_attributes_path extract_symlink_path split: if_splits)

lemma read_files_inside:
  assumes "path_grammar ops" "files_inside (ti_files ti)" "inside name"
    and "read_files ops buf info name ti = Inr ti'"
  shows "files_inside (ti_files ti')"
proof -
  from assms(4) consider e where "single_file_entry ops buf info name = Inr e"
      "ti_files ti' = add_file_entry ops e (ti_files ti)"
    | l fs where "extract_files ops buf l name (ti_files ti) = Inr (Some fs)" "ti_files ti' = fs"
    unfolding read_files_def by (auto elim!: bind_resultE split: option.splits)
  then show ?thesis
  proof cases
    case 1
    then show ?thesis using assms(2,3) single_file_path [OF 1(1)]
      by (auto simp: files_inside_def add_file_entry_def Let_def)
  next
    case 2
    then show ?thesis using extract_files_inside [OF assms(1)] assms(2) by blast
  qed
qed

lemma read_hashes_files: "read_hashes buf info sec ti = Inr ti' \<Longrightarrow> ti_files ti' = ti_files ti"
  unfolding read_hashes_def by (auto elim!: bind_resultE simp: Let_def split: option.splits if_splits prod.splits)

text \<open>What a successful run of \<open>parse_info_section\<close> went through.\<close>

lemma parse_info_section_cases:
  assumes "parse_info_section ops hash buf info ti = Inr ti'"
  obtains sec sz piece_length name0 ti2 ti3 ti5 where
    "m_type info = Dict_t" "data_section info = Inr (sec, sz)"
    "0 \<le> sec" "0 \<le> sz" "sec + sz \<le> int (length buf)"
    "0 < piece_length" "piece_length < 2 ^ 31" "valid_path_element (sanitize_path ops name0)"
    "ti2 = ti\<lparr>ti_info_hash := hash (subbytes buf sec sz), ti_info_section := subbytes buf sec sz,
       ti_files := set_piece_length piece_length (ti_files ti)\<rparr>"
    "read_files ops buf info (fst (verify_encoding (sanitize_path ops name0))) ti2 = Inr ti3"
    "ti5 = ti3\<lparr>ti_files := set_num_pieces (piece_count (set_name (fst (verify_encoding (sanitize_path ops name0))) (ti_files ti3)))
       (set_name (fst (verify_encoding (sanitize_path ops name0))) (ti_files ti3))\<rparr>"
    "\<exists>ti6 p. read_hashes buf info sec ti5 = Inr ti6 \<and> ti' = ti6\<lparr>ti_private := p\<rparr>"
proof -
  from assms obtain sec sz pl name0 ti3 ti6 p where raw:
    "m_type info = Dict_t" "data_section info = Inr (sec, sz)"
    "\<not> (sec < 0 \<or> sz < 0 \<or> sec + sz > int (length buf))" "\<not> int32 pl \<le> 0"
    "valid_path_element (sanitize_path ops name0)"
    "read_files ops buf info (fst (verify_encoding (sanitize_path ops name0)))
      (ti\<lparr>ti_info_hash := hash (subbytes buf sec sz), ti_info_section := subbytes buf sec sz,
       ti_files := set_piece_length (int32 pl) (ti_files ti)\<rparr>) = Inr ti3"
    "read_hashes buf info sec (ti3\<lparr>ti_files :=
       set_num_pieces (piece_count (set_name (fst (verify_encoding (sanitize_path ops name0))) (ti_files ti3)))
       (set_name (fst (verify_encoding (sanitize_path ops name0))) (ti_files ti3))\<rparr>) = Inr ti6"
    "ti' = ti6\<lparr>ti_private := p\<rparr>"
    unfolding parse_info_section_def by (auto elim!: bind_resultE simp: Let_def split: if_splits)
  have "int32 pl < 2 ^ 31" using in_int32_int32 [of pl] unfolding in_int32_def by blast
  with raw show thesis
    by (intro that [OF raw(1,2) _ _ _ _ _ raw(5) refl raw(6) refl]) auto
qed

lemma torrent_info_buffer_parsed:
  assumes "torrent_info_buffer ops hash shuffle buf = Some (Inr ti)"
  obtains x ti0 where "parse_info_section ops hash buf x ti0 = Inr ti" "ti_files ti0 = new_file_storage"
  using assms unfolding torrent_info_buffer_def parse_torrent_file_def
  by (auto elim!: bind_resultE simp: Let_def new_torrent_info_def split: option.splits if_splits prod.splits)

end
