(* ===== verification/TorrentStatus.thy ===== *)
theory TorrentStatus
  imports TorrentInfo
begin

section \<open>The state of the downloads (\<open>im1/imdaemon/torrentStatus.cpp\<close>, \<open>torrentStatus.h\<close>)\<close>

text \<open>
  One object of the daemon remembers which files of a torrent were downloaded. The members
  that the constructor leaves uninitialised are zero or empty here; they are not read while
  \<open>empty\<close> is set. \<open>fileStatus\<close> is the array allocated by \<open>init\<close>; reading or writing outside
  it is the fault \<open>Out_of_bounds\<close>. The environment of the daemon is a record: the files it can
  read, the modification times that \<open>stat\<close> and \<open>lstat\<close> report, whether a path is a regular
  file, the parameters of the torrent library, and the states a download goes through.
\<close>

datatype state_t = Queued_for_checking | Checking_files | Downloading_metadata | Downloading | Finished
  | Seeding | Allocating | Checking_resume_data

record daemon_env =
  env_ops :: fs_ops
  env_hash :: "string \<Rightarrow> sha1_hash"
  env_shuffle :: "announce_entry list \<Rightarrow> announce_entry list"
  env_disk :: "string \<Rightarrow> string option"   \<comment> \<open>contents of the regular files\<close>
  env_nread :: "string \<Rightarrow> int"   \<comment> \<open>what \<open>readv\<close> returns for a file\<close>
  env_stat :: "string \<Rightarrow> int option"   \<comment> \<open>\<open>st_mtime\<close>, if \<open>stat\<close> succeeds\<close>
  env_lstat :: "string \<Rightarrow> int option"   \<comment> \<open>the same for \<open>lstat\<close>\<close>
  env_isreg :: "string \<Rightarrow> bool"   \<comment> \<open>\<open>S_ISREG\<close>\<close>
  env_add :: "string \<Rightarrow> int list \<Rightarrow> unit result"   \<comment> \<open>\<open>session::add_torrent\<close> and \<open>prioritize_files\<close>, which may throw\<close>
  env_status :: "string \<Rightarrow> int list \<Rightarrow> nat \<Rightarrow> state_t"   \<comment> \<open>\<open>handle.status().state\<close>, by the number of the call\<close>

record torrentStatus =
  ts_empty :: bool
  ts_fileName :: string
  ts_filePath :: string
  ts_timestamp :: int
  ts_totalFiles :: int
  ts_fileStatus :: "bool list"
  ts_torrent_details :: "torrent_info option"

definition new_torrentStatus :: torrentStatus where
  "new_torrentStatus =
     \<lparr>ts_empty = True, ts_fileName = [], ts_filePath = [], ts_timestamp = 0, ts_totalFiles = 0,
      ts_fileStatus = [], ts_torrent_details = None\<rparr>"

definition isTorrentValid :: "int \<Rightarrow> torrentStatus \<Rightarrow> bool" where
  "isTorrentValid oldTime ts \<longleftrightarrow> (if oldTime = ts_timestamp ts then True else False)"

definition isEmpty :: "torrentStatus \<Rightarrow> bool" where
  "isEmpty ts = ts_empty ts"

definition setEmpty :: "bool \<Rightarrow> torrentStatus \<Rightarrow> torrentStatus" where
  "setEmpty e ts = ts\<lparr>ts_empty := e\<rparr>"

definition torrent_num_files :: "torrent_info \<Rightarrow> int" where
  "torrent_num_files ti = num_files (ti_files ti)"

definition status_init :: "torrentStatus \<Rightarrow> torrentStatus result" where
  "status_init ts =
     (case ts_torrent_details ts of
        None \<Rightarrow> Inl Null_pointer
      | Some t \<Rightarrow>
          let n = torrent_num_files t in
          Inr (ts\<lparr>ts_totalFiles := n, ts_fileStatus := replicate (nat n) False\<rparr>))"

text \<open>A write to an array.\<close>

definition write_at :: "'a list \<Rightarrow> int \<Rightarrow> 'a \<Rightarrow> 'a list result" where
  "write_at xs i v = (if 0 \<le> i \<and> i < int (length xs) then Inr (xs[nat i := v]) else Inl Out_of_bounds)"

text \<open>The inner loop of the migration: \<open>indexintj\<close> starts from 1.\<close>

fun migrate_file :: "file_entry \<Rightarrow> file_entry list \<Rightarrow> int \<Rightarrow> bool list \<Rightarrow> bool list result" where
  "migrate_file i [] indexintj newFileStatus = Inr newFileStatus"
| "migrate_file i (j # js) indexintj newFileStatus =
     (if fe_path i = fe_path j \<and> fe_mtime i = fe_mtime j then
        bind_result (write_at newFileStatus indexintj True) (migrate_file i js (indexintj + 1))
      else migrate_file i js (indexintj + 1) newFileStatus)"

text \<open>The outer loop, with \<open>indexint\<close>.\<close>

fun migrate_files :: "file_entry list \<Rightarrow> file_entry list \<Rightarrow> bool list \<Rightarrow> int \<Rightarrow> bool list \<Rightarrow> bool list result" where
  "migrate_files [] new fileStatus indexint newFileStatus = Inr newFileStatus"
| "migrate_files (i # is) new fileStatus indexint newFileStatus =
     bind_result (read_at fileStatus indexint) (\<lambda>done.
       if \<not> done then migrate_files is new fileStatus (indexint + 1) newFileStatus
       else bind_result (migrate_file i new 1 newFileStatus)
              (migrate_files is new fileStatus (indexint + 1)))"

text \<open>
  \<open>snapshotMigration\<close> returns the object also where it fails half-way: the time stamp is set
  before the loops. \<open>torrent_details\<close> is not set.
\<close>

definition torrent_info_path :: "daemon_env \<Rightarrow> string \<Rightarrow> torrent_info result" where
  "torrent_info_path env path =
     returned (torrent_info_file (env_ops env) (env_hash env) (env_shuffle env) (env_disk env) (env_nread env) path)"

definition snapshotMigration :: "daemon_env \<Rightarrow> string \<Rightarrow> torrentStatus \<Rightarrow> unit result \<times> torrentStatus" where
  "snapshotMigration env path ts =
     (case torrent_info_path env path of
        Inl f \<Rightarrow> (Inl f, ts)
      | Inr new_torrent_details \<Rightarrow>
          let ts1 = (case env_lstat env path of None \<Rightarrow> ts | Some t \<Rightarrow> ts\<lparr>ts_timestamp := t\<rparr>);
              newTotalFiles = torrent_num_files new_torrent_details
          in case ts_torrent_details ts1 of
               None \<Rightarrow> (Inl Null_pointer, ts1)
             | Some old \<Rightarrow>
                 (case migrate_files (m_files (ti_files old)) (m_files (ti_files new_torrent_details))
                         (ts_fileStatus ts1) 1 (replicate (nat newTotalFiles) False) of
                    Inl f \<Rightarrow> (Inl f, ts1)
                  | Inr newFileStatus \<Rightarrow>
                      (Inr (), ts1\<lparr>ts_fileStatus := newFileStatus, ts_totalFiles := newTotalFiles\<rparr>)))"

subsection \<open>Properties\<close>

text \<open>
  The status is well formed: its array has one element per file, and not more than the
  torrent that was first read has files, unless that one had none.
\<close>

definition status_ok :: "torrentStatus \<Rightarrow> bool" where
  "status_ok ts \<longleftrightarrow> ts_empty ts \<or> length (ts_fileStatus ts) = nat (ts_totalFiles ts) \<and>
     (case ts_torrent_details ts of
        None \<Rightarrow> False
      | Some ti \<Rightarrow> m_files (ti_files ti) = [] \<or> length (ts_fileStatus ts) \<le> length (m_files (ti_files ti)))"

lemma torrent_num_files_length:
  "length (m_files (ti_files ti)) < 2 ^ 31 \<Longrightarrow> torrent_num_files ti = int (length (m_files (ti_files ti)))"
  by (simp add: torrent_num_files_def num_files_def int32_id)

lemma write_at_Inr: "write_at xs i v = Inr ys \<longleftrightarrow> 0 \<le> i \<and> i < int (length xs) \<and> ys = xs[nat i := v]"
  by (auto simp: write_at_def)

lemma write_at_Inl: "write_at xs i v = Inl f \<longleftrightarrow> (i < 0 \<or> int (length xs) \<le> i) \<and> f = Out_of_bounds"
  by (auto simp: write_at_def)

lemma migrate_file_length: "migrate_file i js k ns = Inr ns' \<Longrightarrow> length ns' = length ns"
  by (induction i js k ns rule: migrate_file.induct)
    (auto simp: write_at_Inr elim!: bind_resultE split: if_splits)

lemma migrate_files_length: "migrate_files is js fs k ns = Inr ns' \<Longrightarrow> length ns' = length ns"
  by (induction "is" js fs k ns rule: migrate_files.induct)
    (auto simp: migrate_file_length elim!: bind_resultE split: if_splits)

lemma migrate_file_fault: "migrate_file i js k ns = Inl f \<Longrightarrow> f = Out_of_bounds"
  by (induction i js k ns rule: migrate_file.induct)
    (auto simp: bind_result_def write_at_Inl split: sum.splits if_splits)

lemma migrate_files_out_of_bounds:
  assumes "fs \<noteq> []" "length fileStatus \<le> nat k + length fs - 1" "0 < k"
  shows "migrate_files fs new fileStatus k ns = Inl Out_of_bounds"
  using assms
proof (induction fs arbitrary: k ns)
  case (Cons i fs)
  show ?case
  proof (cases "k < int (length fileStatus)")
    case True
    then have IH: "migrate_files fs new fileStatus (k + 1) ns' = Inl Out_of_bounds" for ns'
      using Cons.prems by (intro Cons.IH) auto
    show ?thesis
      using True Cons.prems(3) IH
      by (cases "migrate_file i new 1 ns") (auto simp: read_at_def dest: migrate_file_fault)
  qed (use Cons.prems in \<open>simp add: read_at_def\<close>)
qed simp

lemma nat_num_files_le: "nat (torrent_num_files ti) \<le> length (m_files (ti_files ti))"
proof -
  have "int32 (int n) \<le> int n" for n
  proof (cases "n < 2 ^ 31")
    case False
    then have "int32 (int n) < int n" using in_int32_int32 [of "int n"] by (simp add: in_int32_def)
    then show ?thesis by simp
  qed (simp add: int32_id)
  then show ?thesis by (simp add: torrent_num_files_def num_files_def nat_le_iff)
qed

text \<open>The migration only succeeds where the old torrent had no files, and then marks nothing.\<close>

lemma snapshotMigration_Inr:
  assumes "snapshotMigration env path ts = (Inr (), ts')" "status_ok ts" "\<not> ts_empty ts"
  obtains n where "ts_fileStatus ts' = replicate (nat n) False" "ts_totalFiles ts' = n" "ts_empty ts' = ts_empty ts"
    "ts_torrent_details ts' = ts_torrent_details ts"
    "\<exists>ti. ts_torrent_details ts = Some ti \<and> m_files (ti_files ti) = []"
proof -
  obtain old where old: "ts_torrent_details ts = Some old"
    "m_files (ti_files old) = [] \<or> length (ts_fileStatus ts) \<le> length (m_files (ti_files old))"
    using assms(2,3) by (auto simp: status_ok_def split: option.splits)
  define ts1 where "ts1 = (case env_lstat env path of None \<Rightarrow> ts | Some t \<Rightarrow> ts\<lparr>ts_timestamp := t\<rparr>)"
  have ts1: "ts_torrent_details ts1 = Some old" "ts_fileStatus ts1 = ts_fileStatus ts" "ts_empty ts1 = ts_empty ts"
    using old(1) by (auto simp: ts1_def split: option.splits)
  from assms(1) obtain new where new: "torrent_info_path env path = Inr new"
    by (auto simp: snapshotMigration_def split: sum.splits)
  show thesis
  proof (cases "m_files (ti_files old) = []")
    case True
    then have "ts' = ts1\<lparr>ts_fileStatus := replicate (nat (torrent_num_files new)) False, ts_totalFiles := torrent_num_files new\<rparr>"
      using assms(1) ts1 by (simp add: snapshotMigration_def new Let_def flip: ts1_def)
    then show thesis using True ts1 old(1) by (intro that) auto
  next
    case False
    then have "migrate_files (m_files (ti_files old)) (m_files (ti_files new)) (ts_fileStatus ts1) 1
        (replicate (nat (torrent_num_files new)) False) = Inl Out_of_bounds"
      using old(2) ts1(2) by (intro migrate_files_out_of_bounds) auto
    then show thesis using assms(1) ts1 by (simp add: snapshotMigration_def new Let_def flip: ts1_def)
  qed
qed

lemma snapshotMigration_Inl:
  assumes "snapshotMigration env path ts = (Inl f, ts')"
  shows "ts_fileStatus ts' = ts_fileStatus ts" "ts_totalFiles ts' = ts_totalFiles ts" "ts_empty ts' = ts_empty ts"
    "ts_torrent_details ts' = ts_torrent_details ts"
  using assms by (auto simp: snapshotMigration_def Let_def split: sum.splits option.splits)

lemma snapshotMigration_ok:
  assumes "status_ok ts" "\<not> ts_empty ts"
  shows "status_ok (snd (snapshotMigration env path ts))"
    and "i < length (ts_fileStatus (snd (snapshotMigration env path ts))) \<Longrightarrow>
      ts_fileStatus (snd (snapshotMigration env path ts)) ! i \<Longrightarrow> i < length (ts_fileStatus ts) \<and> ts_fileStatus ts ! i"
proof -
  obtain r ts' where r: "snapshotMigration env path ts = (r, ts')" by (metis surj_pair)
  have "status_ok ts' \<and> (i < length (ts_fileStatus ts') \<and> ts_fileStatus ts' ! i \<longrightarrow> i < length (ts_fileStatus ts) \<and> ts_fileStatus ts ! i)"
  proof (cases r)
    case (Inl f)
    then show ?thesis using snapshotMigration_Inl [of env path ts f ts'] r assms by (auto simp: status_ok_def split: option.splits)
  next
    case (Inr u)
    then have "snapshotMigration env path ts = (Inr (), ts')" using r by simp
    then obtain n where "ts_fileStatus ts' = replicate (nat n) False" "ts_totalFiles ts' = n" "ts_empty ts' = ts_empty ts"
      "ts_torrent_details ts' = ts_torrent_details ts" "\<exists>ti. ts_torrent_details ts = Some ti \<and> m_files (ti_files ti) = []"
      using assms by (rule snapshotMigration_Inr)
    then show ?thesis by (auto simp: status_ok_def)
  qed
  with r show "status_ok (snd (snapshotMigration env path ts))"
    "i < length (ts_fileStatus (snd (snapshotMigration env path ts))) \<Longrightarrow>
      ts_fileStatus (snd (snapshotMigration env path ts)) ! i \<Longrightarrow> i < length (ts_fileStatus ts) \<and> ts_fileStatus ts ! i"
    by auto
qed

text \<open>
  C36: A torrent file that changed after its first use breaks the daemon: the two loops of
  \<open>snapshotMigration\<close> count the files from 1, so the migration from a torrent with at least one
  file always accesses an element behind the end of an array, whatever the new torrent holds.
\<close>

theorem snapshotMigration_out_of_bounds:
  assumes "torrent_info_path env path = Inr new" and "ts_torrent_details ts = Some old"
    and "m_files (ti_files old) \<noteq> []" and "length (ts_fileStatus ts) \<le> length (m_files (ti_files old))"
  shows "fst (snapshotMigration env path ts) = Inl Out_of_bounds"
proof -
  have "migrate_files (m_files (ti_files old)) new' (ts_fileStatus ts) 1 ns = Inl Out_of_bounds" for new' ns
    using assms by (intro migrate_files_out_of_bounds) auto
  then show ?thesis
    using assms(1,2) by (auto simp: snapshotMigration_def Let_def split: option.splits)
qed

end
