(* ===== verification/StdString.thy ===== *)
theory StdString
  imports Urls Bencode
begin

section \<open>Members of \<open>std::string\<close>\<close>

text \<open>
  The searches and the substring of \<open>std::string\<close> as the daemon calls them: positions are
  stored in variables of type \<open>int\<close>, so \<open>npos\<close> is -1, and an argument of type \<open>size_t\<close> that
  is computed from an \<open>int\<close> is taken modulo \<open>2 ^ 64\<close>. The strings of the daemon come from requests
  of at most 100 bytes and from torrents of at most 10,000,000 bytes, so a position fits in an
  \<open>int\<close>.
\<close>

definition str_find :: "string \<Rightarrow> string \<Rightarrow> int" where
  "str_find p s = (case find_substring p s of None \<Rightarrow> - 1 | Some i \<Rightarrow> int i)"

definition size_t :: "int \<Rightarrow> int" where
  "size_t x = take_bit 64 x"

definition str_rfind :: "char \<Rightarrow> string \<Rightarrow> int \<Rightarrow> int" where
  "str_rfind c s pos =
     (let t = take (nat (min (int (length s)) (size_t pos + 1))) s
      in int (length (dropWhile (\<lambda>d. d \<noteq> c) (rev t))) - 1)"

definition substr :: "string \<Rightarrow> int \<Rightarrow> int \<Rightarrow> string result" where
  "substr s pos n =
     (if int (length s) < size_t pos then Inl (Thrown ''out_of_range'')
      else Inr (take (nat (size_t n)) (drop (nat (size_t pos)) s)))"

definition npos :: int where
  "npos = - 1"

text \<open>
  A C string in an array, given by the position where it starts; without a zero byte behind that
  position, reading it leaves the array.
\<close>

definition c_string_at :: "string \<Rightarrow> nat \<Rightarrow> string result" where
  "c_string_at buf i =
     (if CHR 0x00 \<in> set (drop i buf) then Inr (c_str (drop i buf)) else Inl Out_of_bounds)"

subsection \<open>Laws\<close>

lemma size_t_id [simp]: "0 \<le> x \<Longrightarrow> x < 2 ^ 64 \<Longrightarrow> size_t x = x"
  unfolding size_t_def by (rule take_bit_int_eq_self)

lemma size_t_range: "0 \<le> size_t x" "size_t x < 2 ^ 64"
  unfolding size_t_def by (rule take_bit_nonnegative) (rule take_bit_int_less_exp)

lemma size_t_npos [simp]: "size_t (- 1) = 2 ^ 64 - 1" "size_t npos = 2 ^ 64 - 1"
  by (simp_all add: size_t_def npos_def take_bit_minus_one_eq_mask mask_eq_exp_minus_1)

lemma substr_whole:
  "length s < 2 ^ 63 \<Longrightarrow> int (length s) \<le> size_t n \<Longrightarrow> substr s 0 n = Inr s"
  by (simp add: substr_def)

lemma substr_prefix: "length a < 2 ^ 63 \<Longrightarrow> substr (a @ b) 0 (int (length a)) = Inr a"
  by (simp add: substr_def)

lemma substr_suffix:
  assumes "length (a @ b) < 2 ^ 63" "p = int (length a)" "int (length b) \<le> size_t n"
  shows "substr (a @ b) p n = Inr b"
  using assms by (simp add: substr_def)

lemma find_substring_char:
  "find_substring [c] s = (if c \<in> set s then Some (length (takeWhile (\<lambda>d. d \<noteq> c) s)) else None)"
  by (induction s) auto

lemma str_find_char:
  "str_find [c] s = (if c \<in> set s then int (length (takeWhile (\<lambda>d. d \<noteq> c) s)) else - 1)"
  by (simp add: str_find_def find_substring_char)

lemma str_find_char_hit [simp]: "c \<notin> set a \<Longrightarrow> str_find [c] (a @ c # b) = int (length a)"
  by (simp add: str_find_char takeWhile_miss)

lemma str_find_char_miss [simp]: "c \<notin> set a \<Longrightarrow> str_find [c] a = - 1"
  by (simp add: str_find_char)

lemma find_substring_append:
  assumes "find_substring p s = None" "\<forall>k < length p. 0 < k \<longrightarrow> k \<le> length s \<longrightarrow> drop (length s - k) s \<noteq> take k p"
  shows "find_substring p (s @ p @ r) = Some (length s)"
  using assms
proof (induction s)
  case Nil
  then show ?case by (cases p) auto
next
  case (Cons c s)
  have "take (length p) (c # s @ p @ r) \<noteq> p"
  proof
    assume eq: "take (length p) (c # s @ p @ r) = p"
    show False
    proof (cases "length p \<le> length (c # s)")
      case True
      then have "take (length p) (c # s) = p" using eq by (cases "length p") auto
      then show False using Cons.prems(1) by simp
    next
      case False
      then have "take (length (c # s)) p = c # s"
        using arg_cong [OF eq, of "take (length (c # s))"] by simp
      then show False using Cons.prems(2) False by (metis diff_self_eq_0 drop0 le_refl length_Cons not_less zero_less_Suc)
    qed
  qed
  moreover have "find_substring p (s @ p @ r) = Some (length s)"
  proof (rule Cons.IH)
    show "find_substring p s = None" using Cons.prems(1) by (auto split: if_splits)
    show "\<forall>k < length p. 0 < k \<longrightarrow> k \<le> length s \<longrightarrow> drop (length s - k) s \<noteq> take k p"
    proof (intro allI impI)
      fix k assume "k < length p" "0 < k" "k \<le> length s"
      then show "drop (length s - k) s \<noteq> take k p"
        using Cons.prems(2) [rule_format, of k] by (simp add: Suc_diff_le)
    qed
  qed
  ultimately show ?case by simp
qed

lemma str_rfind_hit:
  assumes "c \<notin> set b" "int (length a) \<le> size_t pos"
    "s = a @ c # b @ r" "size_t pos \<le> int (length a + length b)"
  shows "str_rfind c s pos = int (length a)"
proof -
  define k where "k = nat (size_t pos - int (length a))"
  have k: "size_t pos = int (length a + k)" "k \<le> length b" using assms(2,4) by (auto simp: k_def)
  have "nat (min (int (length s)) (size_t pos + 1)) = length a + 1 + k" using k assms(3) by auto
  then have "take (nat (min (int (length s)) (size_t pos + 1))) s = a @ c # take k b"
    using k(2) by (simp add: assms(3))
  moreover have "dropWhile (\<lambda>d. d \<noteq> c) (rev (a @ c # take k b)) = c # rev a"
    using assms(1) set_take_subset [of k b] by (auto simp: dropWhile_append)
  ultimately show ?thesis by (simp add: str_rfind_def)
qed

lemma str_rfind_miss:
  assumes "c \<notin> set a" "s = a @ r" "size_t pos < int (length a)"
  shows "str_rfind c s pos = - 1"
proof -
  have "take (nat (min (int (length s)) (size_t pos + 1))) s = take (nat (size_t pos + 1)) a"
    using assms(2,3) size_t_range [of pos] by (simp add: min_def)
  moreover have "dropWhile (\<lambda>d. d \<noteq> c) (rev (take (nat (size_t pos + 1)) a)) = []"
    using assms(1) by (auto simp: dropWhile_eq_Nil_conv dest: in_set_takeD)
  ultimately show ?thesis by (simp add: str_rfind_def)
qed

end
