(* ===== verification/Daemon.thy ===== *)
theory Daemon
  imports TorrentStatus StdString
begin

section \<open>Downloading files of a torrent (\<open>im1/imdaemon/daemon.cpp\<close>, \<open>daemon.h\<close>)\<close>

text \<open>
  The list of the files of a torrent (\<open>gettor\<close>), the searches in it, and \<open>getTorrent\<close>, which
  downloads one file. What the daemon does to the outside is a list of events. An operation
  with effects is a function on the state of the daemon that returns a result and the state,
  the latter also where it fails, because \<open>getTorrent\<close> catches exceptions and the changes made
  before remain. Output to the terminal and memory that is not released are left out.
\<close>

subsection \<open>State\<close>

datatype event =
    Download string "int list"   \<comment> \<open>torrent file, priorities of its files\<close>
  | Utime string int   \<comment> \<open>file, modification time\<close>
  | Write_index string string   \<comment> \<open>file, content\<close>

record daemon =
  d_status :: torrentStatus
  d_events :: "event list"

definition new_daemon :: daemon where
  "new_daemon = \<lparr>d_status = new_torrentStatus, d_events = []\<rparr>"

type_synonym 'a act = "daemon \<Rightarrow> 'a result \<times> daemon"

definition pure :: "'a result \<Rightarrow> 'a act" where
  "pure r d = (r, d)"

definition bind_act :: "'a act \<Rightarrow> ('a \<Rightarrow> 'b act) \<Rightarrow> 'b act" where
  "bind_act m f d = (case m d of (Inl e, d') \<Rightarrow> (Inl e, d') | (Inr x, d') \<Rightarrow> f x d')"

definition emit :: "event \<Rightarrow> unit act" where
  "emit e d = (Inr (), d\<lparr>d_events := d_events d @ [e]\<rparr>)"

definition with_status :: "(torrentStatus \<Rightarrow> 'a result \<times> torrentStatus) \<Rightarrow> 'a act" where
  "with_status f d = (case f (d_status d) of (r, ts) \<Rightarrow> (r, d\<lparr>d_status := ts\<rparr>))"

text \<open>The handler \<open>catch (std::exception& e)\<close> around the body of \<open>getTorrent\<close>.\<close>

definition caught :: "unit act \<Rightarrow> unit act" where
  "caught m d = (case m d of (Inl (Thrown e), d') \<Rightarrow> (Inr (), d') | r \<Rightarrow> r)"

subsection \<open>The files of a torrent\<close>

record torfile_list =
  tl_size :: int
  tl_name :: string
  tl_node_s :: int
  tl_node_f :: int
  tl_mtime :: int
  tl_symlink_attribute :: bool
  tl_symlink_path :: string

definition DISK_LOCATION :: string where
  "DISK_LOCATION = ''../www/''"

definition TORRENT_LOCATION :: string where
  "TORRENT_LOCATION = ''../torrents/''"

text \<open>
  One round of the loop of \<open>gettor\<close>. The object \<open>list\<close> is created before the loop, so a link
  target stays in it for the files that follow; its first target is the empty string.
\<close>

definition gettor_entry :: "torrent_info \<Rightarrow> nat \<times> file_entry \<Rightarrow> string \<times> torfile_list list
    \<Rightarrow> (string \<times> torfile_list list) result" where
  "gettor_entry t = (\<lambda>(index, i) (symlink_path, tor_list).
     bind_result (map_file (int index) 0 1 (ti_files t)) (\<lambda>first.
     bind_result (map_file (int index) (int64 (fe_size i - 1)) 1 (ti_files t)) (\<lambda>last.
       let symlink_path' = (if fe_symlink_attribute i then fe_symlink_path i else symlink_path)
       in Inr (symlink_path', tor_list @
            [\<lparr>tl_size = fe_size i, tl_name = fe_path i, tl_node_s = pr_piece first, tl_node_f = pr_piece last,
              tl_mtime = fe_mtime i, tl_symlink_attribute = fe_symlink_attribute i,
              tl_symlink_path = symlink_path'\<rparr>]))))"

definition gettor_files :: "torrent_info \<Rightarrow> torfile_list list result" where
  "gettor_files t =
     bind_result (fold_result (gettor_entry t) (enumerate 0 (m_files (ti_files t))) ([], [])) (\<lambda>(_, tor_list). Inr tor_list)"

text \<open>The body of the \<open>try\<close> block: \<open>argvv\<close> is the path of the torrent file.\<close>

definition gettor_body :: "daemon_env \<Rightarrow> string \<Rightarrow> torfile_list list result" where
  "gettor_body env argvv =
     (case env_disk env argvv of
        None \<Rightarrow> Inl (Thrown ''file_size'')
      | Some buf \<Rightarrow>
          let size = int32 (int (length buf)) in
          if size > 10 * 1000000 then Inl (Exit (- 1))
          else if size < 0 then Inl (Thrown ''length_error'')
          else
            let buf = take (nat size) buf in
            (case lazy_bdecode buf 1000 of
               None \<Rightarrow> Inl Diverges
             | Some (r, e) \<Rightarrow>
                 bind_result r (\<lambda>ret.
                   if ret \<noteq> 0 then Inl (Exit (- 1))
                   else bind_result (torrent_info_lazy (env_ops env) (env_hash env) (env_shuffle env) buf e) gettor_files)))"

definition gettor :: "daemon_env \<Rightarrow> int \<Rightarrow> string \<Rightarrow> torfile_list list result" where
  "gettor env argc argv =
     (if argc \<noteq> 2 then Inl (Exit (- 1))
      else case gettor_body env (TORRENT_LOCATION @ argv) of
             Inl (Thrown e) \<Rightarrow> Inr []
           | r \<Rightarrow> r)"

definition getList :: "daemon_env \<Rightarrow> int \<Rightarrow> string \<Rightarrow> torfile_list list result" where
  "getList env a b = gettor env a b"

definition fileList :: "daemon_env \<Rightarrow> string \<Rightarrow> string list result" where
  "fileList env a =
     bind_result (gettor env 2 a) (\<lambda>list. Inr (map (\<lambda>l. c_str (tl_name l)) list @ [[CHR 0x0A]]))"

text \<open>The loop of \<open>check\<close>.\<close>

fun check_loop :: "string \<Rightarrow> int \<Rightarrow> torfile_list list \<Rightarrow> int" where
  "check_loop name i [] = - 1"
| "check_loop name i (l # ls) = (if tl_name l = name then i else check_loop name (i + 1) ls)"

definition check :: "daemon_env \<Rightarrow> string \<Rightarrow> string \<Rightarrow> int result" where
  "check env torrent_name path_tmp =
     bind_result (gettor env 2 (c_str torrent_name)) (\<lambda>list.
       Inr (check_loop (torrent_name @ ''/'' @ path_tmp) 0 list))"

definition check_file :: "daemon_env \<Rightarrow> string \<Rightarrow> int result" where
  "check_file env fileName =
     (let first = str_find ''/'' fileName in
      bind_result (substr fileName 0 first) (\<lambda>a.
      bind_result (substr fileName (first + 1) (int (length fileName) - first)) (\<lambda>b.
      bind_result (check env a b) (\<lambda>index_t.
        Inr (if index_t < 0 then 0 else 1)))))"

record torfile_list_C =
  tc_size :: int
  tc_name :: string
  tc_node_s :: int
  tc_node_f :: int
  tc_mtime :: int
  tc_symlink_attribute :: int
  tc_symlink_path :: "string option"   \<comment> \<open>\<open>None\<close>: not initialised\<close>

definition torfile_C :: "torfile_list \<Rightarrow> torfile_list_C" where
  "torfile_C l =
     \<lparr>tc_size = int32 (tl_size l), tc_name = c_str (tl_name l), tc_node_s = tl_node_s l, tc_node_f = tl_node_f l,
      tc_mtime = tl_mtime l, tc_symlink_attribute = (if tl_symlink_attribute l then 1 else 0),
      tc_symlink_path = (if tl_symlink_attribute l then Some (c_str (tl_symlink_path l)) else None)\<rparr>"

text \<open>\<open>tor_list_C\<close> writes behind an array of the caller that has \<open>room\<close> elements; it does not know their number.\<close>

definition tor_list_C :: "daemon_env \<Rightarrow> string \<Rightarrow> nat \<Rightarrow> (int \<times> torfile_list_C list) result" where
  "tor_list_C env a room =
     bind_result (gettor env 2 a) (\<lambda>list.
       if room < length list then Inl Out_of_bounds
       else Inr (int (length list), map torfile_C list))"

subsection \<open>Links\<close>

text \<open>
  The loop that resolves \<open>../\<close> in the target of a link. The state is the path, the position of
  the first \<open>../\<close> and whether \<open>break\<close> was executed; the substring calls do not throw, since the
  positions come from searches in the same string.
\<close>

definition symlink_step :: "string \<times> int \<times> bool \<Rightarrow> string \<times> int \<times> bool" where
  "symlink_step = (\<lambda>(sym_path, index_sym, _).
     let indx = str_rfind (CHR ''/'') sym_path (index_sym - 2);
         indx = str_rfind (CHR ''/'') sym_path (indx - 1)
     in if indx = - 1 then (sym_path, index_sym, True)
        else
          let sym_path = take (nat (indx + 1)) sym_path @ drop (nat (index_sym + 3)) sym_path
          in (sym_path, str_find ''../'' sym_path, False))"

definition resolve_symlink :: "string \<Rightarrow> string option" where
  "resolve_symlink sym_path =
     map_option fst
       (while_option (\<lambda>(_, index_sym, broken). index_sym \<noteq> - 1 \<and> \<not> broken) symlink_step
          (sym_path, str_find ''../'' sym_path, False))"

subsection \<open>Downloading one file\<close>

text \<open>The poll loop: the state of the torrent is read every five seconds until it is \<open>finished\<close>.\<close>

definition wait_finished :: "(nat \<Rightarrow> state_t) \<Rightarrow> unit result" where
  "wait_finished states =
     returned (map_option (\<lambda>_. Inr ()) (while_option (\<lambda>k. states k \<noteq> Finished) Suc 0))"

text \<open>A changed torrent file: the migration of the status.\<close>

definition migrate_if_changed :: "daemon_env \<Rightarrow> string \<Rightarrow> unit act" where
  "migrate_if_changed env fullTorrentPath = with_status (\<lambda>ts.
     case env_stat env fullTorrentPath of
       None \<Rightarrow> (Inr (), ts)
     | Some mtime \<Rightarrow>
         if \<not> isEmpty ts \<and> isTorrentValid mtime ts = False then snapshotMigration env fullTorrentPath ts
         else (Inr (), ts))"

definition already_downloaded :: "int \<Rightarrow> torrentStatus \<Rightarrow> bool result" where
  "already_downloaded index_t ts = (if \<not> isEmpty ts then read_at (ts_fileStatus ts) index_t else Inr False)"

text \<open>The first download fills the status.\<close>

definition fill_status :: "daemon_env \<Rightarrow> string \<Rightarrow> torrentStatus \<Rightarrow> unit result \<times> torrentStatus" where
  "fill_status env torrent_name ts =
     (if isEmpty ts then
        let path = TORRENT_LOCATION @ torrent_name in
        case torrent_info_path env (c_str path) of
          Inl f \<Rightarrow> (Inl f, ts)
        | Inr details \<Rightarrow>
            (case status_init (ts\<lparr>ts_torrent_details := Some details, ts_fileName := torrent_name, ts_filePath := path\<rparr>) of
               Inl f \<Rightarrow> (Inl f, ts)
             | Inr ts1 \<Rightarrow>
                 let ts2 = setEmpty False ts1 in
                 (Inr (), (case env_lstat env (c_str path) of None \<Rightarrow> ts2 | Some t \<Rightarrow> ts2\<lparr>ts_timestamp := t\<rparr>)))
      else (Inr (), ts))"

definition mark_downloaded :: "int \<Rightarrow> torrentStatus \<Rightarrow> unit result \<times> torrentStatus" where
  "mark_downloaded index_t ts =
     (case write_at (ts_fileStatus ts) index_t True of
        Inl f \<Rightarrow> (Inl f, ts)
      | Inr fs \<Rightarrow> (Inr (), ts\<lparr>ts_fileStatus := fs\<rparr>))"

text \<open>
  From \<open>listen_on\<close> to \<open>utime\<close>: the torrent is added to the session with the priorities, the
  status is filled by the first download, the daemon waits, marks the file and sets its
  modification time.
\<close>

definition download_file :: "daemon_env \<Rightarrow> string \<Rightarrow> string \<Rightarrow> int \<Rightarrow> int list \<Rightarrow> int \<Rightarrow> unit act" where
  "download_file env path torrent_name index_t priorities_files mtime =
     (let torrent_path = c_str (TORRENT_LOCATION @ torrent_name) in
      bind_act (pure (torrent_info_path env torrent_path)) (\<lambda>_.
      bind_act (pure (env_add env torrent_path priorities_files)) (\<lambda>_.
      bind_act (emit (Download torrent_path priorities_files)) (\<lambda>_.
      bind_act (with_status (fill_status env torrent_name)) (\<lambda>_.
      bind_act (pure (wait_finished (env_status env torrent_path priorities_files))) (\<lambda>_.
      bind_act (with_status (mark_downloaded index_t)) (\<lambda>_.
        emit (Utime (DISK_LOCATION @ path) mtime))))))))"

text \<open>
  The body of \<open>getTorrent\<close>; \<open>self\<close> is the recursive call for the target of a link. The indices
  into \<open>fileStatus\<close>, \<open>priorities_files\<close> and \<open>list\<close> are not checked by the code, and -1 where the
  torrent has no such file.
\<close>

definition getTorrent_body :: "(string \<Rightarrow> unit act) \<Rightarrow> daemon_env \<Rightarrow> string \<Rightarrow> unit act" where
  "getTorrent_body self env path =
     (let slash = str_find ''/'' path in
      bind_act (pure (substr path (slash + 1) (int (length path) - slash))) (\<lambda>torrent_file_name.
      bind_act (pure (substr path 0 slash)) (\<lambda>torrent_name.
      bind_act (pure (check env torrent_name torrent_file_name)) (\<lambda>index_t.
      bind_act (migrate_if_changed env (TORRENT_LOCATION @ c_str torrent_name)) (\<lambda>_.
      bind_act (with_status (\<lambda>ts. (already_downloaded index_t ts, ts))) (\<lambda>done.
      if done then pure (Inr ())
      else
        bind_act (pure (gettor env 2 (c_str torrent_name))) (\<lambda>list.
        bind_act (pure (write_at (replicate (length list) 0) index_t 1)) (\<lambda>priorities_files.
        bind_act (pure (read_at list index_t)) (\<lambda>f.
        bind_act
          (if tl_symlink_attribute f then
             bind_act (pure (returned (map_option Inr (resolve_symlink (path @ ''/'' @ tl_symlink_path f)))))
               (\<lambda>sym_path. self (c_str sym_path))
           else pure (Inr ()))
          (\<lambda>_. download_file env path torrent_name index_t priorities_files (tl_mtime f)))))))))))"

text \<open>
  The recursion follows links and need not end; the number bounds its depth, and a bound that
  is too small is reported like a call that does not return.
\<close>

fun getTorrent :: "nat \<Rightarrow> daemon_env \<Rightarrow> string \<Rightarrow> unit act" where
  "getTorrent 0 env path = pure (Inl Diverges)"
| "getTorrent (Suc n) env path = caught (getTorrent_body (getTorrent n env) env path)"

subsection \<open>Composition of operations\<close>

lemma act_simps [simp]:
  "pure r d = (r, d)"
  "bind_act (pure (Inr x)) f d = f x d"
  "bind_act (pure (Inl e)) f d = (Inl e, d)"
  "bind_act (emit ev) g d = g () (d\<lparr>d_events := d_events d @ [ev]\<rparr>)"
  by (simp_all add: pure_def bind_act_def emit_def)

lemma bind_act_step: "m d = (Inr x, d') \<Longrightarrow> bind_act m f d = f x d'"
  by (simp add: bind_act_def)

lemma bind_act_fault: "m d = (Inl e, d') \<Longrightarrow> bind_act m f d = (Inl e, d')"
  by (simp add: bind_act_def)

lemma with_status_eq: "with_status f d = (fst (f (d_status d)), d\<lparr>d_status := snd (f (d_status d))\<rparr>)"
  by (simp add: with_status_def split: prod.split)

lemma caught_state [simp]: "snd (caught m d) = snd (m d)"
  by (simp add: caught_def split: prod.split sum.split fault.split)

lemma caught_Inr: "m d = (Inr (), d') \<Longrightarrow> caught m d = (Inr (), d')"
  by (simp add: caught_def)

lemma caught_fault: "fst (m d) = Inl e \<Longrightarrow> (\<And>x. e \<noteq> Thrown x) \<Longrightarrow> fst (caught m d) = Inl e"
  by (cases "m d"; cases e) (auto simp: caught_def)

text \<open>An operation keeps a property of the state, on success and on failure.\<close>

definition keeps :: "(daemon \<Rightarrow> bool) \<Rightarrow> 'a act \<Rightarrow> bool" where
  "keeps I m \<longleftrightarrow> (\<forall>d. I d \<longrightarrow> I (snd (m d)))"

lemma keepsD: "keeps I m \<Longrightarrow> I d \<Longrightarrow> I (snd (m d))"
  by (simp add: keeps_def)

lemma keeps_pure [intro!]: "keeps I (pure r)"
  by (simp add: keeps_def)

lemma keeps_read [intro!]: "keeps I (with_status (\<lambda>ts. (f ts, ts)))"
  by (simp add: keeps_def with_status_eq)

lemma keeps_bind [intro]: "keeps I m \<Longrightarrow> (\<And>x. keeps I (f x)) \<Longrightarrow> keeps I (bind_act m f)"
  unfolding keeps_def bind_act_def
proof (intro allI impI)
  fix d
  assume "\<forall>d. I d \<longrightarrow> I (snd (m d))" "\<And>x. \<forall>d. I d \<longrightarrow> I (snd (f x d))" "I d"
  then show "I (snd (case m d of (Inl e, d') \<Rightarrow> (Inl e, d') | (Inr x, d') \<Rightarrow> f x d'))"
    by (cases "m d"; cases "fst (m d)") force+
qed

lemma keeps_pure_bind [intro]: "(\<And>x. r = Inr x \<Longrightarrow> keeps I (f x)) \<Longrightarrow> keeps I (bind_act (pure r) f)"
  by (cases r) (auto simp: keeps_def)

lemma keeps_caught [intro!]: "keeps I m \<Longrightarrow> keeps I (caught m)"
  by (simp add: keeps_def)

lemma keeps_if: "(b \<Longrightarrow> keeps I m) \<Longrightarrow> (\<not> b \<Longrightarrow> keeps I m') \<Longrightarrow> keeps I (if b then m else m')"
  by simp

text \<open>The priorities that ask for one file.\<close>

definition only_file :: "int list \<Rightarrow> nat \<Rightarrow> bool" where
  "only_file prio i \<longleftrightarrow> i < length prio \<and> prio = (replicate (length prio) 0)[i := 1]"

text \<open>
  A property of the state that the single effects of the daemon keep: the migration, the
  filling of the status, the events, and marking a file whose download was requested. What is
  shown below in this context holds for every such property.
\<close>

locale daemon_invariant =
  fixes I :: "daemon \<Rightarrow> bool"
  assumes migrate: "keeps I (migrate_if_changed env p)"
    and fill: "keeps I (with_status (fill_status env t))"
    and download: "only_file prio i \<Longrightarrow> keeps I (emit (Download p prio))"
    and utime: "keeps I (emit (Utime q mtime))"
    and index_page: "keeps I (emit (Write_index q content))"
    and mark: "I d \<Longrightarrow> Download p prio \<in> set (d_events d) \<Longrightarrow> only_file prio i \<Longrightarrow>
      I (snd (with_status (mark_downloaded (int i)) d))"
begin

lemma download_file:
  assumes "only_file prio i"
  shows "keeps I (download_file env path t (int i) prio mtime)"
proof -
  let ?p = "c_str (TORRENT_LOCATION @ t)"
  define J where "J = (\<lambda>d. I d \<and> Download ?p prio \<in> set (d_events d))"
  have fill': "keeps J (with_status (fill_status env t))"
    using keepsD [OF fill] by (auto simp: keeps_def J_def with_status_eq)
  have mark': "keeps J (with_status (mark_downloaded (int i)))"
    using mark [OF _ _ assms] by (auto simp: keeps_def J_def with_status_eq)
  have utime': "keeps J (emit (Utime (DISK_LOCATION @ path) mtime))"
    using keepsD [OF utime] by (auto simp: keeps_def J_def emit_def)
  let ?rest = "bind_act (with_status (fill_status env t)) (\<lambda>_.
      bind_act (pure (wait_finished (env_status env ?p prio))) (\<lambda>_.
      bind_act (with_status (mark_downloaded (int i))) (\<lambda>_. emit (Utime (DISK_LOCATION @ path) mtime))))"
  have rest: "keeps J ?rest" using fill' mark' utime' by blast
  have "keeps I (bind_act (emit (Download ?p prio)) (\<lambda>_. ?rest))"
  proof -
    have "I (snd (?rest (d\<lparr>d_events := d_events d @ [Download ?p prio]\<rparr>)))" if "I d" for d
      using keepsD [OF rest, of "d\<lparr>d_events := d_events d @ [Download ?p prio]\<rparr>"]
        keepsD [OF download [OF assms, of ?p] that] by (simp add: J_def emit_def)
    then show ?thesis by (simp add: keeps_def)
  qed
  then show ?thesis unfolding download_file_def Let_def by blast
qed

lemma getTorrent_body:
  assumes "\<And>p. keeps I (self p)"
  shows "keeps I (getTorrent_body self env path)"
proof -
  have tail: "keeps I (bind_act (pure (write_at (replicate (length list) 0) index_t 1)) (\<lambda>priorities_files.
        bind_act (pure (read_at list index_t)) (\<lambda>f.
        bind_act
          (if tl_symlink_attribute f then
             bind_act (pure (returned (map_option Inr (resolve_symlink (path @ ''/'' @ tl_symlink_path f)))))
               (\<lambda>sym_path. self (c_str sym_path))
           else pure (Inr ()))
          (\<lambda>_. download_file env path t index_t priorities_files (tl_mtime f)))))"
    for list :: "torfile_list list" and index_t t
  proof (rule keeps_pure_bind, rule keeps_pure_bind, rule keeps_bind)
    fix prio :: "int list" and f
    assume "write_at (replicate (length list) 0) index_t 1 = Inr prio" "read_at list index_t = Inr f"
    then have "only_file prio (nat index_t)" "index_t = int (nat index_t)"
      by (auto simp: write_at_Inr only_file_def)
    then show "keeps I (download_file env path t index_t prio (tl_mtime f))"
      using download_file by metis
  qed (use assms in \<open>auto intro!: keeps_if keeps_pure_bind\<close>)
  show ?thesis
    unfolding getTorrent_body_def Let_def
    by (intro keeps_pure_bind keeps_bind migrate keeps_read keeps_if keeps_pure tail)
qed

lemma getTorrent: "keeps I (getTorrent n env path)"
proof (induction n arbitrary: path)
  case (Suc n)
  then show ?case by (simp add: keeps_caught getTorrent_body)
qed (simp add: keeps_pure)

end

subsection \<open>Invariants of the daemon\<close>

text \<open>
  The state of the daemon is well formed: the status is, every download that was requested asks
  for exactly one file, and a file is only marked after a download of the file with its index.
\<close>

definition daemon_ok :: "daemon \<Rightarrow> bool" where
  "daemon_ok d \<longleftrightarrow> status_ok (d_status d) \<and>
     (\<forall>p prio. Download p prio \<in> set (d_events d) \<longrightarrow> (\<exists>i. only_file prio i)) \<and>
     (\<not> ts_empty (d_status d) \<longrightarrow>
        (\<forall>i < length (ts_fileStatus (d_status d)). ts_fileStatus (d_status d) ! i \<longrightarrow>
           (\<exists>p prio. Download p prio \<in> set (d_events d) \<and> only_file prio i)))"

lemma migrate_daemon_ok: "keeps daemon_ok (migrate_if_changed env p)"
proof -
  have "daemon_ok (d\<lparr>d_status := snd (snapshotMigration env p (d_status d))\<rparr>)"
    if "daemon_ok d" "\<not> ts_empty (d_status d)" for d
    using that snapshotMigration_ok [where ts = "d_status d" and env = env and path = p] by (simp add: daemon_ok_def)
  then show ?thesis
    by (auto simp: keeps_def migrate_if_changed_def with_status_eq isEmpty_def split: option.split)
qed

lemma fill_status_cases:
  obtains (same) "snd (fill_status env t ts) = ts"
  | (filled) details n where "ts_empty ts" "fst (fill_status env t ts) = Inr ()"
      "torrent_info_path env (c_str (TORRENT_LOCATION @ t)) = Inr details" "n = torrent_num_files details"
      "ts_torrent_details (snd (fill_status env t ts)) = Some details" "ts_totalFiles (snd (fill_status env t ts)) = n"
      "ts_fileStatus (snd (fill_status env t ts)) = replicate (nat n) False" "\<not> ts_empty (snd (fill_status env t ts))"
proof (cases "ts_empty ts \<and> (\<exists>details. torrent_info_path env (c_str (TORRENT_LOCATION @ t)) = Inr details)")
  case True
  then obtain details where "torrent_info_path env (c_str (TORRENT_LOCATION @ t)) = Inr details" by blast
  then show thesis
    using True by (intro filled [of details])
      (auto simp: fill_status_def isEmpty_def status_init_def setEmpty_def Let_def split: option.splits)
next
  case False
  then have "snd (fill_status env t ts) = ts"
    by (auto simp: fill_status_def isEmpty_def Let_def split: sum.split)
  then show thesis by (rule same)
qed

lemma fill_daemon_ok: "keeps daemon_ok (with_status (fill_status env t))"
proof -
  have "daemon_ok (d\<lparr>d_status := snd (fill_status env t (d_status d))\<rparr>)" if "daemon_ok d" for d
  proof (cases rule: fill_status_cases [of env t "d_status d"])
    case same
    with that show ?thesis by simp
  next
    case (filled details n)
    then show ?thesis
      using that nat_num_files_le [of details] by (simp add: daemon_ok_def status_ok_def)
  qed
  then show ?thesis by (simp add: keeps_def with_status_eq)
qed

lemma mark_daemon_ok:
  assumes "daemon_ok d" "Download p prio \<in> set (d_events d)" "only_file prio i"
  shows "daemon_ok (snd (with_status (mark_downloaded (int i)) d))"
proof (cases "i < length (ts_fileStatus (d_status d))")
  case True
  then have eq: "snd (mark_downloaded (int i) (d_status d)) =
      (d_status d)\<lparr>ts_fileStatus := (ts_fileStatus (d_status d))[i := True]\<rparr>"
    by (simp add: mark_downloaded_def write_at_def)
  have "\<exists>p prio. Download p prio \<in> set (d_events d) \<and> only_file prio j"
    if "\<not> ts_empty (d_status d)" "j < length (ts_fileStatus (d_status d))" "(ts_fileStatus (d_status d))[i := True] ! j" for j
    using assms that by (cases "j = i") (auto simp: daemon_ok_def)
  then show ?thesis
    using assms(1) by (simp add: with_status_eq eq daemon_ok_def status_ok_def split: option.splits)
next
  case False
  then show ?thesis
    using assms(1) by (simp add: with_status_eq mark_downloaded_def write_at_def)
qed

lemma event_daemon_ok:
  assumes "\<And>p prio. e = Download p prio \<Longrightarrow> \<exists>i. only_file prio i"
  shows "keeps daemon_ok (emit e)"
  using assms unfolding keeps_def emit_def daemon_ok_def by auto blast

interpretation marked: daemon_invariant daemon_ok
  by unfold_locales
    (auto intro: migrate_daemon_ok fill_daemon_ok mark_daemon_ok intro!: event_daemon_ok)

text \<open>What was done is never taken back: the events before an operation are a prefix of those after it.\<close>

interpretation history: daemon_invariant "\<lambda>d. \<exists>new. d_events d = old @ new" for old
  by unfold_locales (auto simp: keeps_def migrate_if_changed_def with_status_eq emit_def)

text \<open>The status is never emptied again.\<close>

lemma fill_nonempty: "\<not> ts_empty ts \<Longrightarrow> \<not> ts_empty (snd (fill_status env t ts))"
  by (simp add: fill_status_def isEmpty_def)

lemma migrate_nonempty: "ts_empty (snd (snapshotMigration env p ts)) = ts_empty ts"
  by (auto simp: snapshotMigration_def Let_def split: sum.split option.split)

interpretation nonempty: daemon_invariant "\<lambda>d. \<not> ts_empty (d_status d)"
  by unfold_locales
    (auto simp: keeps_def migrate_if_changed_def with_status_eq emit_def fill_nonempty migrate_nonempty mark_downloaded_def
      split: option.split sum.split)

end
