(* ===== verification/TorrentParse.thy ===== *)
theory TorrentParse
  imports TorrentInfo
begin

section \<open>What is read from a torrent file\<close>

text \<open>
  The result of \<open>torrent_info\<close> on torrents put together from a name, a piece length, the
  hashes and a list of files, encoded with \<open>bencode\<close>: the decoder, the accessors, the path
  handling and the file storage together.
\<close>

subsection \<open>Torrents with several files\<close>

definition file_dict :: "string list \<times> int \<Rightarrow> (string \<times> entry) list" where
  "file_dict f = [(''length'', Integer (snd f)), (''path'', List (map String (fst f)))]"

definition multi_info :: "string \<Rightarrow> int \<Rightarrow> string \<Rightarrow> (string list \<times> int) list \<Rightarrow> (string \<times> entry) list" where
  "multi_info name pl pieces fs =
     [(''files'', List (map (\<lambda>f. Dict (file_dict f)) fs)), (''name'', String name),
      (''piece length'', Integer pl), (''pieces'', String pieces)]"

definition single_info :: "string \<Rightarrow> int \<Rightarrow> string \<Rightarrow> int \<Rightarrow> (string \<times> entry) list" where
  "single_info name pl pieces len =
     [(''length'', Integer len), (''name'', String name), (''piece length'', Integer pl),
      (''pieces'', String pieces)]"

definition torrent_entry :: "(string \<times> entry) list \<Rightarrow> entry" where
  "torrent_entry info = Dict [(''info'', Dict info)]"

definition path_under :: "fs_ops \<Rightarrow> string \<Rightarrow> string list \<Rightarrow> string" where
  "path_under ops root p = fold (\<lambda>el path. path_append ops path (trim_path_element ops el)) p root"

lemma list_indices_view: "represents buf (List es) n \<Longrightarrow> list_indices n = map int [0..<length es]"
  by (simp add: list_indices_def list_size_def)

lemma append_path_list_view:
  assumes "represents buf (List (map String p)) n" and "\<forall>x \<in> set p. length x < 2 ^ 31"
  shows "append_path_list ops buf n root = Inr (Some (path_under ops root p))"
proof -
  let ?g = "\<lambda>el. map_option (\<lambda>path. path_append ops path (trim_path_element ops el))"
  have "append_path_element ops buf n (int i) acc = Inr (?g (p ! i) acc)" if i: "i < length p" for i acc
  proof -
    obtain x where x: "list_at (int i) n = Inr x" "represents buf (String (p ! i)) x"
      using represents_item [OF assms(1), of i] i by auto
    have "string_value buf x = Inr (p ! i)"
      using string_value_represents [OF x(2)] assms(2) i by simp
    then show ?thesis using x by (cases acc) (simp_all add: append_path_element_def)
  qed
  then have "append_path_list ops buf n root = Inr (fold ?g p (Some root))"
    using fold_indices [of p _ ?g] by (simp add: append_path_list_def list_indices_view [OF assms(1)])
  moreover have "fold ?g p (Some root) = Some (path_under ops root p)"
    unfolding path_under_def by (induction p arbitrary: root) auto
  ultimately show ?thesis by simp
qed

lemma absent_view:
  assumes "represents buf (Dict d) n"
  shows "map_of d ''attr'' = None \<Longrightarrow> extract_attributes buf n t = Inr t"
    and "map_of d ''symlink path'' = None \<Longrightarrow> extract_symlink ops buf n t = Inr t"
  using view_absent [OF assms] by (simp_all add: extract_attributes_def extract_symlink_def)

lemma extract_single_file_view:
  assumes rep: "represents buf (Dict (file_dict (p, len))) n" and wf: "wf_entry (Dict (file_dict (p, len)))"
  shows "extract_single_file ops buf n root = Inr (Some (named_file ops (path_under ops root p) len (- 1)))"
proof -
  obtain l where l: "dict_find buf ''length'' n = Inr (Some l)" "represents buf (Integer len) l"
    by (rule view_node [OF rep, of "''length''" "Integer len"]) (simp add: file_dict_def)
  have iv: "int_value buf l = Inr len"
    using int_value_represents [OF l(2)] wf by (simp add: file_dict_def)
  obtain pl where pl: "dict_find buf ''path'' n = Inr (Some pl)" "represents buf (List (map String p)) pl"
    by (rule view_node [OF rep, of "''path''" "List (map String p)"]) (simp add: file_dict_def)
  have types: "m_type l = Int_t" "m_type pl = List_t" using l(2) pl(2) represents_type by force+
  have mtime: "dict_find_int_value buf ''mtime'' (- 1) n = Inr (- 1)"
    using view_int_value [OF rep wf] by (simp add: file_dict_def)
  have utf8: "dict_find buf ''path.utf-8'' n = Inr None"
    by (rule view_absent [OF rep]) (simp add: file_dict_def)
  have path: "append_path_list ops buf pl root = Inr (Some (path_under ops root p))"
    using wf by (intro append_path_list_view [OF pl(2)]) (simp add: file_dict_def)
  have attr: "extract_attributes buf n t = Inr t" "extract_symlink ops buf n t = Inr t" for t
    using absent_view [OF rep] by (simp_all add: file_dict_def)
  show ?thesis
    by (simp add: extract_single_file_def l(1) types iv mtime utf8 pl(1) list_or_none_def path attr)
qed

lemma extract_files_view:
  assumes rep: "represents buf (List (map (\<lambda>f. Dict (file_dict f)) fs)) n"
    and wf: "\<forall>f \<in> set fs. wf_entry (Dict (file_dict f))"
  shows "extract_files ops buf n root st = Inr (Some (fold (\<lambda>f st.
      store_file ops (named_file ops (path_under ops root (fst f)) (snd f) (- 1)) st) fs st))"
proof -
  let ?h = "\<lambda>f st. store_file ops (named_file ops (path_under ops root (fst f)) (snd f) (- 1)) st"
  let ?g = "\<lambda>f. map_option (?h f)"
  have "extract_file_at ops buf n root (int i) acc = Inr (?g (fs ! i) acc)" if i: "i < length fs" for i acc
  proof -
    obtain x where x: "list_at (int i) n = Inr x" "represents buf (Dict (file_dict (fs ! i))) x"
      using represents_item [OF rep, of i] i by auto
    have "extract_single_file ops buf x root =
        Inr (Some (named_file ops (path_under ops root (fst (fs ! i))) (snd (fs ! i)) (- 1)))"
      using x(2) wf i by (intro extract_single_file_view) (simp_all del: represents.simps wf_entry.simps)
    then show ?thesis using x(1) by (cases acc) (simp_all add: extract_file_at_def)
  qed
  moreover have "m_type n = List_t" using represents_type [OF rep] by simp
  ultimately have "extract_files ops buf n root st = Inr (fold ?g fs (Some st))"
    using fold_indices [of fs _ ?g] list_indices_view [OF rep] by (simp add: extract_files_def)
  moreover have "fold ?g fs (Some st) = Some (fold ?h fs st)" by (induction fs arbitrary: st) auto
  ultimately show ?thesis by simp
qed

subsection \<open>The info dictionary as a whole\<close>

text \<open>
  A run of \<open>parse_info_section\<close> on a decoded dictionary with a name, a piece length and piece
  hashes, relative to what \<open>read_files\<close> makes of the files.
\<close>

lemma subbytes_subbytes:
  assumes "i + n \<le> m"
  shows "subbytes (subbytes xs (int b) (int m)) (int i) (int n) = subbytes xs (int (b + i)) (int n)"
proof -
  have "n \<le> m - i" using assms by simp
  then show ?thesis by (simp add: subbytes_def drop_take min_absorb1 nat_int_add add.commute)
qed

text \<open>The attributes and the target of a link, and a list of files each of which is read on its own.\<close>

lemma extract_attributes_view:
  assumes "represents buf (Dict d) n" and "map_of d ''attr'' = Some (String a)" and "length a < 2 ^ 31"
  shows "extract_attributes buf n e = Inr (fold attr_flag a e)"
proof -
  obtain x where x: "dict_find buf ''attr'' n = Inr (Some x)" "represents buf (String a) x"
    by (rule view_node [OF assms(1,2)])
  have "string_value buf x = Inr a" using x(2) assms(3) by (intro string_value_represents) simp_all
  moreover have size: "m_size x = int (length a)" "m_type x = String_t" using x(2) by simp_all
  ultimately obtain p where p: "m_start x = Some p" "0 \<le> p" "p + int (length a) \<le> int (length buf)" "subbytes buf p (int (length a)) = a"
    by (auto simp: string_value_def split: option.splits if_splits)
  have "read_attribute buf x (int i) s = Inr (attr_flag (a ! i) s)" if i: "i < length a" for i s
  proof -
    have "take (length a) (drop (nat p) buf) = a" using p(4) by (simp add: subbytes_def)
    then have "a ! i = drop (nat p) buf ! i" using nth_take [OF i, of "drop (nat p) buf"] by simp
    then have "read_at buf (p + int i) = Inr (a ! i)"
      using p(2,3) i by (simp add: read_at_def nat_add_distrib)
    then show ?thesis by (simp add: read_attribute_def p(1))
  qed
  then have "fold_result (read_attribute buf x) (map int [0..<length a]) e = Inr (fold attr_flag a e)" by (rule fold_indices)
  then show ?thesis
    using x(1) size by (simp add: extract_attributes_def dict_find_string_def string_length_def)
qed

lemma extract_symlink_view:
  assumes "represents buf (Dict d) n" "map_of d ''symlink path'' = Some (List (map String s))" "\<forall>x \<in> set s. length x < 2 ^ 31"
  shows "extract_symlink ops buf n e = Inr (e\<lparr>fe_symlink_path := path_under ops (fe_symlink_path e) s\<rparr>)"
proof -
  obtain l where l: "dict_find buf ''symlink path'' n = Inr (Some l)" "represents buf (List (map String s)) l"
    by (rule view_node [OF assms(1,2)])
  let ?g = "\<lambda>el (e :: file_entry). e\<lparr>fe_symlink_path := path_append ops (fe_symlink_path e) (trim_path_element ops el)\<rparr>"
  have "append_symlink_element ops buf l (int i) e = Inr (?g (s ! i) e)" if i: "i < length s" for i e
  proof -
    obtain x where x: "list_at (int i) l = Inr x" "represents buf (String (s ! i)) x"
      using represents_item [OF l(2), of i] i by auto
    have "string_value buf x = Inr (s ! i)"
      using string_value_represents [OF x(2)] assms(3) i by simp
    then show ?thesis using x by (simp add: append_symlink_element_def)
  qed
  then have "fold_result (append_symlink_element ops buf l) (list_indices l) e = Inr (fold ?g s e)"
    using fold_indices [of s _ ?g] by (simp add: list_indices_view [OF l(2)])
  moreover have "fold ?g s e = e\<lparr>fe_symlink_path := path_under ops (fe_symlink_path e) s\<rparr>"
    unfolding path_under_def by (induction s arbitrary: e) auto
  ultimately show ?thesis using l represents_type [OF l(2)] by (simp add: extract_symlink_def)
qed

lemma extract_files_each:
  assumes rep: "represents buf (List (map Dict ds)) n"
    and each: "\<And>i x. i < length ds \<Longrightarrow> represents buf (Dict (ds ! i)) x \<Longrightarrow> extract_single_file ops buf x root = Inr (Some (es ! i))"
    and len: "length es = length ds"
  shows "extract_files ops buf n root st = Inr (Some (fold (store_file ops) es st))"
proof -
  let ?g = "\<lambda>e. map_option (store_file ops e)"
  have "extract_file_at ops buf n root (int i) acc = Inr (?g (es ! i) acc)" if i: "i < length es" for i acc
  proof -
    obtain x where x: "list_at (int i) n = Inr x" "represents buf (Dict (ds ! i)) x"
      using represents_item [OF rep, of i] i len by (auto simp del: represents.simps)
    then show ?thesis using each [OF _ x(2)] i len by (cases acc) (simp_all add: extract_file_at_def)
  qed
  moreover have "m_type n = List_t" using represents_type [OF rep] by simp
  ultimately have "extract_files ops buf n root st = Inr (fold ?g es (Some st))"
    using fold_indices [of es _ ?g] list_indices_view [OF rep] len by (simp add: extract_files_def)
  moreover have "fold ?g es (Some st) = Some (fold (store_file ops) es st)" by (induction es arbitrary: st) auto
  ultimately show ?thesis by simp
qed

definition finish_files :: "string \<Rightarrow> file_storage \<Rightarrow> file_storage" where
  "finish_files name st = set_num_pieces (piece_count (set_name name st)) (set_name name st)"

lemma parse_info_section_view:
  assumes rep: "represents buf (Dict info) n" and wf: "wf_entry (Dict info)" and len: "length buf < 2 ^ 31"
    and info: "map_of info ''piece length'' = Some (Integer pl)" "map_of info ''name'' = Some (String name)"
      "map_of info ''pieces'' = Some (String pieces)" "map_of info ''name.utf-8'' = None"
      "map_of info ''root hash'' = None" "(case map_of info ''private'' of Some (Integer v) \<Rightarrow> v | _ \<Rightarrow> 0) = priv"
    and pl: "0 < pl" "pl < 2 ^ 31" and name: "name \<noteq> []" "valid_path_element (sanitize_path ops name)"
      "sanitized = fst (verify_encoding (sanitize_path ops name))"
    and files: "read_files ops buf n sanitized
      (ti\<lparr>ti_info_hash := hash (encoding (Dict info)), ti_info_section := encoding (Dict info),
          ti_files := set_piece_length pl (ti_files ti)\<rparr>) = Inr ti3"
    and keep: "ti_info_section ti3 = encoding (Dict info)"
    and count: "int (length pieces) = int32 (piece_count (ti_files ti3) * 20)"
  shows "\<exists>off. parse_info_section ops hash buf n ti =
      Inr (ti3\<lparr>ti_files := finish_files sanitized (ti_files ti3), ti_piece_hashes := Some (int off),
        ti_private := (priv \<noteq> 0)\<rparr>) \<and>
    off + length pieces \<le> length (encoding (Dict info)) \<and>
    subbytes (encoding (Dict info)) (int off) (int (length pieces)) = pieces"
proof -
  obtain b where b: "data_section n = Inr (int b, int (length (encoding (Dict info))))" "m_begin n = Some (int b)"
    "m_end n = Some (int (b + length (encoding (Dict info))))" "b + length (encoding (Dict info)) \<le> length buf"
    "subbytes buf (int b) (int (length (encoding (Dict info)))) = encoding (Dict info)"
    by (rule view_section [OF rep len])
  define enc where "enc = encoding (Dict info)"
  have wfp: "length pieces < 2 ^ 31" using wf_lookup [OF wf info(3)] by simp
  obtain x p where x: "dict_find buf ''pieces'' n = Inr (Some x)" "represents buf (String pieces) x"
    "m_start x = Some (int p)" "b \<le> p" "p + length pieces \<le> b + length (encoding (Dict info))"
    "subbytes buf (int p) (int (length pieces)) = pieces"
    by (rule view_string_within [OF rep info(3) wfp b(2,3)])
  let ?ti4 = "ti3\<lparr>ti_files := finish_files sanitized (ti_files ti3)\<rparr>"
  have sx: "m_type x = String_t" "string_length x = int (length pieces)"
    using x(2) by (simp_all add: string_length_def)
  have pc: "m_num_pieces (finish_files sanitized (ti_files ti3)) = piece_count (ti_files ti3)"
    by (simp add: finish_files_def set_num_pieces_def set_name_def piece_count_def)
  have hashes: "read_hashes buf n (int b) ?ti4 = Inr (?ti4\<lparr>ti_piece_hashes := Some (int (p - b))\<rparr>)"
    using x(1,3,4) sx count view_absent(1) [OF rep info(5)]
    by (simp add: read_hashes_def is_string_def pc of_nat_diff)
  have type: "m_type n = Dict_t" using represents_type [OF rep] by simp
  have nm: "utf8_or buf ''name.utf-8'' ''name'' n = Inr name"
    using view_string_value [OF rep wf] info by (simp add: utf8_or_def)
  have plv: "dict_find_int_value buf ''piece length'' (- 1) n = Inr pl" "int32 pl = pl"
    and priv: "dict_find_int_value buf ''private'' 0 n = Inr priv"
    using view_int_value [OF rep wf] info pl by (simp_all add: int32_id)
  have "parse_info_section ops hash buf n ti =
      Inr (?ti4\<lparr>ti_piece_hashes := Some (int (p - b)), ti_private := (priv \<noteq> 0)\<rparr>)"
    using files [folded enc_def] hashes b(4) [folded enc_def] pl(1) name
    by (simp add: parse_info_section_def type b(1,5) [folded enc_def] plv priv nm finish_files_def Let_def)
  moreover have "subbytes (encoding (Dict info)) (int (p - b)) (int (length pieces)) = pieces"
  proof -
    have "p - b + length pieces \<le> length (encoding (Dict info))" "b + (p - b) = p" using x(4,5) by linarith+
    from subbytes_subbytes [OF this(1), of buf b] this(2) b(5) x(6) show ?thesis by (simp only:)
  qed
  ultimately show ?thesis using x(4,5) by (intro exI [of _ "p - b"]) auto
qed

subsection \<open>The rest of the file\<close>

lemma verify_encoding_Nil [simp]: "verify_encoding [] = ([], True)"
  by (simp add: verify_encoding_repaired)

lemma torrent_info_buffer_view:
  assumes wf: "wf_entry (torrent_entry info)" and nest: "int (nesting (torrent_entry info)) \<le> 1000"
  obtains n where "represents (encoding (torrent_entry info)) (Dict info) n"
    "torrent_info_buffer ops hash shuffle (encoding (torrent_entry info)) =
      Some (parse_info_section ops hash (encoding (torrent_entry info)) n new_torrent_info)"
proof -
  define buf where "buf = encoding (torrent_entry info)"
  obtain e where e: "lazy_bdecode buf 1000 = Some (Inr 0, e)" and rep: "represents buf (torrent_entry info) e"
    using lazy_bdecode_represents [OF wf nest, of "[]"] by (auto simp: buf_def)
  note rep' = rep [unfolded torrent_entry_def] and wf' = wf [unfolded torrent_entry_def]
  obtain n where n: "dict_find buf ''info'' e = Inr (Some n)" "represents buf (Dict info) n"
    by (rule view_node [OF rep', of "''info''" "Dict info"]) simp
  have tn: "m_type n = Dict_t" "m_type e = Dict_t" using represents_type [OF n(2)] represents_type [OF rep'] by simp_all
  have absent: "dict_find_list buf k e = Inr None" "dict_find buf k e = Inr None" if "k \<noteq> ''info''" for k
    using view_absent [OF rep'] that by simp_all
  have strings: "dict_find_string_value buf k e = Inr ''''" "dict_find_int_value buf k (- 1) e = Inr (- 1)"
    if "k \<noteq> ''info''" for k
    using view_string_value [OF rep' wf'] view_int_value [OF rep' wf'] that by simp_all
  have info: "dict_find_dict buf ''info'' e = Inr (Some n)" by (simp add: dict_find_dict_def n tn)
  have "parse_torrent_file ops hash shuffle buf e new_torrent_info = parse_info_section ops hash buf n new_torrent_info"
    by (simp add: parse_torrent_file_def tn read_trackers_def read_nodes_def read_seeds_def utf8_or_def absent strings info
        announce_trim_def new_announce_entry_def new_torrent_info_def)
  with e n(2) that show thesis by (simp add: torrent_info_buffer_def flip: buf_def)
qed

text \<open>The hashes of the pieces behind the offset that was stored.\<close>

lemma hash_for_piece_view:
  assumes "ti_merkle_tree ti = []" "ti_piece_hashes ti = Some (int off)"
    and "off + length pieces \<le> length (ti_info_section ti)"
    and "subbytes (ti_info_section ti) (int off) (int (length pieces)) = pieces"
    and "20 * i + 20 \<le> length pieces" "length pieces < 2 ^ 31"
  shows "hash_for_piece (int i) ti = Inr (take 20 (drop (20 * i) pieces))"
proof -
  have "int32 (int i * 20) = int (20 * i)" using assms(5,6) by (simp add: int32_id)
  moreover have "subbytes pieces (int (20 * i)) (int 20) = subbytes (ti_info_section ti) (int (off + 20 * i)) (int 20)"
    using subbytes_subbytes [OF assms(5), of "ti_info_section ti" off] assms(4) by simp
  moreover have "subbytes pieces (int (20 * i)) (int 20) = take 20 (drop (20 * i) pieces)"
    by (simp only: subbytes_def nat_int)
  ultimately show ?thesis
    using assms by (simp add: hash_for_piece_def is_merkle_torrent_def Let_def)
qed

subsection \<open>Ordinary names are kept\<close>

definition simple_name :: "string \<Rightarrow> bool" where
  "simple_name x \<longleftrightarrow> plain_name x \<and> valid_path_element x \<and> list_all ascii x \<and> length x \<le> 4096"

definition joined :: "string \<Rightarrow> string list \<Rightarrow> string" where
  "joined root p = root @ concat (map (\<lambda>x. CHR ''/'' # x) p)"

lemma repaired_ascii: "list_all ascii s \<Longrightarrow> repaired s = s"
  by (induction s) (simp_all add: repaired_cases)

lemma joined_snoc: "joined root (p @ [x]) = joined root p @ CHR ''/'' # x"
  by (simp add: joined_def)

lemma split_slash_joined:
  "CHR ''/'' \<notin> set root \<Longrightarrow> \<forall>x \<in> set p. CHR ''/'' \<notin> set x \<Longrightarrow> split_slash (joined root p) = root # p"
proof (induction p rule: rev_induct)
  case Nil
  then show ?case by (simp add: joined_def split_slash_free)
next
  case (snoc x p)
  then show ?case by (simp add: joined_snoc split_slash_snoc)
qed

lemma inside_joined: "plain_name root \<Longrightarrow> \<forall>x \<in> set p. plain_name x \<Longrightarrow> inside (joined root p)"
  using split_slash_joined [of root p] by (auto simp: inside_def list_all_iff plain_name_def)

lemma joined_Nil [simp]: "joined root [] = root"
  by (simp add: joined_def)

lemma joined_split: "split_slash s = root # p \<Longrightarrow> s = joined root p"
proof (induction s arbitrary: root p)
  case (Cons c s)
  obtain r q where rq: "split_slash s = r # q" by (cases "split_slash s") auto
  have "root = (if c = CHR ''/'' then [] else c # r)" "p = (if c = CHR ''/'' then r # q else q)"
    using Cons.prems rq by (auto split: if_splits)
  then show ?case using Cons.IH [OF rq] by (auto simp: joined_def)
qed (simp add: joined_def)

text \<open>A name that can stand between two slashes, and a path of such names, which its elements determine.\<close>

definition part_name :: "string \<Rightarrow> bool" where
  "part_name x \<longleftrightarrow> x \<noteq> [] \<and> CHR ''/'' \<notin> set x"

lemma plain_part_name: "plain_name x \<Longrightarrow> part_name x"
  by (simp add: part_name_def plain_name_def)

lemma joined_last:
  assumes "part_name root" "\<forall>x \<in> set p. part_name x"
  shows "joined root p \<noteq> []" "last (joined root p) \<noteq> CHR ''/''" "hd (joined root p) \<noteq> CHR ''/''"
proof -
  show "joined root p \<noteq> []" using assms(1) by (simp add: joined_def part_name_def)
  have "last x \<noteq> CHR ''/''" if "part_name x" for x using that last_in_set [of x] by (auto simp: part_name_def simp del: last_in_set)
  then show "last (joined root p) \<noteq> CHR ''/''"
    using assms by (cases p rule: rev_cases) (simp_all add: joined_snoc part_name_def)
  show "hd (joined root p) \<noteq> CHR ''/''" using assms(1) by (cases root) (auto simp: joined_def part_name_def)
qed

lemma posix_elements_joined:
  assumes "part_name root" "\<forall>x \<in> set p. part_name x"
  shows "posix_elements (joined root p) = root # p"
proof -
  have "split_slash (joined root p) = root # p"
    using assms by (intro split_slash_joined) (auto simp: part_name_def)
  moreover have "filter (\<lambda>x. x \<noteq> []) (root # p) = root # p" using assms by (auto simp: part_name_def filter_id_conv)
  moreover have "take 2 (joined root p) \<noteq> ''//''" using joined_last(1,3) [OF assms] by (cases "joined root p") auto
  ultimately show ?thesis using joined_last [OF assms] by (simp add: posix_elements_def relative_elements_def)
qed

context path_grammar
begin

lemma append_joined:
  assumes "part_name root" "\<forall>x \<in> set p. part_name x" "part_name y"
  shows "path_append ops (joined root p) y = joined root (p @ [y])"
  using joined_last [OF assms(1,2)] assms(3) by (cases y) (auto simp: append posix_append_def joined_snoc part_name_def)

lemma fold_append_joined:
  assumes "part_name root" "\<forall>x \<in> set p. part_name x" "\<forall>x \<in> set q. part_name x \<and> length x \<le> 4096"
  shows "fold (\<lambda>el path. path_append ops path (trim_path_element ops el)) q (joined root p) = joined root (p @ q)"
  using assms
proof (induction q arbitrary: p)
  case (Cons y q)
  then have y: "part_name y" "trim_path_element ops y = y" by (auto simp: trim_path_element_def)
  then have "path_append ops (joined root p) (trim_path_element ops y) = joined root (p @ [y])"
    using append_joined Cons.prems by simp
  then show ?case using Cons.IH [of "p @ [y]"] Cons.prems y(1) by simp
qed simp

lemma simple_part_name: "simple_name x \<Longrightarrow> part_name x \<and> length x \<le> 4096"
  by (simp add: simple_name_def plain_part_name)

lemma path_under_joined:
  assumes "simple_name root" "\<forall>x \<in> set p. simple_name x"
  shows "path_under ops root p = joined root p"
  using fold_append_joined [of root "[]" p] assms simple_part_name by (simp add: path_under_def)

text \<open>The elements of a path put together again, whatever they are.\<close>

lemma path_under_elements:
  assumes "\<forall>x \<in> set (root # p). part_name x \<and> length x \<le> 4096"
  shows "path_under ops [] (root # p) = joined root p"
proof -
  have "path_append ops [] (trim_path_element ops root) = joined root []"
    using assms by (simp add: append posix_append_def trim_path_element_def)
  then show ?thesis using fold_append_joined [of root "[]" p] assms by (simp add: path_under_def)
qed

lemma sanitize_joined:
  assumes "simple_name root" "\<forall>x \<in> set p. simple_name x"
  shows "sanitize_path ops (joined root p) = joined root p"
proof -
  have elems: "posix_elements (joined root p) = root # p"
    using assms simple_part_name by (intro posix_elements_joined) auto
  have step: "fold (\<lambda>element new_path.
         if \<not> valid_path_element element then new_path
         else path_append ops new_path (trim_path_element ops element)) q path =
       fold (\<lambda>el path. path_append ops path (trim_path_element ops el)) q path"
    if "\<forall>x \<in> set q. simple_name x" for q path
    using that by (induction q arbitrary: path) (auto simp: simple_name_def)
  have "path_under ops [] (root # p) = joined root p"
    using assms simple_part_name by (intro path_under_elements) auto
  then show ?thesis
    using step [of "root # p" "[]"] assms by (simp add: sanitize_path_def elements elems path_under_def)
qed

lemma named_file_joined:
  assumes "simple_name root" "\<forall>x \<in> set p. simple_name x"
  shows "fe_path (named_file ops (path_under ops root p) len ts) = joined root p"
    and "fe_size (named_file ops path len ts) = len"
proof -
  have "list_all ascii (joined root p)"
  proof -
    have "ascii (CHR ''/'')" by code_simp
    then show ?thesis using assms by (auto simp: joined_def simple_name_def list_all_iff)
  qed
  then show "fe_path (named_file ops (path_under ops root p) len ts) = joined root p"
    using sanitize_joined [OF assms] path_under_joined [OF assms]
    by (simp add: named_file_def Let_def verify_encoding_file_def verify_encoding_repaired repaired_ascii)
  show "fe_size (named_file ops path len ts) = len"
    by (simp add: named_file_def Let_def verify_encoding_file_def split: prod.split)
qed

end

subsection \<open>The files that are stored\<close>

text \<open>No path is, up to case, one that comes before it.\<close>

definition clash_free :: "string list \<Rightarrow> bool" where
  "clash_free ps \<longleftrightarrow> sorted_wrt (\<lambda>a b. \<not> string_equal_no_case (c_str b) (c_str a)) ps"

definition stored_files :: "fs_ops \<Rightarrow> string \<Rightarrow> (string list \<times> int) list \<Rightarrow> file_storage \<Rightarrow> file_storage" where
  "stored_files ops name fs st =
     fold (\<lambda>f st. store_file ops (named_file ops (path_under ops name (fst f)) (snd f) (- 1)) st) fs st"

definition path_sizes :: "file_storage \<Rightarrow> (string \<times> int) list" where
  "path_sizes st = map (\<lambda>f. (fe_path f, fe_size f)) (m_files st)"

definition wanted_files :: "string \<Rightarrow> (string list \<times> int) list \<Rightarrow> (string \<times> int) list" where
  "wanted_files name fs = map (\<lambda>f. (joined name (fst f), snd f)) fs"

definition simple_files :: "string \<Rightarrow> (string list \<times> int) list \<Rightarrow> bool" where
  "simple_files name fs \<longleftrightarrow> simple_name name \<and> list_all (\<lambda>f. list_all simple_name (fst f)) fs"

lemma store_file_fresh:
  assumes "clash_free (map fst (path_sizes st) @ [fe_path e])"
  shows "store_file ops e st = add_file_entry ops e st"
proof -
  have "same_paths (m_files st) (fe_path e) = 0"
    using assms by (auto simp: same_paths_def clash_free_def sorted_wrt_append path_sizes_def filter_empty_conv)
  then show ?thesis by (simp add: store_file_def)
qed

lemma stored_files_list:
  assumes "path_grammar ops" and "simple_files name fs"
    and "clash_free (map fst (path_sizes st @ wanted_files name fs))"
  shows "path_sizes (stored_files ops name fs st) = path_sizes st @ wanted_files name fs \<and>
    m_piece_length (stored_files ops name fs st) = m_piece_length st \<and>
    (storage_ok st \<and> (\<forall>f \<in> set fs. 0 \<le> snd f) \<and> m_total_size st + sum_list (map snd fs) < 2 ^ 63 \<longrightarrow>
     storage_ok (stored_files ops name fs st) \<and>
     m_total_size (stored_files ops name fs st) = m_total_size st + sum_list (map snd fs))"
  using assms(2,3)
proof (induction fs arbitrary: st)
  case Nil
  then show ?case by (simp add: stored_files_def wanted_files_def)
next
  case (Cons f fs)
  define e where "e = named_file ops (path_under ops name (fst f)) (snd f) (- 1)"
  have e: "fe_path e = joined name (fst f)" "fe_size e = snd f"
    using path_grammar.named_file_joined [OF assms(1)] Cons.prems(1)
    by (auto simp: e_def simple_files_def list_all_iff)
  have "clash_free (map fst (path_sizes st) @ [fe_path e])"
    using Cons.prems(2) by (simp add: clash_free_def sorted_wrt_append wanted_files_def e(1))
  then have store: "store_file ops e st = add_file_entry ops e st" by (rule store_file_fresh)
  let ?st = "add_file_entry ops e st"
  have st: "path_sizes ?st = path_sizes st @ [(joined name (fst f), snd f)]" "m_piece_length ?st = m_piece_length st"
    by (simp_all add: add_file_entry_def Let_def path_sizes_def e)
  have unfold: "stored_files ops name (f # fs) st = stored_files ops name fs ?st"
    by (simp add: stored_files_def store flip: e_def)
  have IH: "path_sizes (stored_files ops name fs ?st) = path_sizes ?st @ wanted_files name fs"
    "m_piece_length (stored_files ops name fs ?st) = m_piece_length ?st"
    "storage_ok ?st \<and> (\<forall>f \<in> set fs. 0 \<le> snd f) \<and> m_total_size ?st + sum_list (map snd fs) < 2 ^ 63 \<longrightarrow>
     storage_ok (stored_files ops name fs ?st) \<and>
     m_total_size (stored_files ops name fs ?st) = m_total_size ?st + sum_list (map snd fs)"
    using Cons.IH [of ?st] Cons.prems st by (simp_all add: simple_files_def wanted_files_def)
  have ok: "storage_ok ?st \<and> m_total_size ?st = m_total_size st + snd f"
    if "storage_ok st" "0 \<le> snd f" "m_total_size st + snd f < 2 ^ 63"
  proof -
    have "0 \<le> m_total_size st" using that(1) laid_out_total_nonneg [of 0 "m_files st"] by (simp add: storage_ok_def)
    then show ?thesis
      using that storage_ok_add_file_entry [of st e ops] e(2)
      by (simp add: add_file_entry_def Let_def int64_id)
  qed
  have pos: "0 \<le> sum_list (map snd fs)" if "\<forall>f \<in> set fs. 0 \<le> snd f"
    using that by (intro sum_list_nonneg) auto
  show ?case
    unfolding unfold using IH st ok pos by (auto simp: wanted_files_def)
qed

subsection \<open>Parsing the torrents\<close>

lemma nesting_torrent: "int (nesting (torrent_entry (multi_info name pl pieces fs))) \<le> 1000"
proof -
  note le = nesting_List_le [THEN iffD2] nesting_Dict_le [THEN iffD2]
  have path: "nesting (List (map String p)) \<le> 3" for p :: "string list"
    by (rule le(1)) auto
  have "nesting (Dict (file_dict f)) \<le> 4" for f
    using path [of "fst f"] by (intro le(2)) (auto simp: file_dict_def simp del: nesting.simps(1,2))
  then have one: "nesting (Dict (file_dict f)) < 5" for f by (rule le_less_trans) simp
  have "nesting (List (map (\<lambda>f. Dict (file_dict f)) fs)) \<le> 5"
    using one by (intro le(1)) (auto simp del: nesting.simps(1,2))
  then have "nesting (Dict (multi_info name pl pieces fs)) \<le> 6"
    by (intro le(2)) (auto simp: multi_info_def simp del: nesting.simps(1,2))
  then have "nesting (torrent_entry (multi_info name pl pieces fs)) \<le> 7"
    unfolding torrent_entry_def by (intro le(2)) (auto simp del: nesting.simps(1,2))
  then show ?thesis by simp
qed

lemma wf_torrent:
  assumes "simple_files name fs" "0 < pl" "pl < 2 ^ 31" "length pieces < 2 ^ 31"
    and "\<forall>f \<in> set fs. - (2 ^ 63) < snd f \<and> snd f < 2 ^ 63"
  shows "wf_entry (Dict (multi_info name pl pieces fs))" "wf_entry (torrent_entry (multi_info name pl pieces fs))"
proof -
  have names: "length x < 2 ^ 31" if "simple_name x" for x using that by (simp add: simple_name_def)
  have "wf_entry (Dict (file_dict f))" if "f \<in> set fs" for f
    using assms(1,5) that names by (auto simp: file_dict_def simple_files_def list_all_iff)
  then show "wf_entry (Dict (multi_info name pl pieces fs))"
    using assms names [of name] by (auto simp: multi_info_def simple_files_def)
  then show "wf_entry (torrent_entry (multi_info name pl pieces fs))" by (simp add: torrent_entry_def)
qed

lemma simple_name_sanitized:
  assumes "path_grammar ops" "simple_name name"
  shows "name \<noteq> []" "sanitize_path ops name = name" "valid_path_element name" "fst (verify_encoding name) = name"
  using assms path_grammar.sanitize_joined [of ops name "[]"]
  by (auto simp: joined_def simple_name_def plain_name_def verify_encoding_repaired repaired_ascii)

text \<open>The object before the files are read, and the one that is returned.\<close>

definition info_object :: "(string \<Rightarrow> sha1_hash) \<Rightarrow> (string \<times> entry) list \<Rightarrow> int \<Rightarrow> torrent_info" where
  "info_object hash info pl =
     new_torrent_info\<lparr>ti_info_hash := hash (encoding (Dict info)), ti_info_section := encoding (Dict info),
       ti_files := set_piece_length pl new_file_storage\<rparr>"

lemma multi_torrent_parse:
  assumes grammar: "path_grammar ops" and files: "simple_files name fs"
    and pl: "0 < pl" "pl < 2 ^ 31" and pieces: "length pieces < 2 ^ 31"
    and sizes: "\<forall>f \<in> set fs. - (2 ^ 63) < snd f \<and> snd f < 2 ^ 63"
    and info: "info = multi_info name pl pieces fs" and len: "length (encoding (torrent_entry info)) < 2 ^ 31"
    and st: "st = stored_files ops name fs (set_piece_length pl new_file_storage)"
    and count: "int (length pieces) = int32 (piece_count st * 20)"
  obtains off where "torrent_info_buffer ops hash shuffle (encoding (torrent_entry info)) =
      Some (Inr ((info_object hash info pl)\<lparr>ti_files := finish_files name st, ti_multifile := True,
        ti_piece_hashes := Some (int off), ti_private := False\<rparr>))"
    "off + length pieces \<le> length (encoding (Dict info))"
    "subbytes (encoding (Dict info)) (int off) (int (length pieces)) = pieces"
proof -
  have wf: "wf_entry (Dict info)" "wf_entry (torrent_entry info)"
    unfolding info using wf_torrent [OF files pl pieces sizes] .
  define buf where "buf = encoding (torrent_entry info)"
  obtain n where n: "represents buf (Dict info) n" "torrent_info_buffer ops hash shuffle buf =
      Some (parse_info_section ops hash buf n new_torrent_info)"
    using torrent_info_buffer_view [OF wf(2)] nesting_torrent unfolding info buf_def by metis
  have name: "name \<noteq> []" "sanitize_path ops name = name" "valid_path_element name" "fst (verify_encoding name) = name"
    using simple_name_sanitized [OF grammar] files by (simp_all add: simple_files_def)
  obtain l where l: "dict_find buf ''files'' n = Inr (Some l)" "represents buf (List (map (\<lambda>f. Dict (file_dict f)) fs)) l"
    by (rule view_node [OF n(1), of "''files''" "List (map (\<lambda>f. Dict (file_dict f)) fs)"])
      (simp add: info multi_info_def)
  have "m_type l = List_t" using represents_type [OF l(2)] by simp
  moreover have "wf_entry (List (map (\<lambda>f. Dict (file_dict f)) fs))"
    by (rule wf_lookup [OF wf(1), of "''files''"]) (simp add: info multi_info_def)
  then have "\<forall>f \<in> set fs. wf_entry (Dict (file_dict f))" by simp
  ultimately have read: "read_files ops buf n name (info_object hash info pl) =
      Inr ((info_object hash info pl)\<lparr>ti_files := st, ti_multifile := True\<rparr>)"
    using l(1) extract_files_view [OF l(2), of ops name "ti_files (info_object hash info pl)"]
    by (simp add: read_files_def dict_find_list_def info_object_def st stored_files_def)
  have lk: "map_of info ''piece length'' = Some (Integer pl)" "map_of info ''name'' = Some (String name)"
      "map_of info ''pieces'' = Some (String pieces)" "map_of info ''name.utf-8'' = None"
      "map_of info ''root hash'' = None" "(case map_of info ''private'' of Some (Integer v) \<Rightarrow> v | _ \<Rightarrow> 0) = 0"
    by (simp_all add: info multi_info_def)
  from parse_info_section_view [OF n(1) wf(1) len [folded buf_def] lk pl name(1), of ops name new_torrent_info hash
      "(info_object hash info pl)\<lparr>ti_files := st, ti_multifile := True\<rparr>"]
  obtain off where "parse_info_section ops hash buf n new_torrent_info =
      Inr ((info_object hash info pl)\<lparr>ti_files := finish_files name st, ti_multifile := True,
        ti_piece_hashes := Some (int off), ti_private := False\<rparr>)"
    "off + length pieces \<le> length (encoding (Dict info))"
    "subbytes (encoding (Dict info)) (int off) (int (length pieces)) = pieces"
    using name read count by (auto simp: info_object_def new_torrent_info_def)
  then show thesis using that n(2) buf_def by simp
qed

lemma piece_count_value:
  assumes "0 \<le> m_total_size st" "0 < m_piece_length st" "m_total_size st + m_piece_length st < 2 ^ 63"
    and "(m_total_size st + m_piece_length st - 1) div m_piece_length st < 2 ^ 31"
  shows "piece_count st = (m_total_size st + m_piece_length st - 1) div m_piece_length st"
proof -
  let ?t = "m_total_size st + m_piece_length st"
  have "int64 (int64 ?t - 1) = ?t - 1" using assms by (simp add: int64_id)
  moreover have "0 \<le> (?t - 1) div m_piece_length st" using assms by (simp add: pos_imp_zdiv_nonneg_iff)
  ultimately show ?thesis using assms by (simp add: piece_count_def sdiv_nonneg int32_id)
qed

text \<open>
  C4: What a torrent file says is what is read from it. For a torrent put together from a name, a
  list of files with their path elements and sizes, a piece length and the hashes of the pieces,
  and encoded with \<open>bencode\<close>, \<open>torrent_info\<close> is constructed, and it has the hash of the bytes
  of the info dictionary, the files in their order with their paths under the name and their
  sizes, laid out one after the other, the right number of pieces, and for each piece the
  hash that was put in.
\<close>

theorem multi_file_torrent:
  assumes "path_grammar ops" "simple_files name fs" "clash_free (map fst (wanted_files name fs))"
    and "0 < pl" "pl < 2 ^ 31" "\<forall>f \<in> set fs. 0 \<le> snd f" "sum_list (map snd fs) + pl < 2 ^ 63"
    and "int (length pieces) = 20 * ((sum_list (map snd fs) + pl - 1) div pl)" "length pieces < 2 ^ 31"
    and "length (snd (bencode (torrent_entry (multi_info name pl pieces fs)))) < 2 ^ 31"
  shows "\<exists>ti. torrent_info_buffer ops hash shuffle (snd (bencode (torrent_entry (multi_info name pl pieces fs)))) = Some (Inr ti) \<and>
    ti_info_hash ti = hash (snd (bencode (Dict (multi_info name pl pieces fs)))) \<and>
    path_sizes (ti_files ti) = wanted_files name fs \<and> storage_ok (ti_files ti) \<and>
    m_piece_length (ti_files ti) = pl \<and> int (length pieces) = 20 * m_num_pieces (ti_files ti) \<and>
    (\<forall>i. 20 * i + 20 \<le> length pieces \<longrightarrow> hash_for_piece (int i) ti = Inr (take 20 (drop (20 * i) pieces)))"
proof -
  let ?info = "multi_info name pl pieces fs"
  let ?total = "sum_list (map snd fs)"
  define st where "st = stored_files ops name fs (set_piece_length pl new_file_storage)"
  have pos: "0 \<le> ?total" using assms(6) by (intro sum_list_nonneg) auto
  have sizes: "\<forall>f \<in> set fs. - (2 ^ 63) < snd f \<and> snd f < 2 ^ 63"
  proof
    fix f assume f: "f \<in> set fs"
    then have "snd f \<le> ?total" using assms(6) by (intro member_le_sum_list) auto
    then show "- (2 ^ 63) < snd f \<and> snd f < 2 ^ 63" using assms(4,6,7) f by fastforce
  qed
  have st0: "path_sizes (set_piece_length pl new_file_storage) = []" "storage_ok (set_piece_length pl new_file_storage)"
    "m_piece_length (set_piece_length pl new_file_storage) = pl" "m_total_size (set_piece_length pl new_file_storage) = 0"
    by (simp_all add: path_sizes_def set_piece_length_def new_file_storage_def storage_ok_def)
  have st: "path_sizes st = wanted_files name fs" "m_piece_length st = pl" "storage_ok st" "m_total_size st = ?total"
    using stored_files_list [OF assms(1,2), of "set_piece_length pl new_file_storage"] st0 assms(3-7)
    unfolding st_def by auto
  have "int (length pieces) < 2 ^ 31" using assms(9) by simp
  moreover have "0 \<le> (?total + pl - 1) div pl" using pos assms(4) by (simp add: pos_imp_zdiv_nonneg_iff)
  ultimately have "(?total + pl - 1) div pl < 2 ^ 31" unfolding assms(8) by linarith
  then have pc: "piece_count st = (?total + pl - 1) div pl"
    using piece_count_value [of st] st pos assms(4,7) by simp
  then have count: "int (length pieces) = int32 (piece_count st * 20)" using assms(8,9) by (simp add: int32_id)
  obtain off where off: "torrent_info_buffer ops hash shuffle (encoding (torrent_entry ?info)) =
      Some (Inr ((info_object hash ?info pl)\<lparr>ti_files := finish_files name st, ti_multifile := True,
        ti_piece_hashes := Some (int off), ti_private := False\<rparr>))" (is "_ = Some (Inr ?ti)")
    "off + length pieces \<le> length (encoding (Dict ?info))"
    "subbytes (encoding (Dict ?info)) (int off) (int (length pieces)) = pieces"
    using multi_torrent_parse [OF assms(1,2,4,5,9) sizes refl _ st_def count] assms(10)
    by (metis bencode_def)
  have ti: "ti_info_section ?ti = encoding (Dict ?info)" "ti_merkle_tree ?ti = []" "ti_piece_hashes ?ti = Some (int off)"
    "ti_info_hash ?ti = hash (encoding (Dict ?info))" "ti_files ?ti = finish_files name st"
    by (simp_all add: info_object_def new_torrent_info_def)
  have "hash_for_piece (int i) ?ti = Inr (take 20 (drop (20 * i) pieces))" if "20 * i + 20 \<le> length pieces" for i
    by (rule hash_for_piece_view [OF ti(2,3)]) (use off ti(1) that assms(9) in simp_all)
  moreover have "path_sizes (ti_files ?ti) = wanted_files name fs" "storage_ok (ti_files ?ti)"
    "m_piece_length (ti_files ?ti) = pl" "int (length pieces) = 20 * m_num_pieces (ti_files ?ti)"
    using st pc assms(8)
    by (simp_all add: ti(5) finish_files_def set_num_pieces_def set_name_def path_sizes_def storage_ok_def piece_count_def)
  ultimately show ?thesis
    using off(1) ti(4) by (intro exI [of _ ?ti]) (simp add: bencode_def)
qed

subsection \<open>A sample torrent\<close>

definition sample_files :: "(string list \<times> int) list" where
  "sample_files = [([''a''], 3), ([''b'', ''c''], 5)]"

abbreviation sample_pieces :: string where
  "sample_pieces \<equiv> replicate 40 (CHR ''x'')"

lemma ascii_letters: "list_all ascii ''abct''"
  by code_simp

lemma simple_letters: "c \<in> set ''abct'' \<Longrightarrow> simple_name [c]"
  using ascii_letters by (auto simp: simple_name_def plain_name_def valid_path_element_def)

lemma sample_files_ok:
  "simple_files ''t'' sample_files" "clash_free (map fst (wanted_files ''t'' sample_files))"
  "sum_list (map snd sample_files) = 8" "\<forall>f \<in> set sample_files. 0 \<le> snd f"
proof -
  show "simple_files ''t'' sample_files" by (simp add: simple_files_def sample_files_def simple_letters)
  have "\<not> string_equal_no_case ''t/b/c'' ''t/a''" by code_simp
  then show "clash_free (map fst (wanted_files ''t'' sample_files))"
    by (simp add: clash_free_def wanted_files_def sample_files_def joined_def c_str_def)
qed (simp_all add: sample_files_def)

lemma sample_torrent_length:
  "length (encoding (torrent_entry (multi_info ''t'' 4 sample_pieces sample_files))) < 2 ^ 31"
  by (simp add: torrent_entry_def multi_info_def sample_files_def file_dict_def encoding_Dict encoding_List encoding_pair_def
      encoding_String encoding_Integer int_string_def decimal.simps
      del: bencode_recursive.simps bencode_list.simps bencode_dict.simps)

theorem multi_file_torrent_witness:
  "\<exists>ti. torrent_info_buffer posix_ops sample_hash id (snd (bencode (torrent_entry (multi_info ''t'' 4 sample_pieces sample_files)))) = Some (Inr ti) \<and>
    path_sizes (ti_files ti) = [(''t/a'', 3), (''t/b/c'', 5)] \<and> hash_for_piece 1 ti = Inr (replicate 20 (CHR ''x''))"
proof -
  have "length (snd (bencode (torrent_entry (multi_info ''t'' 4 sample_pieces sample_files)))) < 2 ^ 31"
    using sample_torrent_length by (simp only: bencode_def)
  from multi_file_torrent [OF posix.path_grammar_axioms sample_files_ok(1,2) _ _ sample_files_ok(4) _ _ _ this, of sample_hash id]
  obtain ti where ti: "torrent_info_buffer posix_ops sample_hash id
      (snd (bencode (torrent_entry (multi_info ''t'' 4 sample_pieces sample_files)))) = Some (Inr ti)"
    "path_sizes (ti_files ti) = wanted_files ''t'' sample_files"
    "\<forall>i. 20 * i + 20 \<le> length sample_pieces \<longrightarrow> hash_for_piece (int i) ti = Inr (take 20 (drop (20 * i) sample_pieces))"
    by (auto simp: sample_files_ok(3))
  from ti(3) have "hash_for_piece (int 1) ti = Inr (take 20 (drop (20 * 1) sample_pieces))"
    by (rule allE [of _ 1]) simp
  with ti(1,2) show ?thesis by (auto simp: wanted_files_def sample_files_def joined_def)
qed

subsection \<open>Properties of every torrent file\<close>

lemma sample_torrent_parses:
  "\<exists>ti. torrent_info_buffer posix_ops sample_hash id (encoding (torrent_entry (multi_info ''t'' 4 sample_pieces sample_files))) =
      Some (Inr ti)"
proof -
  let ?st = "stored_files posix_ops ''t'' sample_files (set_piece_length 4 new_file_storage)"
  have "m_total_size ?st = 8" "m_piece_length ?st = 4"
    using stored_files_list [OF posix.path_grammar_axioms sample_files_ok(1), of "set_piece_length 4 new_file_storage"]
      sample_files_ok
    by (simp_all add: path_sizes_def set_piece_length_def new_file_storage_def storage_ok_def)
  then have count: "int (length sample_pieces) = int32 (piece_count ?st * 20)"
    using piece_count_value [of ?st] by (simp add: int32_id)
  have sizes: "\<forall>f \<in> set sample_files. - (2 ^ 63) < snd f \<and> snd f < 2 ^ 63" by (simp add: sample_files_def)
  have num: "(0 :: int) < 4" "(4 :: int) < 2 ^ 31" "length sample_pieces < 2 ^ 31" by simp_all
  show ?thesis
    by (rule multi_torrent_parse [OF posix.path_grammar_axioms sample_files_ok(1) num sizes refl
          sample_torrent_length refl count, of sample_hash id]) blast
qed


lemma read_files_keeps:
  "read_files ops buf info name ti = Inr ti' \<Longrightarrow> ti_info_hash ti' = ti_info_hash ti \<and> ti_info_section ti' = ti_info_section ti"
  unfolding read_files_def by (auto elim!: bind_resultE split: option.splits)

lemma read_hashes_keeps:
  "read_hashes buf info sec ti = Inr ti' \<Longrightarrow> ti_info_hash ti' = ti_info_hash ti \<and> ti_info_section ti' = ti_info_section ti"
  unfolding read_hashes_def by (auto elim!: bind_resultE simp: Let_def split: option.splits if_splits prod.splits)

text \<open>
  C24: The info-hash identifies the info dictionary. For every torrent that was encoded with
  \<open>bencode\<close>, with whatever other entries, if \<open>torrent_info\<close> is constructed from it then the
  torrent has an info dictionary, and the info-hash and the metadata kept are the hash of its
  encoding and the encoding itself.
\<close>

theorem torrent_info_hash:
  assumes "wf_entry (Dict d)" "int (nesting (Dict d)) \<le> 1000" "length (snd (bencode (Dict d)) @ rest) < 2 ^ 31"
    and "torrent_info_buffer ops hash shuffle (snd (bencode (Dict d)) @ rest) = Some (Inr ti)"
  shows "\<exists>info. map_of d ''info'' = Some (Dict info) \<and> ti_info_hash ti = hash (snd (bencode (Dict info))) \<and>
    ti_info_section ti = snd (bencode (Dict info))"
proof -
  define buf where "buf = encoding (Dict d) @ rest"
  obtain e where e: "lazy_bdecode buf 1000 = Some (Inr 0, e)" and rep: "represents buf (Dict d) e"
    using lazy_bdecode_represents [OF assms(1,2)] unfolding buf_def by metis
  have len: "length buf < 2 ^ 31" using assms(3) by (simp add: buf_def bencode_def)
  from assms(4) e obtain ti0 x where x: "dict_find_dict buf ''info'' e = Inr (Some x)"
    and p: "parse_info_section ops hash buf x ti0 = Inr ti"
    unfolding torrent_info_buffer_def parse_torrent_file_def bencode_def buf_def [symmetric]
    by (auto elim!: bind_resultE simp: Let_def split: option.splits if_splits)
  obtain info where info: "map_of d ''info'' = Some (Dict info)" "represents buf (Dict info) x"
  proof -
    from x obtain "dict_find buf ''info'' e = Inr (Some x)" "m_type x = Dict_t"
      by (auto simp: dict_find_dict_def elim!: bind_resultE split: option.splits if_splits)
    moreover from this lazy.rep_find [OF rep, of "''info''"] obtain v where
      v: "map_of d ''info'' = Some v" "represents buf v x" by (auto simp: option_rel_Some2)
    moreover have "type_of v = Dict_t" using represents_type [OF v(2)] calculation(2) by simp
    ultimately show thesis using that by (cases v) auto
  qed
  obtain b where b: "data_section x = Inr (int b, int (length (encoding (Dict info))))"
    "subbytes buf (int b) (int (length (encoding (Dict info)))) = encoding (Dict info)"
    using view_section [OF info(2) len] by metis
  from p have "ti_info_hash ti = hash (encoding (Dict info)) \<and> ti_info_section ti = encoding (Dict info)"
  proof (cases rule: parse_info_section_cases)
    case (1 sec sz piece_length name0 ti2 ti3 ti5)
    have s: "sec = int b" "sz = int (length (encoding (Dict info)))" using 1(2) b(1) by simp_all
    show ?thesis
      using 1(9,11,12) read_files_keeps [OF 1(10)] read_hashes_keeps [of buf x sec ti5] b(2)
      unfolding s by auto
  qed
  with info(1) show ?thesis by (simp add: bencode_def)
qed

theorem torrent_info_hash_witness:
  "\<exists>ti. torrent_info_buffer posix_ops sample_hash id (encoding (torrent_entry (multi_info ''t'' 4 sample_pieces sample_files))) =
      Some (Inr ti) \<and> ti_info_section ti = snd (bencode (Dict (multi_info ''t'' 4 sample_pieces sample_files)))"
proof -
  let ?d = "[(''info'', Dict (multi_info ''t'' 4 sample_pieces sample_files))]"
  obtain ti where ti: "torrent_info_buffer posix_ops sample_hash id (encoding (torrent_entry (multi_info ''t'' 4 sample_pieces sample_files))) =
      Some (Inr ti)" using sample_torrent_parses by blast
  have sizes: "\<forall>f \<in> set sample_files. - (2 ^ 63) < snd f \<and> snd f < 2 ^ 63" by (simp add: sample_files_def)
  have wf: "wf_entry (Dict ?d)" using wf_torrent(2) [OF sample_files_ok(1) _ _ _ sizes, of 4 sample_pieces] by (simp add: torrent_entry_def)
  have "int (nesting (Dict ?d)) \<le> 1000"
    using nesting_torrent [of "''t''" 4 sample_pieces sample_files] unfolding torrent_entry_def .
  moreover have "length (snd (bencode (Dict ?d)) @ '''') < 2 ^ 31"
    using sample_torrent_length by (simp add: torrent_entry_def bencode_def)
  moreover have "torrent_info_buffer posix_ops sample_hash id (snd (bencode (Dict ?d)) @ '''') = Some (Inr ti)"
    using ti by (simp only: torrent_entry_def bencode_def append_Nil2)
  ultimately show ?thesis using torrent_info_hash [OF wf] ti by fastforce
qed

end
