(* ===== verification/TorrentFaults.thy ===== *)
theory TorrentFaults
  imports TorrentParse
begin

section \<open>The layout of the files, and what goes wrong\<close>

text \<open>
  The layout of the files of every torrent that is accepted, under the condition that the code
  does not check (sizes that are not negative), and the behaviour where the checks are missing:
  negative sizes, a piece count that wraps around, and entries of an unexpected type.
\<close>

definition wrapped_layout :: "file_storage \<Rightarrow> bool" where
  "wrapped_layout st \<longleftrightarrow> m_total_size st = int64 (total_of (m_files st)) \<and>
     (\<forall>i < length (m_files st). fe_offset (m_files st ! i) = int64 (total_of (take i (m_files st))))"

lemma wrapped_layout_new: "wrapped_layout (set_piece_length pl new_file_storage)"
  by (simp add: wrapped_layout_def set_piece_length_def new_file_storage_def int64_id)

lemma wrapped_layout_add: "wrapped_layout st \<Longrightarrow> wrapped_layout (add_file_entry ops e st)"
  by (auto simp: wrapped_layout_def add_file_entry_def Let_def int64_add nth_append less_Suc_eq)

lemma laid_out_offsets:
  "laid_out off fs \<longleftrightarrow> (\<forall>i < length fs. fe_offset (fs ! i) = off + total_of (take i fs) \<and> 0 \<le> fe_size (fs ! i))"
proof (induction fs arbitrary: off)
  case (Cons f fs)
  show ?case
    unfolding laid_out.simps Cons.IH by (auto simp: less_Suc_eq_0_disj add.assoc)
qed simp

lemma wrapped_layout_ok:
  assumes "wrapped_layout st" "\<forall>f \<in> set (m_files st). 0 \<le> fe_size f" "total_of (m_files st) < 2 ^ 63"
  shows "storage_ok st"
proof -
  have nonneg: "0 \<le> total_of xs" if "set xs \<subseteq> set (m_files st)" for xs
    using that assms(2) by (induction xs) auto
  have "total_of (take i (m_files st)) \<le> total_of (m_files st)" for i
  proof -
    have "total_of (m_files st) = total_of (take i (m_files st)) + total_of (drop i (m_files st))"
      by (metis append_take_drop_id total_of_simps(3))
    then show ?thesis using nonneg [OF set_drop_subset, of i] by linarith
  qed
  then have "int64 (total_of (take i (m_files st))) = total_of (take i (m_files st))" for i
    using nonneg [OF set_take_subset, of i] assms(3) by (intro int64_id) (auto intro: le_less_trans)
  moreover have "int64 (total_of (m_files st)) = total_of (m_files st)"
    using nonneg [of "m_files st"] assms(3) by (intro int64_id) auto
  ultimately show ?thesis
    using assms by (simp add: storage_ok_def wrapped_layout_def laid_out_offsets)
qed

lemma store_file_layout:
  "wrapped_layout st \<Longrightarrow>
    wrapped_layout (store_file ops e st) \<and> m_piece_length (store_file ops e st) = m_piece_length st"
  using wrapped_layout_add by (auto simp: store_file_def Let_def) (auto simp: add_file_entry_def Let_def)

lemma extract_files_layout:
  assumes "extract_files ops buf l root_dir st = Inr (Some st')" and "wrapped_layout st"
  shows "wrapped_layout st' \<and> m_piece_length st' = m_piece_length st"
proof -
  let ?P = "\<lambda>acc. pred_option (\<lambda>s. wrapped_layout s \<and> m_piece_length s = m_piece_length st) acc"
  have "fold_result (extract_file_at ops buf l root_dir) (list_indices l) (Some st) = Inr (Some st')"
    using assms(1) by (auto simp: extract_files_def split: if_splits)
  then have "?P (Some st')"
  proof (rule fold_result_invariant [where P = ?P])
    show "?P acc'" if P: "?P acc" and run: "extract_file_at ops buf l root_dir i acc = Inr acc'" for i acc acc'
    proof (cases acc)
      case None
      then show ?thesis using run by (simp add: extract_file_at_def)
    next
      case (Some s)
      then obtain r where r: "acc' = map_option (\<lambda>e. store_file ops e s) r"
        using run by (auto simp: extract_file_at_def elim!: bind_resultE)
      then show ?thesis using P Some store_file_layout [of s] by (cases r) simp_all
    qed
  qed (use assms(2) in simp)
  then show ?thesis by simp
qed

lemma read_files_layout:
  assumes "wrapped_layout (ti_files ti)" and "read_files ops buf info name ti = Inr ti'"
  shows "wrapped_layout (ti_files ti') \<and> m_piece_length (ti_files ti') = m_piece_length (ti_files ti)"
proof -
  from assms(2) consider e where "ti_files ti' = add_file_entry ops e (ti_files ti)"
    | l fs where "extract_files ops buf l name (ti_files ti) = Inr (Some fs)" "ti_files ti' = fs"
    unfolding read_files_def by (auto elim!: bind_resultE split: option.splits)
  then show ?thesis
  proof cases
    case 1
    then show ?thesis using assms(1) wrapped_layout_add by (auto simp: add_file_entry_def Let_def)
  next
    case 2
    then show ?thesis using extract_files_layout assms(1) by blast
  qed
qed

lemma accepted_piece_length:
  assumes "torrent_info_buffer ops hash shuffle buf = Some (Inr ti)"
  shows "m_piece_length (ti_files ti) < 2 ^ 31"
proof -
  from assms obtain x ti0 where p: "parse_info_section ops hash buf x ti0 = Inr ti"
    and ti0: "ti_files ti0 = new_file_storage" by (rule torrent_info_buffer_parsed)
  from p show ?thesis
  proof (cases rule: parse_info_section_cases)
    case (1 sec sz piece_length name0 ti2 ti3 ti5)
    have "wrapped_layout (ti_files ti2)" "m_piece_length (ti_files ti2) = piece_length"
      using 1(9) ti0 wrapped_layout_new by (simp_all add: set_piece_length_def)
    with read_files_layout 1(10) have "m_piece_length (ti_files ti3) = piece_length" by auto
    then show ?thesis
      using 1(7,11,12) read_hashes_files by (auto simp: set_num_pieces_def set_name_def)
  qed
qed


text \<open>One run on a torrent with ordinary names and sizes that may be anything.\<close>

lemma stored_files_total:
  assumes "path_grammar ops" "simple_files name fs" "clash_free (map fst (path_sizes st @ wanted_files name fs))"
    and "wrapped_layout st"
  shows "m_total_size (stored_files ops name fs st) = int64 (sum_list (map snd (path_sizes st @ wanted_files name fs)))"
proof -
  have "wrapped_layout (stored_files ops name fs st)"
    using assms(4) store_file_layout unfolding stored_files_def by (induction fs arbitrary: st) auto
  then have "m_total_size (stored_files ops name fs st) = int64 (total_of (m_files (stored_files ops name fs st)))"
    by (simp add: wrapped_layout_def)
  moreover have "total_of (m_files s) = sum_list (map snd (path_sizes s))" for s
    by (simp add: total_of_def path_sizes_def comp_def)
  ultimately show ?thesis using stored_files_list [OF assms(1-3)] by simp
qed

lemma small_torrent_length:
  assumes "length pieces \<le> 40" "0 \<le> pl" "pl < 10" "- 10 < a" "a < 10 ^ 10" "- 10 < b" "b < 10"
  shows "length (encoding (torrent_entry (multi_info ''t'' pl pieces [([''a''], a), ([''b''], b)]))) < 2 ^ 31"
proof -
  have dec: "length (decimal n) \<le> k" if "n < 10 ^ k" "0 < k" for n k
    using that
  proof (induction k arbitrary: n)
    case (Suc k)
    then show ?case by (cases "n < 10"; cases k) (auto simp: decimal.simps [of n])
  qed simp
  have int: "length (int_string v) \<le> 11" if "- 10 < v" "v < 10 ^ 10" for v
  proof -
    have "length (decimal (nat \<bar>v\<bar>)) \<le> 10" using that by (intro dec) auto
    then show ?thesis by (auto simp: int_string_def)
  qed
  have small: "length (decimal n) \<le> 2" if "n \<le> 40" for n using that by (intro dec) auto
  have "length (int_string pl) \<le> 11" "length (int_string a) \<le> 11" "length (int_string b) \<le> 11"
    using assms by (auto intro!: int)
  then show ?thesis
    using assms small [of "length pieces"] small [of "length ''a''"] small [of "length ''info''"] small [of "length ''files''"]
      small [of "length ''length''"] small [of "length ''piece length''"]
    by (simp add: torrent_entry_def multi_info_def file_dict_def encoding_Dict encoding_List encoding_pair_def
        encoding_String encoding_Integer
        del: bencode_recursive.simps bencode_list.simps bencode_dict.simps)
qed

lemma two_files_ok:
  "simple_files ''t'' [([''a''], a), ([''b''], b)]"
  "clash_free (map fst (wanted_files ''t'' [([''a''], a), ([''b''], b)]))"
proof -
  show "simple_files ''t'' [([''a''], a), ([''b''], b)]" by (simp add: simple_files_def simple_letters)
  have "\<not> string_equal_no_case ''t/b'' ''t/a''" by code_simp
  then show "clash_free (map fst (wanted_files ''t'' [([''a''], a), ([''b''], b)]))"
    by (simp add: clash_free_def wanted_files_def joined_def c_str_def)
qed

lemma two_file_torrent:
  assumes "0 < pl" "pl < 10" "- 10 < a" "a < 10 ^ 10" "- 10 < b" "b < 10" "length pieces \<le> 40"
    and "int (length pieces) = int32 (int32 (int64 (int64 (int64 (a + b) + pl) - 1) sdiv pl) * 20)"
  obtains ti where "torrent_info_buffer posix_ops sample_hash id
      (snd (bencode (torrent_entry (multi_info ''t'' pl pieces [([''a''], a), ([''b''], b)])))) = Some (Inr ti)"
    "path_sizes (ti_files ti) = [(''t/a'', a), (''t/b'', b)]" "m_total_size (ti_files ti) = int64 (a + b)"
    "m_num_pieces (ti_files ti) = int32 (int64 (int64 (int64 (a + b) + pl) - 1) sdiv pl)"
proof -
  let ?fs = "[([''a''], a), ([''b''], b)]"
  let ?st0 = "set_piece_length pl new_file_storage"
  define st where "st = stored_files posix_ops ''t'' ?fs ?st0"
  have ps0: "path_sizes ?st0 = []" "m_piece_length ?st0 = pl"
    by (simp_all add: path_sizes_def set_piece_length_def new_file_storage_def)
  have st: "path_sizes st = [(''t/a'', a), (''t/b'', b)]" "m_piece_length st = pl"
    using stored_files_list [OF posix.path_grammar_axioms two_files_ok(1), of ?st0] two_files_ok(2) ps0
    by (simp_all add: st_def wanted_files_def joined_def)
  have tot: "m_total_size st = int64 (a + b)"
    using stored_files_total [OF posix.path_grammar_axioms two_files_ok(1) _ wrapped_layout_new] two_files_ok(2) ps0
    by (simp add: st_def wanted_files_def)
  have count: "int (length pieces) = int32 (piece_count st * 20)"
    using assms(8) by (simp add: piece_count_def tot st(2))
  have sizes: "\<forall>f \<in> set ?fs. - (2 ^ 63) < snd f \<and> snd f < 2 ^ 63" using assms(3-6) by auto
  have num: "pl < 2 ^ 31" "length pieces < 2 ^ 31" using assms(2,7) by auto
  have len: "length (encoding (torrent_entry (multi_info ''t'' pl pieces ?fs))) < 2 ^ 31"
    using assms by (intro small_torrent_length) auto
  show thesis
    by (rule multi_torrent_parse [OF posix.path_grammar_axioms two_files_ok(1) assms(1) num sizes refl len st_def count,
          of sample_hash id])
      (rule that, simp add: bencode_def,
        simp_all add: finish_files_def set_num_pieces_def set_name_def path_sizes_def st [unfolded path_sizes_def] tot
          piece_count_def st(2))
qed


text \<open>
  The size of a file in a list of files is not checked: a torrent with a file of size -3 is
  accepted, and its files overlap.
\<close>

theorem negative_size_accepted:
  "\<exists>ti. torrent_info_buffer posix_ops sample_hash id
      (snd (bencode (torrent_entry (multi_info ''t'' 4 (replicate 20 (CHR ''x'')) [([''a''], 5), ([''b''], - 3)])))) = Some (Inr ti) \<and>
    path_sizes (ti_files ti) = [(''t/a'', 5), (''t/b'', - 3)] \<and> m_total_size (ti_files ti) = 2 \<and> \<not> storage_ok (ti_files ti)"
proof -
  have count: "int (length (replicate 20 (CHR ''x''))) = int32 (int32 (int64 (int64 (int64 (5 + - 3) + 4) - 1) sdiv 4) * 20)" by code_simp
  obtain ti where ti: "torrent_info_buffer posix_ops sample_hash id
      (snd (bencode (torrent_entry (multi_info ''t'' 4 (replicate 20 (CHR ''x'')) [([''a''], 5), ([''b''], - 3)])))) = Some (Inr ti)"
    "path_sizes (ti_files ti) = [(''t/a'', 5), (''t/b'', - 3)]" "m_total_size (ti_files ti) = int64 (5 + - 3)"
    by (rule two_file_torrent [OF _ _ _ _ _ _ _ count]) auto
  moreover have "\<not> laid_out 0 (m_files (ti_files ti))"
    using ti(2) by (auto simp: path_sizes_def map_eq_Cons_conv)
  ultimately show ?thesis by (simp add: storage_ok_def int64_id)
qed

text \<open>
  The number of pieces is cut to 32 bits before it is compared with the hashes: a torrent of
  4 GiB in pieces of one byte is accepted with no hash at all, and has no pieces.
\<close>

theorem piece_count_wraps:
  "\<exists>ti. torrent_info_buffer posix_ops sample_hash id
      (snd (bencode (torrent_entry (multi_info ''t'' 1 [] [([''a''], 2 ^ 32), ([''b''], 0)])))) = Some (Inr ti) \<and>
    m_total_size (ti_files ti) = 2 ^ 32 \<and> m_num_pieces (ti_files ti) = 0"
proof -
  have wrap: "int32 (int64 (int64 (int64 (2 ^ 32 + 0) + 1) - 1) sdiv 1) = 0" "int64 (2 ^ 32 + 0) = 2 ^ 32" by code_simp+
  then have count: "int (length ([] :: string)) = int32 (int32 (int64 (int64 (int64 (2 ^ 32 + 0) + 1) - 1) sdiv 1) * 20)" by (simp add: int32_id)
  obtain ti where ti: "torrent_info_buffer posix_ops sample_hash id
      (snd (bencode (torrent_entry (multi_info ''t'' 1 [] [([''a''], 2 ^ 32), ([''b''], 0)])))) = Some (Inr ti)"
    "m_total_size (ti_files ti) = int64 (2 ^ 32 + 0)"
    "m_num_pieces (ti_files ti) = int32 (int64 (int64 (int64 (2 ^ 32 + 0) + 1) - 1) sdiv 1)"
    by (rule two_file_torrent [OF _ _ _ _ _ _ _ count]) auto
  then show ?thesis using trans [OF ti(2) wrap(2)] trans [OF ti(3) wrap(1)] by blast
qed

text \<open>
  C39: The elements of the list of files are not checked to be dictionaries: a torrent with an
  integer in that list makes \<open>extract_single_file\<close> search the dictionary member of a union
  that holds a pointer to the digits.
\<close>

theorem file_entry_type_confusion:
  assumes "simple_name name" "0 < pl" "pl < 2 ^ 31" "- (2 ^ 63) < v" "v < 2 ^ 63" "path_grammar ops"
    and "info = [(''files'', List [Integer v]), (''name'', String name), (''piece length'', Integer pl), (''pieces'', String [])]"
    and "length (snd (bencode (torrent_entry info))) < 2 ^ 31"
  shows "torrent_info_buffer ops hash shuffle (snd (bencode (torrent_entry info))) = Some (Inl Wrong_member)"
proof -
  have wf: "wf_entry (Dict info)" "wf_entry (torrent_entry info)" "int (nesting (torrent_entry info)) \<le> 1000"
    using assms(1-5) by (simp_all add: assms(7) torrent_entry_def simple_name_def)
  define buf where "buf = encoding (torrent_entry info)"
  obtain n where n: "represents buf (Dict info) n" "torrent_info_buffer ops hash shuffle buf =
      Some (parse_info_section ops hash buf n new_torrent_info)"
    using torrent_info_buffer_view [OF wf(2,3)] unfolding buf_def by metis
  have name: "name \<noteq> []" "sanitize_path ops name = name" "valid_path_element name" "fst (verify_encoding name) = name"
    using simple_name_sanitized [OF assms(6,1)] by simp_all
  obtain l where l: "dict_find buf ''files'' n = Inr (Some l)" "represents buf (List [Integer v]) l"
    by (rule view_node [OF n(1), of "''files''" "List [Integer v]"]) (simp add: assms(7))
  obtain x where x: "list_at 0 l = Inr x" "represents buf (Integer v) x"
    using represents_item [OF l(2), of 0] by auto
  have "m_type x = Int_t" "0 < m_size x" using x(2) by (auto simp: int_string_def)
  then have "extract_single_file ops buf x name = Inl Wrong_member"
    by (simp add: extract_single_file_def dict_find_def)
  moreover have "m_type l = List_t" "list_indices l = [0]" using represents_type [OF l(2)] list_indices_view [OF l(2)] by simp_all
  ultimately have "extract_files ops buf l name st = Inl Wrong_member" for st
    by (simp add: extract_files_def extract_file_at_def x(1))
  then have files: "read_files ops buf n name ti = Inl Wrong_member" for ti
    using l(1) \<open>m_type l = List_t\<close> by (simp add: read_files_def dict_find_list_def)
  have len: "length buf < 2 ^ 31" using assms(8) by (simp add: buf_def bencode_def)
  obtain b where b: "data_section n = Inr (int b, int (length (encoding (Dict info))))"
    "b + length (encoding (Dict info)) \<le> length buf"
    using view_section [OF n(1) len] by metis
  have "dict_find_int_value buf ''piece length'' (- 1) n = Inr pl" "int32 pl = pl"
    "utf8_or buf ''name.utf-8'' ''name'' n = Inr name" "m_type n = Dict_t"
    using view_int_value [OF n(1) wf(1)] view_string_value [OF n(1) wf(1)] assms(2,3) represents_type [OF n(1)]
    by (simp_all add: assms(7) int32_id utf8_or_def)
  then have "parse_info_section ops hash buf n ti = Inl Wrong_member" for ti
    using b assms(2) name files
    by (simp add: parse_info_section_def Let_def del: bencode_recursive.simps)
  with n(2) show ?thesis by (simp add: buf_def bencode_def)
qed

theorem file_entry_type_confusion_witness:
  "torrent_info_buffer posix_ops sample_hash id (snd (bencode (torrent_entry [(''files'', List [Integer 7]), (''name'', String ''t''),
     (''piece length'', Integer 4), (''pieces'', String [])]))) = Some (Inl Wrong_member)"
proof (rule file_entry_type_confusion [OF _ _ _ _ _ posix.path_grammar_axioms refl])
  show "simple_name ''t''" by (simp add: simple_letters)
  show "length (snd (bencode (torrent_entry [(''files'', List [Integer 7]), (''name'', String ''t''),
     (''piece length'', Integer 4), (''pieces'', String [])]))) < 2 ^ 31"
    by (simp add: bencode_def torrent_entry_def encoding_Dict encoding_List encoding_pair_def
        encoding_String encoding_Integer int_string_def decimal.simps
        del: bencode_recursive.simps bencode_list.simps bencode_dict.simps)
qed simp_all

end
