(* ===== verification/Downloads.thy ===== *)
theory Downloads
  imports Daemon TorrentFaults
begin

section \<open>What a request for a file does\<close>

text \<open>
  The behaviour of \<open>gettor\<close> on a torrent that the library accepts, and of \<open>getTorrent\<close> in the
  cases that the daemon meets: the first request for a file, a request for a file that is there,
  a torrent file that is missing, replaced or broken, links, and a download that never reports
  the state \<open>finished\<close>.
\<close>

subsection \<open>The list of files\<close>

definition torfile_of :: "file_storage \<Rightarrow> file_entry \<Rightarrow> torfile_list \<Rightarrow> bool" where
  "torfile_of st e l \<longleftrightarrow> tl_size l = fe_size e \<and> tl_name l = fe_path e \<and> tl_mtime l = fe_mtime e \<and>
     tl_symlink_attribute l = fe_symlink_attribute e \<and>
     (fe_symlink_attribute e \<longrightarrow> tl_symlink_path l = fe_symlink_path e) \<and>
     tl_node_s l = int32 (int64 (fe_offset e) sdiv m_piece_length st) \<and>
     tl_node_f l = int32 (int64 (int64 (fe_size e - 1) + fe_offset e) sdiv m_piece_length st)"

lemma gettor_fold:
  assumes "list_all2 (torfile_of (ti_files t)) (take n (m_files (ti_files t))) acc" "n \<le> length (m_files (ti_files t))"
  shows "\<exists>sym list. fold_result (gettor_entry t) (enumerate n (drop n (m_files (ti_files t)))) (s, acc) = Inr (sym, list) \<and>
    list_all2 (torfile_of (ti_files t)) (m_files (ti_files t)) list"
  using assms
proof (induction "length (m_files (ti_files t)) - n" arbitrary: n s acc)
  case 0
  then show ?case by simp
next
  case (Suc k)
  let ?st = "ti_files t"
  let ?e = "m_files ?st ! n"
  have n: "n < length (m_files ?st)" using Suc.hyps(2) by simp
  then have "file_at (int n) ?st = Inr ?e" by (simp add: file_at_def read_at_def)
  then obtain s' l where step: "gettor_entry t (n, ?e) (s, acc) = Inr (s', acc @ [l])" "torfile_of ?st ?e l"
    by (simp add: gettor_entry_def map_file_def torfile_of_def Let_def)
  have acc: "list_all2 (torfile_of ?st) (take (Suc n) (m_files ?st)) (acc @ [l])"
    using Suc.prems(1) step(2) n by (simp add: take_Suc_conv_app_nth list_all2_appendI)
  have drop: "drop n (m_files ?st) = ?e # drop (Suc n) (m_files ?st)" using n by (simp add: Cons_nth_drop_Suc)
  show ?case using Suc.hyps(1) [OF _ acc, of s'] Suc.hyps(2) n step(1) by (simp add: drop)
qed

lemma gettor_files_listed:
  obtains list where "gettor_files t = Inr list" "list_all2 (torfile_of (ti_files t)) (m_files (ti_files t)) list"
  using gettor_fold [of t 0 "[]" "[]"] that by (auto simp: gettor_files_def)

text \<open>
  The torrent \<open>t\<close> is there: its file is not larger than either reader accepts, is read
  completely, and the library accepts it.
\<close>

definition torrent_on_disk :: "daemon_env \<Rightarrow> string \<Rightarrow> torrent_info \<Rightarrow> bool" where
  "torrent_on_disk env t ti \<longleftrightarrow>
     (case env_disk env (TORRENT_LOCATION @ t) of
        None \<Rightarrow> False
      | Some buf \<Rightarrow> length buf \<le> 5000000 \<and> env_nread env (TORRENT_LOCATION @ t) = int (length buf) \<and>
          torrent_info_buffer (env_ops env) (env_hash env) (env_shuffle env) buf = Some (Inr ti))"

lemma torrent_on_disk_info: "torrent_on_disk env t ti \<Longrightarrow> torrent_info_path env (TORRENT_LOCATION @ t) = Inr ti"
  by (auto simp: torrent_on_disk_def torrent_info_path_def torrent_info_file_def load_file_def split: option.splits)

lemma torrent_on_disk_gettor:
  assumes "torrent_on_disk env t ti"
  shows "gettor env 2 t = gettor_files ti"
proof -
  obtain buf where buf: "env_disk env (TORRENT_LOCATION @ t) = Some buf" "length buf \<le> 5000000"
    "torrent_info_buffer (env_ops env) (env_hash env) (env_shuffle env) buf = Some (Inr ti)"
    using assms by (auto simp: torrent_on_disk_def split: option.splits)
  obtain e where e: "lazy_bdecode buf 1000 = Some (Inr 0, e)"
    "parse_torrent_file (env_ops env) (env_hash env) (env_shuffle env) buf e new_torrent_info = Inr ti"
    using buf(3) by (auto simp: torrent_info_buffer_def elim!: bind_resultE split: option.splits if_splits)
  have "int32 (int (length buf)) = int (length buf)" using buf(2) by (intro int32_id) auto
  then have "gettor_body env (TORRENT_LOCATION @ t) = gettor_files ti"
    using buf(1,2) e by (simp add: gettor_body_def torrent_info_lazy_def Let_def)
  moreover obtain list where "gettor_files ti = Inr list" by (rule gettor_files_listed)
  ultimately show ?thesis by (simp add: gettor_def)
qed

subsection \<open>Searching the list\<close>

lemma check_loop_miss: "name \<notin> tl_name ` set ls \<Longrightarrow> check_loop name k ls = - 1"
  by (induction name k ls rule: check_loop.induct) auto

lemma check_loop_hit:
  "i < length ls \<Longrightarrow> tl_name (ls ! i) = name \<Longrightarrow> \<forall>j < i. tl_name (ls ! j) \<noteq> name \<Longrightarrow> check_loop name k ls = k + int i"
proof (induction name k ls arbitrary: i rule: check_loop.induct)
  case (2 name k l ls)
  show ?case
  proof (cases i)
    case 0
    then show ?thesis using 2 by simp
  next
    case (Suc j)
    then have "check_loop name (k + 1) ls = k + 1 + int j"
      using 2 by (intro 2(1)) (auto dest: spec [of _ "Suc _"])
    moreover have "tl_name l \<noteq> name" using 2(4) Suc by force
    ultimately show ?thesis using Suc by simp
  qed
qed simp

subsection \<open>Waiting\<close>

lemma wait_finished_iff:
  "wait_finished states = (if \<exists>k. states k = Finished then Inr () else Inl Diverges)"
proof (cases "\<exists>k. states k = Finished")
  case True
  moreover have "(Suc ^^ k) 0 = k" for k by (induction k) auto
  ultimately have "while_option (\<lambda>k. states k \<noteq> Finished) Suc 0 \<noteq> None"
    by (simp add: while_option_def)
  then show ?thesis using True by (auto simp: wait_finished_def)
next
  case False
  then have "while_option (\<lambda>k. states k \<noteq> Finished) Suc 0 = None"
    by (intro while_option_diverges [where P = "\<lambda>_. True"]) auto
  then show ?thesis using False by (simp add: wait_finished_def)
qed

subsection \<open>A request for a file\<close>

text \<open>A path of the form \<open>torrent/file\<close>, the names without the characters that end them.\<close>

definition file_request :: "string \<Rightarrow> string \<Rightarrow> bool" where
  "file_request t f \<longleftrightarrow> CHR ''/'' \<notin> set t \<and> CHR 0x00 \<notin> set t \<and> length (t @ ''/'' @ f) < 2 ^ 31"

text \<open>The torrent file did not change since it was first read, or cannot be examined.\<close>

definition unchanged :: "daemon_env \<Rightarrow> string \<Rightarrow> torrentStatus \<Rightarrow> bool" where
  "unchanged env t ts \<longleftrightarrow> ts_empty ts \<or> env_stat env (TORRENT_LOCATION @ t) \<in> {None, Some (ts_timestamp ts)}"

text \<open>File \<open>i\<close> is the first one with the requested name.\<close>

definition first_file :: "torrent_info \<Rightarrow> string \<Rightarrow> nat \<Rightarrow> bool" where
  "first_file ti name i \<longleftrightarrow> i < length (m_files (ti_files ti)) \<and> fe_path (m_files (ti_files ti) ! i) = name \<and>
     (\<forall>j < i. fe_path (m_files (ti_files ti) ! j) \<noteq> name)"

definition priorities :: "torrent_info \<Rightarrow> nat \<Rightarrow> int list" where
  "priorities ti i = (replicate (length (m_files (ti_files ti))) 0)[i := 1]"

lemma request_c_str [simp]:
  assumes "file_request t f"
  shows "c_str t = t" "c_str (TORRENT_LOCATION @ t) = TORRENT_LOCATION @ t"
  using assms by (auto simp: file_request_def TORRENT_LOCATION_def intro!: c_str_id)

lemma request_split:
  assumes "file_request t f"
  shows "str_find ''/'' (t @ ''/'' @ f) = int (length t)" "substr (t @ ''/'' @ f) 0 (int (length t)) = Inr t"
    "substr (t @ ''/'' @ f) (int (length t) + 1) (int (length (t @ ''/'' @ f)) - int (length t)) = Inr f"
proof -
  show "str_find ''/'' (t @ ''/'' @ f) = int (length t)" using assms by (simp add: file_request_def)
  show "substr (t @ ''/'' @ f) 0 (int (length t)) = Inr t" using assms by (intro substr_prefix) (simp add: file_request_def)
  show "substr (t @ ''/'' @ f) (int (length t) + 1) (int (length (t @ ''/'' @ f)) - int (length t)) = Inr f"
    using assms substr_suffix [of "t @ ''/''" f "int (length t) + 1" "1 + int (length f)"] by (simp add: file_request_def)
qed

lemma check_hit:
  assumes "file_request t f" "torrent_on_disk env t ti" "first_file ti (t @ ''/'' @ f) i"
  shows "check env t f = Inr (int i)"
proof -
  obtain list where list: "gettor_files ti = Inr list" "list_all2 (torfile_of (ti_files ti)) (m_files (ti_files ti)) list"
    by (rule gettor_files_listed)
  then have "tl_name (list ! j) = fe_path (m_files (ti_files ti) ! j)" if "j < length list" for j
    using that by (auto simp: list_all2_conv_all_nth torfile_of_def)
  moreover have "length list = length (m_files (ti_files ti))" using list(2) by (simp add: list_all2_lengthD)
  ultimately have "check_loop (t @ ''/'' @ f) 0 list = 0 + int i"
    using assms(3) by (intro check_loop_hit) (auto simp: first_file_def)
  then show ?thesis
    using assms(1,2) list(1) by (simp add: check_def torrent_on_disk_gettor)
qed

lemma check_miss:
  assumes "file_request t f" "torrent_on_disk env t ti" "t @ ''/'' @ f \<notin> fe_path ` set (m_files (ti_files ti))"
  shows "check env t f = Inr (- 1)"
proof -
  obtain list where list: "gettor_files ti = Inr list" "list_all2 (torfile_of (ti_files ti)) (m_files (ti_files ti)) list"
    by (rule gettor_files_listed)
  then have "map tl_name list = map fe_path (m_files (ti_files ti))"
    by (auto simp: list_all2_conv_all_nth torfile_of_def intro: nth_equalityI)
  then have "tl_name ` set list = fe_path ` set (m_files (ti_files ti))" by (metis list.set_map)
  then show ?thesis
    using assms list(1) check_loop_miss [of "t @ ''/'' @ f" list 0] by (simp add: check_def torrent_on_disk_gettor)
qed

lemma migrate_unchanged: "unchanged env t (d_status d) \<Longrightarrow> migrate_if_changed env (TORRENT_LOCATION @ t) d = (Inr (), d)"
  by (auto simp: migrate_if_changed_def with_status_eq unchanged_def isEmpty_def isTorrentValid_def split: option.split)

lemma downloaded_eq:
  "with_status (\<lambda>ts. (already_downloaded index_t ts, ts)) d = (already_downloaded index_t (d_status d), d)"
  by (simp add: with_status_eq)

text \<open>The common part of the two cases of a request: the file is found, and the status is looked up.\<close>

lemma getTorrent_body_found:
  assumes "file_request t f" "torrent_on_disk env t ti" "first_file ti (t @ ''/'' @ f) i" "unchanged env t (d_status d)"
    and "already_downloaded (int i) (d_status d) = Inr done"
  shows "getTorrent_body self env (t @ ''/'' @ f) d =
    (if done then (Inr (), d)
     else
       bind_act
         (if fe_symlink_attribute (m_files (ti_files ti) ! i) then
            bind_act (pure (returned (map_option Inr
                (resolve_symlink ((t @ ''/'' @ f) @ ''/'' @ fe_symlink_path (m_files (ti_files ti) ! i))))))
              (\<lambda>sym_path. self (c_str sym_path))
          else pure (Inr ()))
         (\<lambda>_. download_file env (t @ ''/'' @ f) t (int i) (priorities ti i) (fe_mtime (m_files (ti_files ti) ! i))) d)"
proof -
  obtain list where list: "gettor_files ti = Inr list" "list_all2 (torfile_of (ti_files ti)) (m_files (ti_files ti)) list"
    by (rule gettor_files_listed)
  then have len: "length list = length (m_files (ti_files ti))" by (simp add: list_all2_lengthD)
  have i: "i < length list" using assms(3) len by (simp add: first_file_def)
  then have li: "torfile_of (ti_files ti) (m_files (ti_files ti) ! i) (list ! i)"
    using list(2) len by (simp add: list_all2_nthD)
  have prio: "write_at (replicate (length list) 0) (int i) 1 = Inr (priorities ti i)"
    using i len by (simp add: write_at_def priorities_def)
  have item: "read_at list (int i) = Inr (list ! i)" using i by (simp add: read_at_def)
  have looked_up: "with_status (\<lambda>ts. (already_downloaded (int i) ts, ts)) d = (Inr done, d)"
    using assms(5) by (simp add: downloaded_eq)
  have g: "gettor env 2 t = Inr list" using assms(2) list(1) by (simp add: torrent_on_disk_gettor)
  show ?thesis
    unfolding getTorrent_body_def Let_def request_split(1) [OF assms(1)]
    by (simp add: request_split [OF assms(1), simplified] check_hit [OF assms(1-3)] request_c_str [OF assms(1)]
        bind_act_step [where m = "migrate_if_changed env (TORRENT_LOCATION @ t)", OF migrate_unchanged [OF assms(4)]]
        bind_act_step [where m = "with_status (\<lambda>ts. (already_downloaded (int i) ts, ts))", OF looked_up] g prio item)
      (use li in \<open>auto simp: torfile_of_def\<close>)
qed

text \<open>The status after the first download, before its file is marked.\<close>

definition started :: "daemon_env \<Rightarrow> string \<Rightarrow> torrent_info \<Rightarrow> torrentStatus \<Rightarrow> torrentStatus" where
  "started env t ti ts =
     (if \<not> ts_empty ts then ts
      else \<lparr>ts_empty = False, ts_fileName = t, ts_filePath = TORRENT_LOCATION @ t,
            ts_timestamp = (case env_lstat env (TORRENT_LOCATION @ t) of None \<Rightarrow> ts_timestamp ts | Some m \<Rightarrow> m),
            ts_totalFiles = int (length (m_files (ti_files ti))),
            ts_fileStatus = replicate (length (m_files (ti_files ti))) False, ts_torrent_details = Some ti\<rparr>)"

lemma fill_status_started:
  assumes "file_request t f" "torrent_on_disk env t ti" "length (m_files (ti_files ti)) < 2 ^ 31"
  shows "fill_status env t ts = (Inr (), started env t ti ts)"
proof -
  have "torrent_num_files ti = int (length (m_files (ti_files ti)))" using assms(3) by (rule torrent_num_files_length)
  then show ?thesis
    using request_c_str [OF assms(1)] torrent_on_disk_info [OF assms(2)]
    by (simp add: fill_status_def isEmpty_def status_init_def setEmpty_def started_def split: option.split)
qed

lemma download_file_done:
  assumes "file_request t f" "torrent_on_disk env t ti" "length (m_files (ti_files ti)) < 2 ^ 31"
    and "env_add env (TORRENT_LOCATION @ t) prio = Inr ()" "env_status env (TORRENT_LOCATION @ t) prio k = Finished"
    and "i < length (ts_fileStatus (started env t ti (d_status d)))"
  shows "download_file env path t (int i) prio mtime d =
    (Inr (), d\<lparr>d_status := (started env t ti (d_status d))
                   \<lparr>ts_fileStatus := (ts_fileStatus (started env t ti (d_status d)))[i := True]\<rparr>,
               d_events := d_events d @ [Download (TORRENT_LOCATION @ t) prio, Utime (DISK_LOCATION @ path) mtime]\<rparr>)"
proof -
  have fill: "with_status (fill_status env t) e = (Inr (), e\<lparr>d_status := started env t ti (d_status e)\<rparr>)" for e
    by (simp add: with_status_eq fill_status_started [OF assms(1-3)])
  have mark: "with_status (mark_downloaded (int i)) e =
      (Inr (), e\<lparr>d_status := (d_status e)\<lparr>ts_fileStatus := (ts_fileStatus (d_status e))[i := True]\<rparr>\<rparr>)"
    if "i < length (ts_fileStatus (d_status e))" for e
    using that by (simp add: with_status_eq mark_downloaded_def write_at_def)
  have wait: "wait_finished (env_status env (TORRENT_LOCATION @ t) prio) = Inr ()"
    using assms(5) by (auto simp: wait_finished_iff)
  show ?thesis
    using request_c_str [OF assms(1)] torrent_on_disk_info [OF assms(2)] assms(4,6)
    by (simp add: download_file_def wait bind_act_def [where m = "with_status _"] fill mark emit_def)
qed

text \<open>
  A file is delivered on its first request. Let the torrent file be readable and accepted, and let
  the requested file be in it and not be a link. If the session takes the torrent and its state
  is \<open>finished\<close> at some poll, then \<open>getTorrent\<close> returns, having asked for exactly
  this file of the torrent and then set its modification time to the one in the torrent, with the
  file marked as downloaded and everything else in the status as it was.
\<close>

lemma getTorrent_downloads:
  assumes "file_request t f" "torrent_on_disk env t ti" "first_file ti (t @ ''/'' @ f) i"
    and "\<not> fe_symlink_attribute (m_files (ti_files ti) ! i)" "length (m_files (ti_files ti)) < 2 ^ 31"
    and "unchanged env t (d_status d)" "ts_fileStatus (started env t ti (d_status d)) ! i = False"
    and "i < length (ts_fileStatus (started env t ti (d_status d)))"
    and "env_add env (TORRENT_LOCATION @ t) (priorities ti i) = Inr ()"
    and "env_status env (TORRENT_LOCATION @ t) (priorities ti i) k = Finished"
  shows "getTorrent (Suc n) env (t @ ''/'' @ f) d =
    (Inr (), d\<lparr>d_status := (started env t ti (d_status d))
                   \<lparr>ts_fileStatus := (ts_fileStatus (started env t ti (d_status d)))[i := True]\<rparr>,
               d_events := d_events d @
                 [Download (TORRENT_LOCATION @ t) (priorities ti i),
                  Utime (DISK_LOCATION @ t @ ''/'' @ f) (fe_mtime (m_files (ti_files ti) ! i))]\<rparr>)"
proof -
  have "already_downloaded (int i) (d_status d) = Inr False"
    using assms(7,8) by (auto simp: already_downloaded_def isEmpty_def started_def read_at_def split: if_splits)
  from getTorrent_body_found [OF assms(1-3,6) this]
    download_file_done [OF assms(1,2,5,9,10,8)] assms(4)
  show ?thesis by (simp add: caught_def)
qed

text \<open>
  A file is downloaded once. If the file is marked and the torrent file has not changed, a
  request for it returns at once and changes nothing.
\<close>

lemma getTorrent_cached:
  assumes "file_request t f" "torrent_on_disk env t ti" "first_file ti (t @ ''/'' @ f) i"
    and "unchanged env t (d_status d)" "\<not> ts_empty (d_status d)"
    and "i < length (ts_fileStatus (d_status d))" "ts_fileStatus (d_status d) ! i"
  shows "getTorrent (Suc n) env (t @ ''/'' @ f) d = (Inr (), d)"
proof -
  have "already_downloaded (int i) (d_status d) = Inr True"
    using assms(5-7) by (simp add: already_downloaded_def isEmpty_def read_at_def)
  from getTorrent_body_found [OF assms(1-4) this] show ?thesis by (simp add: caught_def)
qed

text \<open>
  C33: The daemon only leaves the poll loop in the state \<open>finished\<close>. If no poll sees this state, as
  for a torrent that is complete with the file and goes on to \<open>seeding\<close>, the call does not return,
  and no other request is served.
\<close>

theorem getTorrent_never_finished:
  assumes "file_request t f" "torrent_on_disk env t ti" "first_file ti (t @ ''/'' @ f) i"
    and "\<not> fe_symlink_attribute (m_files (ti_files ti) ! i)" "length (m_files (ti_files ti)) < 2 ^ 31"
    and "unchanged env t (d_status d)" "ts_empty (d_status d)"
    and "env_add env (TORRENT_LOCATION @ t) (priorities ti i) = Inr ()"
    and "\<forall>k. env_status env (TORRENT_LOCATION @ t) (priorities ti i) k \<noteq> Finished"
  shows "fst (getTorrent n env (t @ ''/'' @ f) d) = Inl Diverges"
proof (cases n)
  case (Suc m)
  have "already_downloaded (int i) (d_status d) = Inr False"
    using assms(7) by (simp add: already_downloaded_def isEmpty_def)
  from getTorrent_body_found [OF assms(1-3,6) this] assms(4)
  have body: "getTorrent_body self env (t @ ''/'' @ f) d =
      download_file env (t @ ''/'' @ f) t (int i) (priorities ti i) (fe_mtime (m_files (ti_files ti) ! i)) d" for self by simp
  have "wait_finished (env_status env (TORRENT_LOCATION @ t) (priorities ti i)) = Inl Diverges"
    using assms(9) by (auto simp: wait_finished_iff)
  then have "fst (download_file env path t (int i) (priorities ti i) mtime d) = Inl Diverges" for path mtime
    using request_c_str [OF assms(1)] torrent_on_disk_info [OF assms(2)] assms(8)
    by (simp add: download_file_def bind_act_def [where m = "with_status _"] with_status_eq fill_status_started [OF assms(1,2,5)])
  then have "fst (getTorrent_body self env (t @ ''/'' @ f) d) = Inl Diverges" for self by (simp only: body)
  then show ?thesis unfolding Suc getTorrent.simps by (rule caught_fault) simp
qed simp

lemma getTorrent_unknown:
  assumes "file_request t f" "torrent_on_disk env t ti" "t @ ''/'' @ f \<notin> fe_path ` set (m_files (ti_files ti))"
    and "unchanged env t (d_status d)"
  shows "getTorrent (Suc n) env (t @ ''/'' @ f) d = (Inl Out_of_bounds, d)"
proof -
  obtain list where list: "gettor env 2 t = Inr list"
    using gettor_files_listed [of ti] torrent_on_disk_gettor [OF assms(2)] by metis
  have look: "with_status (\<lambda>ts. (already_downloaded (- 1) ts, ts)) d =
      (if ts_empty (d_status d) then Inr False else Inl Out_of_bounds, d)"
    unfolding downloaded_eq by (simp add: already_downloaded_def isEmpty_def read_at_def)
  have "getTorrent_body self env (t @ ''/'' @ f) d = (Inl Out_of_bounds, d)" for self
    unfolding getTorrent_body_def Let_def request_split(1) [OF assms(1)]
    by (simp add: request_split [OF assms(1), simplified] check_miss [OF assms(1-3)] request_c_str [OF assms(1)]
        bind_act_step [where m = "migrate_if_changed env (TORRENT_LOCATION @ t)", OF migrate_unchanged [OF assms(4)]])
      (simp add: bind_act_def [where m = "with_status _"] look list write_at_def request_c_str [OF assms(1)])
  then show ?thesis by (simp add: caught_def)
qed

subsection \<open>Links\<close>

text \<open>A string without \<open>../\<close>.\<close>

definition no_parent :: "string \<Rightarrow> bool" where
  "no_parent s \<longleftrightarrow> find_substring ''../'' s = None"

lemma find_parent:
  assumes "no_parent (a @ ''/'')"
  shows "str_find ''../'' (a @ ''/'' @ ''../'' @ x) = int (length a) + 1"
proof -
  have "drop (length (a @ ''/'') - k) (a @ ''/'') \<noteq> take k ''../''" if "k < 3" "0 < k" "k \<le> length (a @ ''/'')" for k
  proof
    assume eq: "drop (length (a @ ''/'') - k) (a @ ''/'') = take k ''../''"
    have "last (drop (length (a @ ''/'') - k) (a @ ''/'')) = CHR ''/''" using that by simp
    moreover have "k = 1 \<or> k = 2" using that by auto
    then have "last (take k ''../'') = CHR ''.''" by auto
    ultimately show False using eq by simp
  qed
  then have "find_substring ''../'' ((a @ ''/'') @ ''../'' @ x) = Some (length (a @ ''/''))"
    using assms by (intro find_substring_append) (auto simp: no_parent_def)
  then show ?thesis by (simp add: str_find_def)
qed

lemma no_parent_find: "no_parent s \<Longrightarrow> str_find ''../'' s = - 1"
  by (simp add: no_parent_def str_find_def)

text \<open>One round of the loop removes the directory of the link and the step to its parent.\<close>

lemma symlink_step_parent:
  assumes "CHR ''/'' \<notin> set d" "CHR ''/'' \<notin> set l"
    and "s = a @ ''/'' @ d @ ''/'' @ l @ ''/'' @ ''../'' @ x" "length s < 2 ^ 31"
  shows "symlink_step (s, int (length a + length d + length l) + 3, b) =
    (a @ ''/'' @ x, str_find ''../'' (a @ ''/'' @ x), False)"
proof -
  let ?i = "int (length a + length d + length l) + 3"
  have "str_rfind (CHR ''/'') s (?i - 2) = int (length (a @ ''/'' @ d))"
    using assms by (intro str_rfind_hit [where b = l and r = "''/../'' @ x"]) auto
  moreover have "str_rfind (CHR ''/'') s (int (length (a @ ''/'' @ d)) - 1) = int (length a)"
    using assms by (intro str_rfind_hit [where b = d and r = "''/'' @ l @ ''/../'' @ x"]) auto
  moreover have "take (nat (int (length a) + 1)) s = a @ ''/''" by (simp add: assms(3) nat_add_distrib)
  moreover have "drop (nat (?i + 3)) s = x"
  proof -
    have "nat (?i + 3) = length (a @ ''/'' @ d @ ''/'' @ l @ ''/'' @ ''../'')" by simp
    moreover have "s = (a @ ''/'' @ d @ ''/'' @ l @ ''/'' @ ''../'') @ x" using assms(3) by simp
    ultimately show ?thesis by (metis append_eq_conv_conj)
  qed
  ultimately show ?thesis by (simp add: symlink_step_def Let_def)
qed

text \<open>
  A link \<open>a/d/l\<close> to \<open>../x\<close> is resolved to \<open>a/x\<close>: the loop ends, with the path that the file system
  would give, provided that no \<open>../\<close> is left.
\<close>

lemma resolved_parent:
  assumes "CHR ''/'' \<notin> set d" "CHR ''/'' \<notin> set l" "no_parent (a @ ''/'' @ d @ ''/'' @ l @ ''/'')"
    and "no_parent (a @ ''/'' @ x)" "length (a @ ''/'' @ d @ ''/'' @ l @ ''/'' @ ''../'' @ x) < 2 ^ 31"
  shows "resolve_symlink ((a @ ''/'' @ d @ ''/'' @ l) @ ''/'' @ ''../'' @ x) = Some (a @ ''/'' @ x)"
proof -
  let ?s = "a @ ''/'' @ d @ ''/'' @ l @ ''/'' @ ''../'' @ x"
  have start: "str_find ''../'' ?s = int (length a + length d + length l) + 3"
    using find_parent [of "a @ ''/'' @ d @ ''/'' @ l" x] assms(3) by simp
  have "symlink_step (?s, int (length a + length d + length l) + 3, False) = (a @ ''/'' @ x, - 1, False)"
    using symlink_step_parent [OF assms(1,2) refl assms(5)] no_parent_find [OF assms(4)] by simp
  then show ?thesis
    using start by (simp add: resolve_symlink_def while_option_unfold [of _ _ "(_ @ _, _, _)"])
qed

text \<open>The path \<open>t/../x\<close> is left as it is by a round of the loop, because the search that fails starts again at the end.\<close>

lemma symlink_step_stuck:
  assumes "t \<noteq> []" "CHR ''/'' \<notin> set t" "CHR ''/'' \<notin> set x" "length t + length x < 2 ^ 30"
    and "no_parent (t @ ''/'')"
  shows "symlink_step (t @ ''/'' @ ''../'' @ x, int (length t) + 1, False) = (t @ ''/'' @ ''../'' @ x, int (length t) + 1, False)"
proof -
  let ?s = "t @ ''/'' @ ''../'' @ x"
  have "str_rfind (CHR ''/'') ?s (int (length t) + 1 - 2) = - 1"
    using assms(1,2,4) by (intro str_rfind_miss [where a = t]) (auto simp: Suc_le_eq)
  moreover have "str_rfind (CHR ''/'') ?s (- 1 - 1) = int (length t + 3)"
  proof -
    have big: "size_t (- 2) = 2 ^ 64 - 2" by code_simp
    then have "take (nat (min (int (length ?s)) (size_t (- 2) + 1))) ?s = ?s" using assms(4) by simp
    moreover have "dropWhile (\<lambda>d. d \<noteq> CHR ''/'') (rev ?s) = CHR ''/'' # rev (t @ ''/..'')"
      using assms(3) by (auto simp: dropWhile_append)
    ultimately show ?thesis by (simp add: str_rfind_def Let_def)
  qed
  moreover have "take (nat (int (length t + 3) + 1)) ?s = t @ ''/../''" "drop (nat (int (length t) + 1 + 3)) ?s = x"
    by (simp_all add: nat_add_distrib)
  moreover have "str_find ''../'' ?s = int (length t) + 1" using find_parent [OF assms(5)] by simp
  ultimately show ?thesis by (simp add: symlink_step_def Let_def)
qed

lemma resolve_symlink_diverges:
  assumes "t \<noteq> []" "CHR ''/'' \<notin> set t" "CHR ''/'' \<notin> set d" "CHR ''/'' \<notin> set l" "CHR ''/'' \<notin> set x"
    and "no_parent (t @ ''/'')" "no_parent (t @ ''/'' @ d @ ''/'' @ l @ ''/'')"
    and "length t + length d + length l + length x < 2 ^ 30"
  shows "resolve_symlink ((t @ ''/'' @ d @ ''/'' @ l) @ ''/'' @ ''../../'' @ x) = None"
proof -
  let ?s = "t @ ''/'' @ d @ ''/'' @ l @ ''/'' @ ''../'' @ ''../'' @ x"
  let ?b = "\<lambda>(_ :: string, index_sym, broken). index_sym \<noteq> - 1 \<and> \<not> broken"
  let ?u = "(t @ ''/'' @ ''../'' @ x, int (length t) + 1, False)"
  have start: "str_find ''../'' ?s = int (length t + length d + length l) + 3"
    using find_parent [of "t @ ''/'' @ d @ ''/'' @ l" "''../'' @ x"] assms(7) by simp
  have "str_find ''../'' (t @ ''/'' @ ''../'' @ x) = int (length t) + 1" using find_parent [OF assms(6)] by simp
  then have step: "symlink_step (?s, int (length t + length d + length l) + 3, False) = ?u"
    using symlink_step_parent [OF assms(3,4), of ?s t "''../'' @ x" False] assms(8) by simp
  have "while_option ?b symlink_step ?u = None"
    by (rule while_option_diverges [where P = "\<lambda>s. s = ?u"])
      (use symlink_step_stuck [OF assms(1,2,5) _ assms(6)] assms(8) in auto)
  then have "while_option ?b symlink_step (?s, str_find ''../'' ?s, False) = None"
    using step by (simp add: start [simplified] while_option_unfold [of _ _ "(_ @ _ # _ @ _ # _ @ _, _, _)"])
  then show ?thesis by (simp add: resolve_symlink_def)
qed

text \<open>
  C32: A link can hang the daemon. The target \<open>../../x\<close> of a link in a directory of the torrent leads
  to the path \<open>t/../x\<close>, on which the loop makes no progress: the call never returns, whatever the
  bound on the recursion.
\<close>

theorem getTorrent_link_hangs:
  assumes "file_request t (g @ ''/'' @ l)" "torrent_on_disk env t ti" "first_file ti (t @ ''/'' @ g @ ''/'' @ l) i"
    and "fe_symlink_attribute (m_files (ti_files ti) ! i)" "fe_symlink_path (m_files (ti_files ti) ! i) = ''../../'' @ x"
    and "unchanged env t (d_status d)" "ts_empty (d_status d)"
    and "t \<noteq> []" "CHR ''/'' \<notin> set g" "CHR ''/'' \<notin> set l" "CHR ''/'' \<notin> set x"
    and "no_parent (t @ ''/'')" "no_parent (t @ ''/'' @ g @ ''/'' @ l @ ''/'')"
    and "length t + length g + length l + length x < 2 ^ 30"
  shows "getTorrent n env (t @ ''/'' @ g @ ''/'' @ l) d = (Inl Diverges, d)"
proof (cases n)
  case (Suc m)
  have al: "already_downloaded (int i) (d_status d) = Inr False"
    using assms(7) by (simp add: already_downloaded_def isEmpty_def)
  have "resolve_symlink ((t @ ''/'' @ g @ ''/'' @ l) @ ''/'' @ ''../../'' @ x) = None"
    using assms by (intro resolve_symlink_diverges) (auto simp: file_request_def)
  then have "getTorrent_body self env (t @ ''/'' @ g @ ''/'' @ l) d = (Inl Diverges, d)" for self
    using getTorrent_body_found [OF assms(1-3,6) al] assms(4,5) by (simp add: bind_act_fault)
  then show ?thesis by (simp add: Suc caught_def)
qed simp

text \<open>
  A link to a file in its own directory is not found: the target \<open>x\<close> of the link \<open>t/f\<close> is
  looked up as \<open>t/f/x\<close>. If the torrent has no such file, the index -1 is used as a position in an array.
\<close>

theorem getTorrent_sibling_link:
  assumes "file_request t f" "torrent_on_disk env t ti" "first_file ti (t @ ''/'' @ f) i"
    and "fe_symlink_attribute (m_files (ti_files ti) ! i)" "fe_symlink_path (m_files (ti_files ti) ! i) = x"
    and "unchanged env t (d_status d)" "ts_empty (d_status d)"
    and "no_parent (t @ ''/'' @ f @ ''/'' @ x)" "CHR 0x00 \<notin> set (f @ x)" "length (t @ ''/'' @ f @ ''/'' @ x) < 2 ^ 31"
    and "t @ ''/'' @ f @ ''/'' @ x \<notin> fe_path ` set (m_files (ti_files ti))"
  shows "getTorrent (Suc (Suc n)) env (t @ ''/'' @ f) d = (Inl Out_of_bounds, d)"
proof -
  have al: "already_downloaded (int i) (d_status d) = Inr False"
    using assms(7) by (simp add: already_downloaded_def isEmpty_def)
  have "resolve_symlink ((t @ ''/'' @ f) @ ''/'' @ x) = Some (t @ ''/'' @ f @ ''/'' @ x)"
    using no_parent_find [OF assms(8)] by (simp add: resolve_symlink_def while_option_unfold)
  moreover have req: "file_request t (f @ ''/'' @ x)" using assms(1,10) by (simp add: file_request_def)
  then have "c_str (t @ ''/'' @ f @ ''/'' @ x) = t @ ''/'' @ f @ ''/'' @ x"
    using assms(9) by (intro c_str_id) (auto simp: file_request_def)
  moreover have "getTorrent (Suc n) env (t @ ''/'' @ f @ ''/'' @ x) d = (Inl Out_of_bounds, d)"
    using getTorrent_unknown [OF req assms(2,11,6)] .
  ultimately have "getTorrent_body (getTorrent (Suc n) env) env (t @ ''/'' @ f) d = (Inl Out_of_bounds, d)"
    using getTorrent_body_found [OF assms(1-3,6) al] assms(4,5) by (simp add: bind_act_fault del: getTorrent.simps)
  then show ?thesis by (simp only: getTorrent.simps caught_def) simp
qed

text \<open>
  C9: A link to a file in the parent directory is followed. A request for the link \<open>t/g/l\<close> with target \<open>../x\<close>
  downloads the file \<open>t/x\<close> first and then the link, and both are marked.
\<close>

theorem getTorrent_follows_link:
  assumes "file_request t (g @ ''/'' @ l)" "torrent_on_disk env t ti" "length (m_files (ti_files ti)) < 2 ^ 31"
    and "first_file ti (t @ ''/'' @ g @ ''/'' @ l) i" "first_file ti (t @ ''/'' @ x) j"
    and "fe_symlink_attribute (m_files (ti_files ti) ! i)" "fe_symlink_path (m_files (ti_files ti) ! i) = ''../'' @ x"
    and "\<not> fe_symlink_attribute (m_files (ti_files ti) ! j)"
    and "CHR ''/'' \<notin> set g" "CHR ''/'' \<notin> set l" "no_parent (t @ ''/'' @ g @ ''/'' @ l @ ''/'')" "no_parent (t @ ''/'' @ x)"
    and "CHR 0x00 \<notin> set x" "length (t @ ''/'' @ g @ ''/'' @ l @ ''/'' @ ''../'' @ x) < 2 ^ 31"
    and "ts_empty (d_status d)"
    and "\<And>k. k \<in> {i, j} \<Longrightarrow> env_add env (TORRENT_LOCATION @ t) (priorities ti k) = Inr () \<and>
      (\<exists>p. env_status env (TORRENT_LOCATION @ t) (priorities ti k) p = Finished)"
  shows "getTorrent (Suc (Suc n)) env (t @ ''/'' @ g @ ''/'' @ l) d =
    (Inr (), d\<lparr>d_status := (started env t ti (d_status d))
                   \<lparr>ts_fileStatus := (replicate (length (m_files (ti_files ti))) False)[j := True, i := True]\<rparr>,
               d_events := d_events d @
                 [Download (TORRENT_LOCATION @ t) (priorities ti j),
                  Utime (DISK_LOCATION @ t @ ''/'' @ x) (fe_mtime (m_files (ti_files ti) ! j)),
                  Download (TORRENT_LOCATION @ t) (priorities ti i),
                  Utime (DISK_LOCATION @ t @ ''/'' @ g @ ''/'' @ l) (fe_mtime (m_files (ti_files ti) ! i))]\<rparr>)"
proof -
  let ?ts = "started env t ti (d_status d)"
  have ts: "ts_fileStatus ?ts = replicate (length (m_files (ti_files ti))) False" "\<not> ts_empty ?ts"
    using assms(15) by (simp_all add: started_def)
  have ij: "i < length (m_files (ti_files ti))" "j < length (m_files (ti_files ti))" using assms(4,5) by (simp_all add: first_file_def)
  have un: "unchanged env t (d_status d)" using assms(15) by (simp add: unchanged_def)
  have req: "file_request t x" using assms(1,14) by (simp add: file_request_def)
  define d1 where "d1 = d\<lparr>d_status := ?ts\<lparr>ts_fileStatus := (ts_fileStatus ?ts)[j := True]\<rparr>,
      d_events := d_events d @ [Download (TORRENT_LOCATION @ t) (priorities ti j),
        Utime (DISK_LOCATION @ t @ ''/'' @ x) (fe_mtime (m_files (ti_files ti) ! j))]\<rparr>"
  have st1: "started env t ti (d_status d1) = d_status d1" "length (ts_fileStatus (d_status d1)) = length (m_files (ti_files ti))"
    using ts by (simp_all add: d1_def started_def)
  from assms(16) obtain pj pi where
    add: "env_add env (TORRENT_LOCATION @ t) (priorities ti j) = Inr ()" "env_add env (TORRENT_LOCATION @ t) (priorities ti i) = Inr ()"
    and fin: "env_status env (TORRENT_LOCATION @ t) (priorities ti j) pj = Finished"
      "env_status env (TORRENT_LOCATION @ t) (priorities ti i) pi = Finished" by blast
  have al: "already_downloaded (int j) (d_status d) = Inr False" "already_downloaded (int i) (d_status d) = Inr False"
    using assms(15) by (simp_all add: already_downloaded_def isEmpty_def)
  have "download_file env (t @ ''/'' @ x) t (int j) (priorities ti j) (fe_mtime (m_files (ti_files ti) ! j)) d = (Inr (), d1)"
    unfolding d1_def using ij ts by (intro download_file_done [OF req assms(2,3) add(1) fin(1)]) simp
  then have "getTorrent (Suc n) env (t @ ''/'' @ x) d = (Inr (), d1)"
    using getTorrent_body_found [OF req assms(2,5) un al(1)] assms(8) by (simp add: caught_def)
  moreover have "download_file env (t @ ''/'' @ g @ ''/'' @ l) t (int i) (priorities ti i) (fe_mtime (m_files (ti_files ti) ! i)) d1 =
      (Inr (), d1\<lparr>d_status := (d_status d1)\<lparr>ts_fileStatus := (ts_fileStatus (d_status d1))[i := True]\<rparr>,
         d_events := d_events d1 @ [Download (TORRENT_LOCATION @ t) (priorities ti i),
           Utime (DISK_LOCATION @ t @ ''/'' @ g @ ''/'' @ l) (fe_mtime (m_files (ti_files ti) ! i))]\<rparr>)"
    using download_file_done [OF assms(1-3) add(2) fin(2), where d = d1] st1 ij by simp
  moreover have "resolve_symlink ((t @ ''/'' @ g @ ''/'' @ l) @ ''/'' @ ''../'' @ x) = Some (t @ ''/'' @ x)"
    by (rule resolved_parent [OF assms(9-12,14)])
  moreover have "c_str (t @ ''/'' @ x) = t @ ''/'' @ x"
    using assms(13) req by (intro c_str_id) (auto simp: file_request_def)
  ultimately have "getTorrent_body (getTorrent (Suc n) env) env (t @ ''/'' @ g @ ''/'' @ l) d =
      (Inr (), d1\<lparr>d_status := (d_status d1)\<lparr>ts_fileStatus := (ts_fileStatus (d_status d1))[i := True]\<rparr>,
         d_events := d_events d1 @ [Download (TORRENT_LOCATION @ t) (priorities ti i),
           Utime (DISK_LOCATION @ t @ ''/'' @ g @ ''/'' @ l) (fe_mtime (m_files (ti_files ti) ! i))]\<rparr>)"
    using getTorrent_body_found [OF assms(1,2,4) un al(2)] assms(6,7)
    by (simp add: bind_act_step del: getTorrent.simps)
  then show ?thesis
    using ts(1) by (simp only: getTorrent.simps caught_def) (simp add: d1_def)
qed

subsection \<open>A second torrent\<close>

lemma getTorrent_body_migrates:
  assumes "file_request t f" "torrent_on_disk env t ti" "first_file ti (t @ ''/'' @ f) i"
    and "\<not> ts_empty (d_status d)" "env_stat env (TORRENT_LOCATION @ t) = Some m" "m \<noteq> ts_timestamp (d_status d)"
    and "snapshotMigration env (TORRENT_LOCATION @ t) (d_status d) = (Inl e, ts)"
  shows "getTorrent_body self env (t @ ''/'' @ f) d = (Inl e, d\<lparr>d_status := ts\<rparr>)"
proof -
  have "migrate_if_changed env (TORRENT_LOCATION @ t) d = (Inl e, d\<lparr>d_status := ts\<rparr>)"
    using assms(4-7) by (simp add: migrate_if_changed_def with_status_eq isEmpty_def isTorrentValid_def)
  then show ?thesis
    unfolding getTorrent_body_def Let_def request_split(1) [OF assms(1)]
    by (simp add: request_split [OF assms(1), simplified] check_hit [OF assms(1-3)] request_c_str [OF assms(1)]
        bind_act_fault [where m = "migrate_if_changed env (TORRENT_LOCATION @ t)"])
qed

text \<open>
  The daemon serves one torrent. It keeps one status for all torrents; once it holds torrent \<open>s\<close>, a
  request for a file of another torrent \<open>t\<close> is never served by a download: if the two torrent files have
  the same modification time and the file of \<open>s\<close> with the same index is marked, the call returns
  as if the file were there, and if the times differ, the migration accesses an array out of its bounds.
\<close>

theorem getTorrent_second_torrent:
  assumes "file_request t f" "torrent_on_disk env t ti" "first_file ti (t @ ''/'' @ f) i"
    and "\<not> ts_empty (d_status d)" "ts_fileName (d_status d) = s" "s \<noteq> t"
    and "ts_torrent_details (d_status d) = Some old" "length (ts_fileStatus (d_status d)) = length (m_files (ti_files old))"
    and "i < length (ts_fileStatus (d_status d))" "ts_fileStatus (d_status d) ! i"
    and "env_stat env (TORRENT_LOCATION @ t) = Some m"
  shows "fst (getTorrent (Suc n) env (t @ ''/'' @ f) d) =
      (if m = ts_timestamp (d_status d) then Inr () else Inl Out_of_bounds) \<and>
    d_events (snd (getTorrent (Suc n) env (t @ ''/'' @ f) d)) = d_events d"
proof (cases "m = ts_timestamp (d_status d)")
  case True
  then have "unchanged env t (d_status d)" using assms(11) by (simp add: unchanged_def)
  moreover have "already_downloaded (int i) (d_status d) = Inr True"
    using assms(4,9,10) by (simp add: already_downloaded_def isEmpty_def read_at_def)
  ultimately show ?thesis
    using True getTorrent_body_found [OF assms(1-3)] by (simp add: caught_def)
next
  case False
  obtain e ts where mig: "snapshotMigration env (TORRENT_LOCATION @ t) (d_status d) = (e, ts)" by (metis surj_pair)
  moreover have "migrate_files (m_files (ti_files old)) new (ts_fileStatus (d_status d)) 1 ns = Inl Out_of_bounds" for new ns
    using assms(8,9) by (intro migrate_files_out_of_bounds) auto
  then have "e = Inl Out_of_bounds"
    using mig assms(7) torrent_on_disk_info [OF assms(2)]
    by (auto simp: snapshotMigration_def Let_def split: option.splits)
  ultimately have "getTorrent_body self env (t @ ''/'' @ f) d = (Inl Out_of_bounds, d\<lparr>d_status := ts\<rparr>)" for self
    by (intro getTorrent_body_migrates [OF assms(1-4,11) False]) simp
  then show ?thesis using False by (simp add: caught_def)
qed

end
