(* ===== verification/TorrentIndex.thy ===== *)
theory TorrentIndex
  imports Daemon
begin

section \<open>The index page of a directory (\<open>im1/imdaemon/torrentIndex.cpp\<close>, \<open>torrentIndex.h\<close>)\<close>

text \<open>
  The class that lists the files of a torrent below a path as an HTML page. The page is built in
  the string \<open>indexstr\<close>; the buffers for the time and the size of a file have fixed lengths.
\<close>

subsection \<open>Calendar time\<close>

text \<open>
  \<open>gmtime\<close> and \<open>strftime\<close> with the format \<open>%d-%b-%Y %H:%M\<close> in the C locale. The date is
  computed in the proleptic Gregorian calendar from the number of days since 1 January 1970, by way of
  years that begin in March. \<open>gmtime\<close> returns a null pointer if the year does not fit in an \<open>int\<close>.
\<close>

record tm =
  tm_min :: int
  tm_hour :: int
  tm_mday :: int
  tm_mon :: int
  tm_year :: int

definition civil :: "int \<Rightarrow> int \<times> int \<times> int" where
  "civil days =
     (let z = days + 719468;
          era = z div 146097;
          doe = z mod 146097;
          yoe = (doe - doe div 1460 + doe div 36524 - doe div 146096) div 365;
          doy = doe - (365 * yoe + yoe div 4 - yoe div 100);
          mp = (5 * doy + 2) div 153;
          d = doy - (153 * mp + 2) div 5 + 1;
          m = (if mp < 10 then mp + 2 else mp - 10)
      in (yoe + era * 400 + (if m < 2 then 1 else 0), m, d))"

definition gmtime :: "int \<Rightarrow> tm option" where
  "gmtime t =
     (let (y, m, d) = civil (t div 86400); s = t mod 86400 in
      if in_int32 (y - 1900) then
        Some \<lparr>tm_min = s div 60 mod 60, tm_hour = s div 3600, tm_mday = d, tm_mon = m, tm_year = y - 1900\<rparr>
      else None)"

definition two_digits :: "int \<Rightarrow> string" where
  "two_digits n = [digit_char (nat n div 10), digit_char (nat n mod 10)]"

definition month_names :: "string list" where
  "month_names = [''Jan'', ''Feb'', ''Mar'', ''Apr'', ''May'', ''Jun'', ''Jul'', ''Aug'', ''Sep'', ''Oct'', ''Nov'', ''Dec'']"

definition index_time :: "tm \<Rightarrow> string" where
  "index_time ts =
     two_digits (tm_mday ts) @ ''-'' @ month_names ! nat (tm_mon ts) @ ''-'' @ int_string (tm_year ts + 1900) @ '' '' @
     two_digits (tm_hour ts) @ '':'' @ two_digits (tm_min ts)"

text \<open>
  The two buffers of \<open>addToList\<close>. \<open>strftime\<close> leaves the contents of \<open>time_buf\<close> undefined (\<open>None\<close>)
  if the text and its terminator need more than 18 bytes; \<open>sprintf\<close> writes behind the 10 bytes of \<open>size_buf\<close>.
  The conversion \<open>%i\<close> prints the lower 32 bits of the \<open>long\<close> that is passed.
\<close>

definition time_buf :: "int \<Rightarrow> string option result" where
  "time_buf mtime =
     (case gmtime mtime of
        None \<Rightarrow> Inl Null_pointer
      | Some ts \<Rightarrow> Inr (if length (index_time ts) + 1 \<le> 18 then Some (index_time ts) else None))"

definition size_buf :: "int \<Rightarrow> string result" where
  "size_buf sz =
     (let s = int_string (int32 sz) in if length s + 1 \<le> 10 then Inr s else Inl Out_of_bounds)"

subsection \<open>The page\<close>

datatype index_type = T_DIRECTORY | T_FILE

record torrentIndex =
  ix_torrentPath :: string
  ix_indexstr :: string
  ix_fileList :: "torfile_list list"
  ix_torrentName :: string
  ix_torrentFilePath :: string
  ix_fileNumber :: int

definition new_torrentIndex :: "string \<Rightarrow> torrentIndex result" where
  "new_torrentIndex str =
     (if str = [] then Inl (Thrown ''out_of_range'')
      else
        Inr \<lparr>ix_torrentPath = (if last str \<noteq> CHR ''/'' then str @ ''/'' else str), ix_indexstr = [], ix_fileList = [],
             ix_torrentName = [], ix_torrentFilePath = [], ix_fileNumber = 0\<rparr>)"

definition append_html :: "string \<Rightarrow> torrentIndex \<Rightarrow> torrentIndex" where
  "append_html s ix = ix\<lparr>ix_indexstr := ix_indexstr ix @ s\<rparr>"

definition addTitleAndHtml :: "torrentIndex \<Rightarrow> torrentIndex result" where
  "addTitleAndHtml ix =
     bind_result (substr (ix_torrentPath ix) 0 (str_find ''.'' (ix_torrentPath ix))) (\<lambda>p.
       let tmp = ''Index for '' @ p in
       Inr (append_html (''<html> '' @ [CHR 0x0A] @ '' <head> '' @ [CHR 0x0A] @ '' <title>'' @ tmp @
         ''</title> '' @ [CHR 0x0A] @ '' <body> '' @ [CHR 0x0A] @ ''<h1>'' @ tmp @ ''</h1>'') ix))"

definition addHeader :: "torrentIndex \<Rightarrow> torrentIndex" where
  \<open>addHeader ix = append_html (''<table><tr><th><img src="/icons/blank.gif" alt="[ICO]"width="20" height="22"></th>'' @
     ''<th>Name</th><th>Last modified</th><th>Size</th></tr><tr><th colspan="4"><hr></th></tr>'') ix\<close>

definition index_init :: "torrentIndex \<Rightarrow> torrentIndex result" where
  "index_init ix =
     (let index = str_find ''/'' (ix_torrentPath ix) in
      bind_result (substr (ix_torrentPath ix) 0 index) (\<lambda>name.
      bind_result (substr (ix_torrentPath ix) (index + 1) npos) (\<lambda>rest.
      bind_result (addTitleAndHtml (ix\<lparr>ix_torrentName := name, ix_torrentFilePath := rest,
          ix_indexstr := ''<!-- Created by imdaemon --> '' @ [CHR 0x0A]\<rparr>)) (\<lambda>ix1.
        Inr (addHeader ix1)))))"

definition setFileList :: "torfile_list list \<Rightarrow> torrentIndex \<Rightarrow> torrentIndex" where
  "setFileList list ix = ix\<lparr>ix_fileList := list\<rparr>"

definition addToList :: "index_type \<Rightarrow> string \<Rightarrow> string \<Rightarrow> int \<Rightarrow> int \<Rightarrow> torrentIndex \<Rightarrow> torrentIndex result" where
  \<open>addToList fileType baseurl tmp mtime sz ix =
     bind_result (time_buf mtime) (\<lambda>time_text.
     bind_result (size_buf sz) (\<lambda>size_text.
       case fileType of
         T_DIRECTORY \<Rightarrow>
           Inr (append_html (''<tr><td valign="top"><img src="/icons/bc_folder.png" alt="[DIR]" width="20"height="22"></td>'' @
             ''<td><a href="/'' @ baseurl @ tmp @ ''">'' @ tmp @ ''</a></td><td align="right">  - </td>'' @
             ''<td align="right">  - </td><td>&nbsp;</td></tr>'' @ [CHR 0x0A]) ix)
       | T_FILE \<Rightarrow>
           (case time_text of
              None \<Rightarrow> Inl Out_of_bounds
            | Some t \<Rightarrow>
                Inr (append_html (''<tr><td valign="top"><img src="/icons/bc_document.png" alt="[FILE]" width="20"height="22"></td>'' @
                  ''<td><a href="/'' @ baseurl @ tmp @ ''">'' @ tmp @ ''</a></td><td align="right"> '' @ t @
                  '' </td><td align="right"> '' @ size_text @ '' </td><td>&nbsp;</td></tr>'' @ [CHR 0x0A]) ix))))\<close>

definition addFooter :: "torrentIndex \<Rightarrow> torrentIndex" where
  \<open>addFooter ix = append_html (''<tr><th colspan="4"><hr></th></tr> '' @ [CHR 0x0A] @ ''</table>'' @ [CHR 0x0A] @
     ''</body>'' @ [CHR 0x0A] @ ''</html>'' @ [CHR 0x0A]) ix\<close>

text \<open>One round of the loop of \<open>generateIndex\<close>; the second component is \<open>previousFile\<close>.\<close>

definition index_entry :: "torfile_list \<Rightarrow> torrentIndex \<times> string \<Rightarrow> (torrentIndex \<times> string) result" where
  "index_entry l = (\<lambda>(ix, previousFile).
     if str_find (ix_torrentPath ix) (tl_name l) \<noteq> 0 then Inr (ix, previousFile)
     else
       let localstr = drop (length (ix_torrentPath ix)) (tl_name l);
           index_t = str_find ''/'' localstr
       in
         if index_t > 0 then
           let substring = take (nat index_t) localstr in
           if previousFile = substring then Inr (ix, previousFile)
           else bind_result (addToList T_DIRECTORY (ix_torrentPath ix) substring 0 0 ix) (\<lambda>ix1. Inr (ix1, substring))
         else
           bind_result (addToList T_FILE (ix_torrentPath ix) localstr (tl_mtime l) (tl_size l) ix) (\<lambda>ix1.
             Inr (ix1, previousFile)))"

text \<open>The loop starts with the second file, if there are several.\<close>

definition generateIndex :: "torrentIndex \<Rightarrow> torrentIndex result" where
  "generateIndex ix =
     bind_result
       (case ix_fileList ix of
          [] \<Rightarrow> Inr ix
        | [l] \<Rightarrow> addToList T_FILE [] (tl_name l) (tl_mtime l) (tl_size l) ix
        | l # ls \<Rightarrow> bind_result (fold_result index_entry ls (ix, [])) (\<lambda>(ix1, _). Inr ix1))
       (\<lambda>ix1. Inr (addFooter ix1))"

definition saveIndexFile :: "torrentIndex \<Rightarrow> string act" where
  "saveIndexFile ix =
     bind_act (emit (Write_index (c_str (DISK_LOCATION @ ix_torrentPath ix @ ''index.html'')) (ix_indexstr ix))) (\<lambda>_.
       pure (Inr (ix_torrentPath ix @ ''index.html'')))"

lemma index_path [simp]:
  "ix_torrentPath (append_html s ix) = ix_torrentPath ix" "ix_torrentPath (addHeader ix) = ix_torrentPath ix"
  "ix_torrentPath (addFooter ix) = ix_torrentPath ix" "ix_torrentPath (setFileList list ix) = ix_torrentPath ix"
  "ix_fileList (setFileList list ix) = list"
  by (simp_all only: append_html_def addHeader_def addFooter_def setFileList_def) simp_all

subsection \<open>What the page lists\<close>

text \<open>
  The rows of the page as data: a directory, or a file with its time and size. \<open>row_of\<close> is the row that
  a file of the torrent asks for in the index of a path: none if it is not below the path, the first
  directory on the way to it, or the file itself.
\<close>

datatype index_row = Dir_row string | File_row string int int

definition row_of :: "string \<Rightarrow> torfile_list \<Rightarrow> index_row option" where
  "row_of path l =
     (if take (length path) (tl_name l) \<noteq> path then None
      else
        let r = drop (length path) (tl_name l) in
        if CHR ''/'' \<in> set r \<and> hd r \<noteq> CHR ''/'' then Some (Dir_row (takeWhile (\<lambda>c. c \<noteq> CHR ''/'') r))
        else Some (File_row r (tl_mtime l) (tl_size l)))"

fun add_row :: "string \<Rightarrow> index_row \<Rightarrow> torrentIndex \<Rightarrow> torrentIndex result" where
  "add_row base (Dir_row d) ix = addToList T_DIRECTORY base d 0 0 ix"
| "add_row base (File_row f m s) ix = addToList T_FILE base f m s ix"

fun fitting_row :: "index_row \<Rightarrow> bool" where
  "fitting_row (Dir_row d) \<longleftrightarrow> True"
| "fitting_row (File_row f m s) \<longleftrightarrow>
     (case time_buf m of Inr (Some t) \<Rightarrow> True | _ \<Rightarrow> False) \<and> - (10 ^ 8) < int32 s \<and> int32 s < 10 ^ 9"

definition blank_index :: torrentIndex where
  "blank_index = \<lparr>ix_torrentPath = [], ix_indexstr = [], ix_fileList = [], ix_torrentName = [], ix_torrentFilePath = [],
     ix_fileNumber = 0\<rparr>"

definition row_html :: "string \<Rightarrow> index_row \<Rightarrow> string" where
  "row_html base r = (case add_row base r blank_index of Inl _ \<Rightarrow> [] | Inr ix \<Rightarrow> ix_indexstr ix)"

fun index_rows :: "string \<Rightarrow> string \<Rightarrow> torfile_list list \<Rightarrow> index_row list" where
  "index_rows path prev [] = []"
| "index_rows path prev (l # ls) =
     (case row_of path l of
        None \<Rightarrow> index_rows path prev ls
      | Some (Dir_row d) \<Rightarrow> if prev = d then index_rows path prev ls else Dir_row d # index_rows path d ls
      | Some (File_row f m s) \<Rightarrow> File_row f m s # index_rows path prev ls)"

lemma length_decimal_iff: "0 < k \<Longrightarrow> length (decimal n) \<le> k \<longleftrightarrow> n < 10 ^ k"
proof (induction k arbitrary: n)
  case (Suc k)
  show ?case
  proof (cases "n < 10")
    case True
    moreover have "(10 :: nat) \<le> 10 ^ Suc k" by simp
    ultimately show ?thesis using less_le_trans by (fastforce simp: decimal.simps [of n])
  next
    case False
    have ge: "0 < length (decimal (n div 10))" by (simp add: decimal.simps [of "n div 10"])
    have "length (decimal n) = Suc (length (decimal (n div 10)))" using False by (simp add: decimal.simps [of n])
    moreover have "n < 10 ^ Suc k \<longleftrightarrow> n div 10 < 10 ^ k" by (simp add: div_less_iff_less_mult mult.commute)
    ultimately show ?thesis using Suc.IH [of "n div 10"] ge False by (cases k) auto
  qed
qed simp

lemma size_buf_cases:
  "size_buf s = (if - (10 ^ 8) < int32 s \<and> int32 s < 10 ^ 9 then Inr (int_string (int32 s)) else Inl Out_of_bounds)"
proof -
  let ?v = "int32 s"
  have "length (int_string ?v) \<le> 9 \<longleftrightarrow> - (10 ^ 8) < ?v \<and> ?v < 10 ^ 9"
  proof (cases "?v < 0")
    case True
    have "length (decimal (nat (- ?v))) \<le> 8 \<longleftrightarrow> nat (- ?v) < 10 ^ 8" by (rule length_decimal_iff) simp
    also have "\<dots> \<longleftrightarrow> - (10 ^ 8) < ?v" using True by (simp add: nat_less_iff) linarith
    finally show ?thesis using True by (simp add: int_string_def)
  next
    case False
    have "length (decimal (nat ?v)) \<le> 9 \<longleftrightarrow> nat ?v < 10 ^ 9" by (rule length_decimal_iff) simp
    also have "\<dots> \<longleftrightarrow> ?v < 10 ^ 9" using False by (simp add: nat_less_iff)
    finally show ?thesis using False by (simp add: int_string_def)
  qed
  then show ?thesis by (simp add: size_buf_def Let_def)
qed

lemma zero_bufs: "time_buf 0 = Inr (Some ''01-Jan-1970 00:00'')" "size_buf 0 = Inr ''0''"
  by code_simp+

lemma add_row_eq:
  "fitting_row r \<Longrightarrow> add_row base r ix = Inr (append_html (row_html base r) ix)"
  "\<not> fitting_row r \<Longrightarrow> \<exists>f. add_row base r ix = Inl f"
proof -
  show "fitting_row r \<Longrightarrow> add_row base r ix = Inr (append_html (row_html base r) ix)"
    by (cases r) (auto simp: row_html_def addToList_def zero_bufs size_buf_cases int32_id append_html_def blank_index_def
        split: sum.splits option.splits)
  show "\<not> fitting_row r \<Longrightarrow> \<exists>f. add_row base r ix = Inl f"
    by (cases r) (auto simp: addToList_def size_buf_cases bind_result_def split: sum.splits option.splits)
qed

lemma find_substring_0: "find_substring p s = Some 0 \<longleftrightarrow> take (length p) s = p"
  by (cases s) (auto split: if_splits)

lemma str_find_0: "str_find p s = 0 \<longleftrightarrow> take (length p) s = p"
  by (auto simp: str_find_def find_substring_0 [symmetric] split: option.split)

lemma index_entry_row:
  "index_entry l (ix, prev) =
     (case row_of (ix_torrentPath ix) l of
        None \<Rightarrow> Inr (ix, prev)
      | Some (Dir_row d) \<Rightarrow>
          if prev = d then Inr (ix, prev) else bind_result (add_row (ix_torrentPath ix) (Dir_row d) ix) (\<lambda>ix1. Inr (ix1, d))
      | Some (File_row f m s) \<Rightarrow> bind_result (add_row (ix_torrentPath ix) (File_row f m s) ix) (\<lambda>ix1. Inr (ix1, prev)))"
proof -
  have pos: "0 < str_find ''/'' r \<longleftrightarrow> CHR ''/'' \<in> set r \<and> hd r \<noteq> CHR ''/''" for r
    by (cases r) (auto simp: str_find_char)
  have "take (nat (str_find ''/'' r)) r = takeWhile (\<lambda>c. c \<noteq> CHR ''/'') r" if "0 < str_find ''/'' r" for r
    using that takeWhile_eq_take [of "\<lambda>c. c \<noteq> CHR ''/''" r] by (simp add: str_find_char split: if_splits)
  then show ?thesis
    by (simp add: index_entry_def row_of_def str_find_0 Let_def pos)
qed

lemma fold_index_rows:
  assumes "\<forall>r \<in> set (index_rows (ix_torrentPath ix) prev ls). fitting_row r"
  shows "\<exists>prev'. fold_result index_entry ls (ix, prev) =
    Inr (append_html (concat (map (row_html (ix_torrentPath ix)) (index_rows (ix_torrentPath ix) prev ls))) ix, prev')"
  using assms
proof (induction ls arbitrary: ix prev)
  case Nil
  then show ?case by (simp add: append_html_def)
next
  case (Cons l ls)
  have path: "ix_torrentPath (append_html s i) = ix_torrentPath i" for s i by (simp add: append_html_def)
  have app: "append_html b (append_html a i) = append_html (a @ b) i" for a b i by (simp add: append_html_def)
  show ?case
  proof (cases "row_of (ix_torrentPath ix) l")
    case None
    then show ?thesis using Cons by (simp add: index_entry_row)
  next
    case (Some r)
    show ?thesis
    proof (cases r)
      case (Dir_row d)
      show ?thesis
      proof (cases "prev = d")
        case True
        then show ?thesis using Cons Some Dir_row by (simp add: index_entry_row)
      next
        case False
        then have "index_entry l (ix, prev) = Inr (append_html (row_html (ix_torrentPath ix) r) ix, d)"
          using Some Dir_row add_row_eq(1) [of "Dir_row d"] by (simp add: index_entry_row)
        then show ?thesis
          using Cons.IH [of "append_html (row_html (ix_torrentPath ix) r) ix" d] Cons.prems Some Dir_row False
          by (simp add: path app)
      qed
    next
      case (File_row f m s)
      then have "index_entry l (ix, prev) = Inr (append_html (row_html (ix_torrentPath ix) r) ix, prev)"
        using Some Cons.prems add_row_eq(1) [of "File_row f m s"]
        by (simp add: index_entry_row del: add_row.simps fitting_row.simps)
      then show ?thesis
        using Cons.IH [of "append_html (row_html (ix_torrentPath ix) r) ix" prev] Cons.prems Some File_row
        by (simp add: path app del: fitting_row.simps)
    qed
  qed
qed

lemma set_index_rows:
  "r \<noteq> Dir_row prev \<Longrightarrow> r \<in> set (index_rows path prev ls) \<longleftrightarrow> (\<exists>l \<in> set ls. row_of path l = Some r)"
proof (induction path prev ls rule: index_rows.induct)
  case (2 path prev l ls)
  show ?case
  proof (cases "row_of path l")
    case (Some q)
    then show ?thesis using 2 by (cases q) auto
  qed (use 2 in simp)
qed simp

lemma row_of_not_Nil: "row_of path l \<noteq> Some (Dir_row [])"
proof
  assume a: "row_of path l = Some (Dir_row [])"
  then show False
    by (cases "drop (length path) (tl_name l)") (auto simp: row_of_def Let_def split: if_splits)
qed

lemma index_rows_exact: "set (index_rows path [] ls) = {r. \<exists>l \<in> set ls. row_of path l = Some r}"
proof -
  have "Dir_row [] \<notin> set (index_rows path prev ls)" for prev
    by (induction path prev ls rule: index_rows.induct)
      (auto simp: row_of_not_Nil split: option.splits index_row.splits)
  then have "r \<in> set (index_rows path [] ls) \<longleftrightarrow> (\<exists>l \<in> set ls. row_of path l = Some r)" for r
    using set_index_rows [of r "[]" path ls] by (cases "r = Dir_row []") (auto simp: row_of_not_Nil)
  then show ?thesis by blast
qed

lemma fold_index_fault:
  assumes "r \<in> set (index_rows (ix_torrentPath ix) prev ls)" "\<not> fitting_row r"
  shows "\<exists>f. fold_result index_entry ls (ix, prev) = Inl f"
  using assms
proof (induction ls arbitrary: ix prev)
  case (Cons l ls)
  have path: "ix_torrentPath (append_html s i) = ix_torrentPath i" for s i by (simp add: append_html_def)
  show ?case
  proof (cases "row_of (ix_torrentPath ix) l")
    case None
    then show ?thesis using Cons by (simp add: index_entry_row)
  next
    case (Some q)
    consider d where "q = Dir_row d" "prev = d" | p where "index_entry l (ix, prev) =
        bind_result (add_row (ix_torrentPath ix) q ix) (\<lambda>ix1. Inr (ix1, p))"
      "index_rows (ix_torrentPath ix) prev (l # ls) = q # index_rows (ix_torrentPath ix) p ls"
      using Some by (cases q; cases "q = Dir_row prev") (auto simp: index_entry_row simp del: add_row.simps)
    then show ?thesis
    proof cases
      case 1
      then show ?thesis using Cons Some by (simp add: index_entry_row)
    next
      case 2
      show ?thesis
      proof (cases "fitting_row q")
        case True
        then show ?thesis
          using 2 Cons.prems Cons.IH [of "append_html (row_html (ix_torrentPath ix) q) ix" p]
          by (auto simp: add_row_eq(1) path simp del: index_rows.simps)
      qed (use 2(1) add_row_eq(2) [of q "ix_torrentPath ix" ix] in auto)
    qed
  qed
qed simp

lemma generateIndex_several:
  "ix_fileList ix = l # ls \<Longrightarrow> ls \<noteq> [] \<Longrightarrow>
    generateIndex ix = bind_result (fold_result index_entry ls (ix, [])) (\<lambda>(ix1, _). Inr (addFooter ix1))"
  by (cases ls; cases "fold_result index_entry ls (ix, [])") (auto simp: generateIndex_def)



end
