(* ===== verification/ImDaemon.thy ===== *)
theory ImDaemon
  imports Downloads TorrentIndex
begin

section \<open>The daemon's main loop (\<open>im1/imdaemon/imdaemon.cpp\<close>)\<close>

text \<open>
  The daemon accepts one connection after the other on a local socket, reads a request of at
  most 100 bytes into the array \<open>str\<close>, answers whether the torrent exists, handles the
  request and answers with a path. The array is not cleared between the requests, and no
  terminator is stored behind the bytes received.
\<close>

definition DEFAULT_TORRENT_FILE :: string where
  "DEFAULT_TORRENT_FILE = ''test''"

definition checkRequest :: "daemon_env \<Rightarrow> string \<Rightarrow> int result" where
  "checkRequest env url =
     bind_result (c_string_at url 1) (\<lambda>path.
       let index_t = str_find ''/'' path in
       bind_result (if index_t > - 1 then substr path 0 index_t else Inr path) (\<lambda>path.
         Inr (case env_stat env (c_str (TORRENT_LOCATION @ path)) of None \<Rightarrow> 0 | Some _ \<Rightarrow> 1)))"

definition getTorrentIndex :: "daemon_env \<Rightarrow> string \<Rightarrow> string act" where
  "getTorrentIndex env urlPath =
     bind_act (pure (new_torrentIndex urlPath)) (\<lambda>myIndex.
     bind_act (pure (index_init myIndex)) (\<lambda>myIndex.
       let index_t = str_find ''/'' urlPath in
       bind_act (pure (if index_t > - 1 then substr urlPath 0 index_t else Inr urlPath)) (\<lambda>path.
       bind_act (pure (getList env 2 (c_str path))) (\<lambda>list.
       bind_act (pure (generateIndex (setFileList list myIndex))) (\<lambda>myIndex.
         saveIndexFile myIndex)))))"

definition getTorrentFile :: "nat \<Rightarrow> daemon_env \<Rightarrow> string \<Rightarrow> string \<Rightarrow> string act" where
  "getTorrentFile fuel env torrentName filePath =
     bind_act (getTorrent fuel env (c_str (torrentName @ ''/'' @ filePath))) (\<lambda>_.
       pure (Inr (torrentName @ ''/'' @ filePath)))"

definition handleRequest :: "nat \<Rightarrow> daemon_env \<Rightarrow> string \<Rightarrow> string act" where
  "handleRequest fuel env url =
     bind_act (pure (c_string_at url 1)) (\<lambda>urlPath.
       let urlPath = (if length urlPath = 0 then urlPath @ DEFAULT_TORRENT_FILE else urlPath);
           index = str_find ''/'' urlPath
       in
         if index > 0 then
           bind_act (pure (substr urlPath 0 index)) (\<lambda>torrentName.
           bind_act (pure (substr urlPath (index + 1) npos)) (\<lambda>filePath.
           bind_act (pure (check env torrentName filePath)) (\<lambda>ck_index.
             if ck_index > - 1 then getTorrentFile fuel env torrentName filePath
             else getTorrentIndex env urlPath)))
         else
           (case env_stat env (c_str (TORRENT_LOCATION @ urlPath)) of
              None \<Rightarrow> pure (Inr ''Error'')
            | Some _ \<Rightarrow>
                if env_isreg env (c_str (TORRENT_LOCATION @ urlPath)) then getTorrentIndex env urlPath
                else pure (Inr ''Error'')))"

subsection \<open>The loop\<close>

record main_state =
  ms_str :: string   \<comment> \<open>the 101 bytes of \<open>str\<close>\<close>
  ms_daemon :: daemon

text \<open>\<open>recv\<close> stores at most 100 bytes; \<open>[]\<close> stands for a closed connection and for an error.\<close>

definition receive :: "string \<Rightarrow> string \<Rightarrow> string" where
  "receive data str = take 100 data @ drop (length (take 100 data)) str"

text \<open>One round: what is sent, whether the round ends, and the state behind it. An exception is not caught here.\<close>

definition main_round :: "nat \<Rightarrow> daemon_env \<Rightarrow> string \<Rightarrow> main_state \<Rightarrow> (string list \<times> unit result) \<times> main_state" where
  "main_round fuel env data ms =
     (let str = receive data (ms_str ms); ms1 = ms\<lparr>ms_str := str\<rparr> in
      case c_string_at str 0 of
        Inl f \<Rightarrow> (([], Inl f), ms1)
      | Inr _ \<Rightarrow>
          (case checkRequest env str of
             Inl f \<Rightarrow> (([], Inl f), ms1)
           | Inr valid \<Rightarrow>
               if valid = 1 then
                 (case handleRequest fuel env str (ms_daemon ms1) of
                    (Inl f, d) \<Rightarrow> (([''1'' @ [CHR 0x00]], Inl f), ms1\<lparr>ms_daemon := d\<rparr>)
                  | (Inr pathFile, d) \<Rightarrow>
                      (([''1'' @ [CHR 0x00], c_str pathFile @ [CHR 0x00]], Inr ()), ms1\<lparr>ms_daemon := d\<rparr>))
               else (([''0'' @ [CHR 0x00]], Inr ()), ms1)))"

text \<open>
  The rounds of a run so far, with the bytes received and the messages sent. The environment, such
  as the files on the disk, may be different in each round.
\<close>

inductive serves :: "main_state \<Rightarrow> (string \<times> string list) list \<Rightarrow> main_state \<Rightarrow> bool" for ms0 where
  serves_idle: "serves ms0 [] ms0"
| serves_round: "serves ms0 log ms \<Longrightarrow> main_round fuel env data ms = ((out, Inr ()), ms') \<Longrightarrow>
    serves ms0 (log @ [(data, out)]) ms'"

inductive_simps serves_Nil: "serves ms0 [] ms"
inductive_cases serves_snocE: "serves ms0 (log @ [e]) ms"

text \<open>The state before the first round: the array is not initialised.\<close>

definition initial_state :: "string \<Rightarrow> main_state" where
  "initial_state garbage = \<lparr>ms_str = garbage, ms_daemon = new_daemon\<rparr>"

lemma initial_state_sel [simp]: "ms_str (initial_state g) = g" "ms_daemon (initial_state g) = new_daemon"
  by (simp_all add: initial_state_def)

subsection \<open>Invariants of a run\<close>

context daemon_invariant
begin

lemma getTorrentIndex: "keeps I (getTorrentIndex env urlPath)"
  unfolding getTorrentIndex_def saveIndexFile_def Let_def
  by (intro keeps_pure_bind keeps_bind index_page keeps_pure)

lemma handleRequest: "keeps I (handleRequest fuel env url)"
  unfolding handleRequest_def getTorrentFile_def Let_def
  by (intro keeps_pure_bind keeps_if keeps_bind getTorrent getTorrentIndex keeps_pure)
    (auto intro!: keeps_if getTorrentIndex split: option.split)

lemma main_round:
  assumes "I (ms_daemon ms)" "main_round fuel env data ms = (r, ms')"
  shows "I (ms_daemon ms')"
proof -
  obtain r' d where h: "handleRequest fuel env (receive data (ms_str ms)) (ms_daemon ms) = (r', d)" by (metis surj_pair)
  then have "I d" using keepsD [OF handleRequest assms(1), of fuel env "receive data (ms_str ms)"] by simp
  then show ?thesis
    using assms h by (auto simp: main_round_def Let_def split: sum.splits if_splits)
qed

lemma serves: "serves ms0 log ms \<Longrightarrow> I (ms_daemon ms0) \<Longrightarrow> I (ms_daemon ms)"
  by (induction rule: serves.induct) (auto intro: main_round)

end



subsection \<open>Requests\<close>

text \<open>The bytes that a client sends for a path.\<close>

definition request_bytes :: "string \<Rightarrow> string" where
  "request_bytes path = ''/'' @ path @ [CHR 0x00]"

lemma request_received:
  assumes "CHR 0x00 \<notin> set path" "length path \<le> 98"
  shows "c_string_at (receive (request_bytes path) str) 0 = Inr (''/'' @ path)"
    "c_string_at (receive (request_bytes path) str) 1 = Inr path"
proof -
  have "take 100 (request_bytes path) = request_bytes path" using assms(2) by (simp add: request_bytes_def)
  moreover have "c_str (path @ CHR 0x00 # r) = path" for r
    using assms(1) takeWhile_miss [of "CHR 0x00" path] by (simp add: c_str_def)
  ultimately show "c_string_at (receive (request_bytes path) str) 0 = Inr (''/'' @ path)"
    "c_string_at (receive (request_bytes path) str) 1 = Inr path"
    using assms(1) by (simp_all add: receive_def c_string_at_def request_bytes_def) (simp add: c_str_def)
qed

text \<open>A request for a file: short enough for the daemon, the torrent not empty, and no zero byte in it.\<close>

definition short_request :: "string \<Rightarrow> string \<Rightarrow> bool" where
  "short_request t f \<longleftrightarrow> t \<noteq> [] \<and> CHR ''/'' \<notin> set t \<and> CHR 0x00 \<notin> set (t @ f) \<and> length (t @ ''/'' @ f) \<le> 98"

lemma short_request_file: "short_request t f \<Longrightarrow> file_request t f"
  by (simp add: short_request_def file_request_def)

lemma short_request_received:
  assumes "short_request t f"
  shows "c_string_at (receive (request_bytes (t @ ''/'' @ f)) str) 0 = Inr (''/'' @ t @ ''/'' @ f)"
    "c_string_at (receive (request_bytes (t @ ''/'' @ f)) str) 1 = Inr (t @ ''/'' @ f)"
  using assms by (intro request_received; simp add: short_request_def)+

lemma checkRequest_file:
  assumes "short_request t f"
  shows "checkRequest env (receive (request_bytes (t @ ''/'' @ f)) str) =
    Inr (case env_stat env (TORRENT_LOCATION @ t) of None \<Rightarrow> 0 | Some _ \<Rightarrow> 1)"
  using short_request_received(2) [OF assms] request_split [OF short_request_file [OF assms]]
    request_c_str [OF short_request_file [OF assms]]
  by (simp add: checkRequest_def)

lemma handleRequest_file:
  assumes "short_request t f" "check env t f = Inr k"
  shows "handleRequest fuel env (receive (request_bytes (t @ ''/'' @ f)) str) d =
    (if k > - 1 then getTorrentFile fuel env t f d else getTorrentIndex env (t @ ''/'' @ f) d)"
proof -
  have "0 < length t" using assms(1) by (simp add: short_request_def)
  moreover have "substr (t @ ''/'' @ f) (int (length t) + 1) npos = Inr f"
    using assms(1) substr_suffix [of "t @ ''/''" f "int (length t) + 1" npos] by (simp add: short_request_def)
  ultimately show ?thesis
    using short_request_received(2) [OF assms(1)] request_split [OF short_request_file [OF assms(1)]] assms(2)
    by (simp add: handleRequest_def)
qed

lemma getTorrentFile_result:
  assumes "short_request t f" "getTorrent fuel env (t @ ''/'' @ f) d = (r, d')"
  shows "getTorrentFile fuel env t f d = (bind_result r (\<lambda>_. Inr (t @ ''/'' @ f)), d')"
proof -
  have "c_str (t @ ''/'' @ f) = t @ ''/'' @ f" using assms(1) by (intro c_str_id) (auto simp: short_request_def)
  then show ?thesis using assms(2) by (cases r) (simp_all add: getTorrentFile_def bind_act_def)
qed

text \<open>The answer to a request for a file, from what \<open>getTorrent\<close> does.\<close>

lemma main_round_file:
  assumes "short_request t f" "env_stat env (TORRENT_LOCATION @ t) = Some m" "check env t f = Inr (int k)"
    and "getTorrent fuel env (t @ ''/'' @ f) (ms_daemon ms) = (r, d)"
  shows "main_round fuel env (request_bytes (t @ ''/'' @ f)) ms =
    (case r of
       Inl e \<Rightarrow> ([''1'' @ [CHR 0x00]], Inl e)
     | Inr _ \<Rightarrow> ([''1'' @ [CHR 0x00], (t @ ''/'' @ f) @ [CHR 0x00]], Inr ()),
     \<lparr>ms_str = receive (request_bytes (t @ ''/'' @ f)) (ms_str ms), ms_daemon = d\<rparr>)"
proof -
  have "c_str (t @ ''/'' @ f) = t @ ''/'' @ f" using assms(1) by (intro c_str_id) (auto simp: short_request_def)
  moreover have "handleRequest fuel env (receive (request_bytes (t @ ''/'' @ f)) (ms_str ms)) (ms_daemon ms) =
      (bind_result r (\<lambda>_. Inr (t @ ''/'' @ f)), d)"
    using handleRequest_file [OF assms(1,3)] getTorrentFile_result [OF assms(1,4)] by simp
  ultimately show ?thesis
    using checkRequest_file [OF assms(1), of env "ms_str ms"] short_request_received [OF assms(1), of "ms_str ms"] assms(2)
    by (cases r) (simp_all add: main_round_def Let_def)
qed

text \<open>A torrent that is there, and that the session downloads: the hypotheses of a successful request.\<close>

definition downloadable :: "daemon_env \<Rightarrow> string \<Rightarrow> string \<Rightarrow> torrent_info \<Rightarrow> nat \<Rightarrow> bool" where
  "downloadable env t f ti i \<longleftrightarrow> short_request t f \<and> torrent_on_disk env t ti \<and> first_file ti (t @ ''/'' @ f) i \<and>
     \<not> fe_symlink_attribute (m_files (ti_files ti) ! i) \<and> length (m_files (ti_files ti)) < 2 ^ 31 \<and>
     env_add env (TORRENT_LOCATION @ t) (priorities ti i) = Inr () \<and>
     (\<exists>k. env_status env (TORRENT_LOCATION @ t) (priorities ti i) k = Finished)"

lemma downloadable_getTorrent:
  assumes "downloadable env t f ti i" "unchanged env t (d_status d)"
    and "i < length (ts_fileStatus (started env t ti (d_status d)))"
    and "ts_fileStatus (started env t ti (d_status d)) ! i = False"
  shows "getTorrent (Suc n) env (t @ ''/'' @ f) d =
    (Inr (), d\<lparr>d_status := (started env t ti (d_status d))
                   \<lparr>ts_fileStatus := (ts_fileStatus (started env t ti (d_status d)))[i := True]\<rparr>,
               d_events := d_events d @
                 [Download (TORRENT_LOCATION @ t) (priorities ti i),
                  Utime (DISK_LOCATION @ t @ ''/'' @ f) (fe_mtime (m_files (ti_files ti) ! i))]\<rparr>)"
proof -
  from assms(1) obtain k where k: "env_status env (TORRENT_LOCATION @ t) (priorities ti i) k = Finished"
    by (auto simp: downloadable_def)
  show ?thesis
    using assms k by (intro getTorrent_downloads) (auto simp: downloadable_def short_request_file)
qed

text \<open>
  C3: A request is answered. For a file of a torrent that is there and that the session downloads, the
  first request for it to the daemon is answered with \<open>1\<close> and the path of the file; by then
  exactly this file of the torrent was downloaded and its modification time was set, and nothing else happened.
\<close>

theorem request_answered:
  assumes "downloadable env t f ti i" "env_stat env (TORRENT_LOCATION @ t) = Some m"
  shows "main_round (Suc n) env (request_bytes (t @ ''/'' @ f)) (initial_state garbage) =
    (([[CHR ''1'', CHR 0x00], (t @ ''/'' @ f) @ [CHR 0x00]], Inr ()),
     \<lparr>ms_str = receive (request_bytes (t @ ''/'' @ f)) garbage,
      ms_daemon =
        \<lparr>d_status = (started env t ti new_torrentStatus)
           \<lparr>ts_fileStatus := (replicate (length (m_files (ti_files ti))) False)[i := True]\<rparr>,
         d_events = [Download (TORRENT_LOCATION @ t) (priorities ti i),
           Utime (DISK_LOCATION @ t @ ''/'' @ f) (fe_mtime (m_files (ti_files ti) ! i))]\<rparr>\<rparr>)"
proof -
  note dl = assms(1) [unfolded downloadable_def]
  have sr: "short_request t f" using dl by blast
  have hit: "check env t f = Inr (int i)" using dl by (intro check_hit [OF short_request_file [OF sr]]) auto
  have new: "d_status new_daemon = new_torrentStatus" "ts_empty new_torrentStatus" "d_events new_daemon = []"
    by (simp_all add: new_daemon_def new_torrentStatus_def)
  have st: "ts_fileStatus (started env t ti new_torrentStatus) = replicate (length (m_files (ti_files ti))) False"
    using new(2) by (simp add: started_def)
  have i: "i < length (m_files (ti_files ti))" using dl by (simp add: first_file_def)
  have "getTorrent (Suc n) env (t @ ''/'' @ f) new_daemon =
    (Inr (), new_daemon\<lparr>d_status := (started env t ti new_torrentStatus)
                   \<lparr>ts_fileStatus := (replicate (length (m_files (ti_files ti))) False)[i := True]\<rparr>,
               d_events := [Download (TORRENT_LOCATION @ t) (priorities ti i),
                  Utime (DISK_LOCATION @ t @ ''/'' @ f) (fe_mtime (m_files (ti_files ti) ! i))]\<rparr>)"
    using downloadable_getTorrent [OF assms(1), of new_daemon n] new st i by (simp add: unchanged_def)
  from main_round_file [where ms = "initial_state garbage", OF sr assms(2) hit, unfolded initial_state_sel, OF this]
  show ?thesis by (simp add: new_daemon_def)
qed

text \<open>
  C17: A file is downloaded once. A second request for the file is answered with the same messages, and
  the daemon does nothing else: no event is added and the status stays as it is.
\<close>

theorem second_request_answered:
  assumes "downloadable env t f ti i" "env_stat env (TORRENT_LOCATION @ t) = Some m"
    and "env_lstat env (TORRENT_LOCATION @ t) = Some m"
    and "main_round (Suc n) env (request_bytes (t @ ''/'' @ f)) (initial_state garbage) = ((out, r), ms)"
  shows "main_round (Suc n') env (request_bytes (t @ ''/'' @ f)) ms = ((out, r), ms\<lparr>ms_str := receive (request_bytes (t @ ''/'' @ f)) (ms_str ms)\<rparr>)"
proof -
  note dl = assms(1) [unfolded downloadable_def]
  have sr: "short_request t f" using dl by blast
  have hit: "check env t f = Inr (int i)" using dl by (intro check_hit [OF short_request_file [OF sr]]) auto
  have i: "i < length (m_files (ti_files ti))" using dl by (simp add: first_file_def)
  let ?ts = "d_status (ms_daemon ms)"
  have "getTorrent (Suc n) env (t @ ''/'' @ f) new_daemon =
    (Inr (), new_daemon\<lparr>d_status := (started env t ti new_torrentStatus)
                   \<lparr>ts_fileStatus := (replicate (length (m_files (ti_files ti))) False)[i := True]\<rparr>,
               d_events := [Download (TORRENT_LOCATION @ t) (priorities ti i),
                  Utime (DISK_LOCATION @ t @ ''/'' @ f) (fe_mtime (m_files (ti_files ti) ! i))]\<rparr>)"
    using downloadable_getTorrent [OF assms(1), of new_daemon n] i
    by (simp add: unchanged_def new_daemon_def new_torrentStatus_def started_def)
  then have one: "out = [''1'' @ [CHR 0x00], (t @ ''/'' @ f) @ [CHR 0x00]]" "r = Inr ()"
    "?ts = (started env t ti new_torrentStatus)\<lparr>ts_fileStatus := (replicate (length (m_files (ti_files ti))) False)[i := True]\<rparr>"
    using main_round_file [where ms = "initial_state garbage", OF sr assms(2) hit, of "Suc n"] assms(4)
    by (auto simp del: getTorrent.simps)
  have "getTorrent (Suc n') env (t @ ''/'' @ f) (ms_daemon ms) = (Inr (), ms_daemon ms)"
    using assms(2,3) i dl sr
    by (intro getTorrent_cached [where ti = ti and i = i])
      (auto simp: one(3) unchanged_def started_def new_torrentStatus_def short_request_file)
  from main_round_file [OF sr assms(2) hit this] show ?thesis using one by simp
qed

text \<open>
  A download that fails is reported as a success. If the session refuses the torrent with an exception,
  \<open>getTorrent\<close> catches it, and the client is told that the file is there.
\<close>

theorem failed_download_answered:
  assumes "short_request t f" "torrent_on_disk env t ti" "first_file ti (t @ ''/'' @ f) i"
    and "\<not> fe_symlink_attribute (m_files (ti_files ti) ! i)" "env_stat env (TORRENT_LOCATION @ t) = Some m"
    and "env_add env (TORRENT_LOCATION @ t) (priorities ti i) = Inl (Thrown e)"
  shows "main_round (Suc n) env (request_bytes (t @ ''/'' @ f)) (initial_state garbage) =
    (([[CHR ''1'', CHR 0x00], (t @ ''/'' @ f) @ [CHR 0x00]], Inr ()),
     (initial_state garbage)\<lparr>ms_str := receive (request_bytes (t @ ''/'' @ f)) garbage\<rparr>)"
proof -
  note req = short_request_file [OF assms(1)]
  have "unchanged env t (d_status new_daemon)" "already_downloaded (int i) (d_status new_daemon) = Inr False"
    by (simp_all add: unchanged_def already_downloaded_def isEmpty_def new_daemon_def new_torrentStatus_def)
  then have "getTorrent_body self env (t @ ''/'' @ f) new_daemon =
      download_file env (t @ ''/'' @ f) t (int i) (priorities ti i) (fe_mtime (m_files (ti_files ti) ! i)) new_daemon" for self
    using getTorrent_body_found [OF req assms(2,3)] assms(4) by simp
  then have "getTorrent (Suc n) env (t @ ''/'' @ f) new_daemon = (Inr (), new_daemon)"
    using assms(6) request_c_str [OF req] torrent_on_disk_info [OF assms(2)] by (simp add: caught_def download_file_def Let_def)
  from main_round_file [where ms = "initial_state garbage", OF assms(1,5) check_hit [OF req assms(2,3)], unfolded initial_state_sel, OF this]
  show ?thesis by (simp add: initial_state_def)
qed

text \<open>
  C37: A torrent file that is not well-formed ends the daemon. If the decoder reports an error for the file
  of the requested torrent, the process exits, after the client was told that the torrent exists.
\<close>

theorem broken_torrent_exits:
  assumes "short_request t f" "env_stat env (TORRENT_LOCATION @ t) = Some m"
    and "env_disk env (TORRENT_LOCATION @ t) = Some buf" "length buf \<le> 10000000"
    and "lazy_bdecode buf 1000 = Some (Inr ret, e)" "ret \<noteq> 0"
  shows "fst (main_round n env (request_bytes (t @ ''/'' @ f)) ms) = ([[CHR ''1'', CHR 0x00]], Inl (Exit (- 1)))"
proof -
  note req = short_request_file [OF assms(1)]
  have "int32 (int (length buf)) = int (length buf)" using assms(4) by (intro int32_id) auto
  then have "gettor env 2 t = Inl (Exit (- 1))"
    using assms(3-6) by (simp add: gettor_def gettor_body_def Let_def)
  then have "check env t f = Inl (Exit (- 1))" using request_c_str [OF req] by (simp add: check_def)
  moreover have "0 < length t" using assms(1) by (simp add: short_request_def)
  moreover have "substr (t @ ''/'' @ f) (int (length t) + 1) npos = Inr f"
    using assms(1) substr_suffix [of "t @ ''/''" f "int (length t) + 1" npos] by (simp add: short_request_def)
  ultimately have "handleRequest n env (receive (request_bytes (t @ ''/'' @ f)) (ms_str ms)) d = (Inl (Exit (- 1)), d)" for d
    using short_request_received(2) [OF assms(1)] request_split [OF req] by (simp add: handleRequest_def)
  then show ?thesis
    using checkRequest_file [OF assms(1), of env "ms_str ms"] short_request_received [OF assms(1), of "ms_str ms"] assms(2)
    by (simp add: main_round_def Let_def)
qed

subsection \<open>Index pages\<close>

lemma index_init_Inr:
  assumes "CHR ''/'' \<in> set (ix_torrentPath ix)" "length (ix_torrentPath ix) < 2 ^ 62"
  obtains ix' where "index_init ix = Inr ix'" "ix_torrentPath ix' = ix_torrentPath ix"
proof -
  let ?p = "ix_torrentPath ix"
  have sub: "\<exists>r. substr ?p a b = Inr r" if "0 \<le> a" "a \<le> int (length ?p)" for a b
    using that assms(2) by (simp add: substr_def)
  have "0 < length (dropWhile (\<lambda>d. d \<noteq> CHR ''/'') ?p)" using assms(1) by (simp add: dropWhile_eq_Nil_conv)
  moreover have "length ?p = length (takeWhile (\<lambda>d. d \<noteq> CHR ''/'') ?p) + length (dropWhile (\<lambda>d. d \<noteq> CHR ''/'') ?p)"
    by (simp flip: length_append)
  ultimately have "length (takeWhile (\<lambda>d. d \<noteq> CHR ''/'') ?p) < length ?p" by linarith
  then have find: "0 \<le> str_find ''/'' ?p + 1" "str_find ''/'' ?p + 1 \<le> int (length ?p)"
    using assms(1) by (simp_all add: str_find_char)
  obtain name where name: "substr ?p 0 (str_find ''/'' ?p) = Inr name" using sub [of 0] by auto
  obtain rest where rest: "substr ?p (str_find ''/'' ?p + 1) npos = Inr rest" using sub [OF find] by blast
  obtain title where "substr ?p 0 (str_find ''.'' ?p) = Inr title" using sub [of 0] by auto
  then have title: "\<exists>ix2. addTitleAndHtml ix1 = Inr ix2 \<and> ix_torrentPath ix2 = ?p" if "ix_torrentPath ix1 = ?p" for ix1
    using that by (simp only: addTitleAndHtml_def Let_def bind_result_simps) (simp only: sum.inject ex_simps index_path simp_thms)
  define ix1 where "ix1 = ix\<lparr>ix_torrentName := name, ix_torrentFilePath := rest,
      ix_indexstr := ''<!-- Created by imdaemon --> '' @ [CHR 0x0A]\<rparr>"
  have "ix_torrentPath ix1 = ?p" by (simp add: ix1_def)
  then obtain ix2 where "addTitleAndHtml ix1 = Inr ix2" "ix_torrentPath ix2 = ?p" using title by blast
  then show thesis
    using name rest unfolding ix1_def
    by (intro that [of "addHeader ix2"]) (simp_all only: index_init_def Let_def bind_result_simps index_path)
qed

text \<open>
  C35: A request writes a file below a path that the client chose. If the torrent \<open>t\<close> exists, has several files,
  and no file below the path \<open>t/p\<close>, then a request for \<open>t/p\<close> makes the daemon write
  \<open>../www/t/p/index.html\<close>, whatever \<open>p\<close> is; nothing keeps \<open>p\<close> from leaving the directory \<open>../www/\<close>.
\<close>

theorem index_written_anywhere:
  assumes "short_request t p" "last p \<noteq> CHR ''/''" "p \<noteq> []" "torrent_on_disk env t ti"
    and "2 \<le> length (m_files (ti_files ti))" "env_stat env (TORRENT_LOCATION @ t) = Some m"
    and "\<forall>e \<in> set (m_files (ti_files ti)). fe_path e \<noteq> t @ ''/'' @ p \<and>
      take (length (t @ ''/'' @ p @ ''/'')) (fe_path e) \<noteq> t @ ''/'' @ p @ ''/''"
  shows "\<exists>content. d_events (ms_daemon (snd (main_round n env (request_bytes (t @ ''/'' @ p)) ms))) =
    d_events (ms_daemon ms) @ [Write_index (''../www/'' @ t @ ''/'' @ p @ ''/index.html'') content]"
proof -
  note req = short_request_file [OF assms(1)]
  obtain list where list: "gettor_files ti = Inr list" "list_all2 (torfile_of (ti_files ti)) (m_files (ti_files ti)) list"
    by (rule gettor_files_listed)
  then have names: "map tl_name list = map fe_path (m_files (ti_files ti))"
    by (auto simp: list_all2_conv_all_nth torfile_of_def intro: nth_equalityI)
  obtain l ls where ls: "list = l # ls" "ls \<noteq> []"
    using list(2) assms(5) by (cases list; cases "tl list") (auto dest: list_all2_lengthD)
  let ?path = "t @ ''/'' @ p @ ''/''"
  obtain ix0 where ix0: "new_torrentIndex (t @ ''/'' @ p) = Inr ix0" "ix_torrentPath ix0 = ?path"
    using assms(2,3) by (auto simp: new_torrentIndex_def)
  obtain ix1 where ix1: "index_init ix0 = Inr ix1" "ix_torrentPath ix1 = ?path"
    using index_init_Inr [of ix0] ix0(2) assms(1) by (auto simp: short_request_def)
  have none: "row_of ?path l' = None" if "l' \<in> set ls" for l'
  proof -
    have "tl_name l' \<in> fe_path ` set (m_files (ti_files ti))"
      using that names ls(1) by (metis image_eqI list.set_intros(2) list.set_map)
    then have "take (length ?path) (tl_name l') \<noteq> ?path" using assms(7) by (auto simp del: append_assoc length_append)
    then show ?thesis by (simp only: row_of_def if_True simp_thms)
  qed
  have "set (index_rows ?path [] ls) = {}" unfolding index_rows_exact using none by fastforce
  then have "index_rows ?path [] ls = []" by simp
  then obtain prev where fold: "fold_result index_entry ls (setFileList list ix1, []) = Inr (append_html [] (setFileList list ix1), prev)"
    using fold_index_rows [of "setFileList list ix1" "[]" ls] ix1(2) by auto
  have "generateIndex (setFileList list ix1) = Inr (addFooter (append_html [] (setFileList list ix1)))"
    using generateIndex_several [of "setFileList list ix1" l ls] ls fold by simp
  moreover have "c_str (DISK_LOCATION @ ?path @ ''index.html'') = ''../www/'' @ t @ ''/'' @ p @ ''/index.html''"
    using assms(1) by (subst c_str_id) (auto simp: DISK_LOCATION_def short_request_def)
  ultimately have "\<exists>content. getTorrentIndex env (t @ ''/'' @ p) d = (Inr (?path @ ''index.html''),
      d\<lparr>d_events := d_events d @ [Write_index (''../www/'' @ t @ ''/'' @ p @ ''/index.html'') content]\<rparr>)" for d
    using ix0(1) ix1 request_split [OF req] request_c_str [OF req] list(1) torrent_on_disk_gettor [OF assms(4)]
    by (simp add: getTorrentIndex_def getList_def saveIndexFile_def) blast
  then obtain content where gi: "getTorrentIndex env (t @ ''/'' @ p) (ms_daemon ms) = (Inr (?path @ ''index.html''),
      (ms_daemon ms)\<lparr>d_events := d_events (ms_daemon ms) @ [Write_index (''../www/'' @ t @ ''/'' @ p @ ''/index.html'') content]\<rparr>)" by blast
  have "check env t p = Inr (- 1)" using assms(7) by (intro check_miss [OF req assms(4)]) auto
  then have "handleRequest n env (receive (request_bytes (t @ ''/'' @ p)) (ms_str ms)) (ms_daemon ms) =
      getTorrentIndex env (t @ ''/'' @ p) (ms_daemon ms)"
    using handleRequest_file [OF assms(1)] by simp
  then show ?thesis
    using gi checkRequest_file [OF assms(1), of env "ms_str ms"] short_request_received [OF assms(1), of "ms_str ms"] assms(6)
    by (simp add: main_round_def Let_def)
qed

subsection \<open>What is read as the request\<close>

text \<open>
  Bytes of an earlier request can become part of a later one. The request that the daemon acts on is the bytes
  received up to the first zero byte; if there is none among the first 100, it goes on with what the array held
  before, and if that holds no zero byte either, the array is left.
\<close>

theorem request_read:
  "c_string_at (receive data str) 0 =
     (if CHR 0x00 \<in> set (take 100 data) then Inr (c_str data)
      else if CHR 0x00 \<in> set (drop (length (take 100 data)) str)
      then Inr (take 100 data @ c_str (drop (length (take 100 data)) str))
      else Inl Out_of_bounds)"
proof (cases "CHR 0x00 \<in> set (take 100 data)")
  case True
  then have "takeWhile (\<lambda>c. c \<noteq> CHR 0x00) (take 100 data @ r) = takeWhile (\<lambda>c. c \<noteq> CHR 0x00) (take 100 data)" for r
    by (intro takeWhile_append1) auto
  from this [of "drop 100 data"] this show ?thesis
    using True by (simp add: c_string_at_def receive_def c_str_def)
next
  case False
  then show ?thesis
    using takeWhile_miss [of "CHR 0x00" "take 100 data"] by (simp add: c_string_at_def receive_def c_str_def)
qed

end
