(* ===== verification/SampleTorrent.thy ===== *)
theory SampleTorrent
  imports ImDaemon
begin

section \<open>A torrent with links\<close>

text \<open>
  How the library reads the description of a link in a torrent, and a torrent with a file and three links: to a
  file in the parent directory, out of the torrent, and to a file in the same directory. It is the
  input at which the properties of the daemon are applied.
\<close>

subsection \<open>Reading links\<close>

definition link_dict :: "string list \<times> int \<times> string list \<Rightarrow> (string \<times> entry) list" where
  "link_dict = (\<lambda>(p, len, s). [(''attr'', String ''l''), (''length'', Integer len), (''path'', List (map String p)),
     (''symlink path'', List (map String s))])"

lemma extract_attributes_link:
  assumes "represents buf (Dict d) n" "map_of d ''attr'' = Some (String ''l'')"
  shows "extract_attributes buf n e = Inr (e\<lparr>fe_symlink_attribute := True, fe_size := 0\<rparr>)"
  using extract_attributes_view [OF assms] by (simp add: attr_flag_def)

lemma extract_link_view:
  assumes rep: "represents buf (Dict (link_dict (p, len, s))) n" and wf: "wf_entry (Dict (link_dict (p, len, s)))"
  shows "extract_single_file ops buf n root =
    Inr (Some ((named_file ops (path_under ops root p) len (- 1))
      \<lparr>fe_symlink_attribute := True, fe_size := 0,
       fe_symlink_path := path_under ops (fe_symlink_path (named_file ops (path_under ops root p) len (- 1))) s\<rparr>))"
proof -
  obtain l where l: "dict_find buf ''length'' n = Inr (Some l)" "represents buf (Integer len) l"
    by (rule view_node [OF rep, of "''length''" "Integer len"]) (simp add: link_dict_def)
  have iv: "int_value buf l = Inr len"
    using int_value_represents [OF l(2)] wf by (simp add: link_dict_def)
  obtain pl where pl: "dict_find buf ''path'' n = Inr (Some pl)" "represents buf (List (map String p)) pl"
    by (rule view_node [OF rep, of "''path''" "List (map String p)"]) (simp add: link_dict_def)
  have types: "m_type l = Int_t" "m_type pl = List_t" using l(2) pl(2) represents_type by force+
  have mtime: "dict_find_int_value buf ''mtime'' (- 1) n = Inr (- 1)"
    using view_int_value [OF rep wf] by (simp add: link_dict_def)
  have utf8: "dict_find buf ''path.utf-8'' n = Inr None"
    by (rule view_absent [OF rep]) (simp add: link_dict_def)
  have path: "append_path_list ops buf pl root = Inr (Some (path_under ops root p))"
    using wf by (intro append_path_list_view [OF pl(2)]) (simp add: link_dict_def)
  have attr: "extract_attributes buf n e = Inr (e\<lparr>fe_symlink_attribute := True, fe_size := 0\<rparr>)" for e
    by (rule extract_attributes_link [OF rep]) (simp add: link_dict_def)
  have sym: "extract_symlink ops buf n e = Inr (e\<lparr>fe_symlink_path := path_under ops (fe_symlink_path e) s\<rparr>)" for e
    using wf by (intro extract_symlink_view [OF rep]) (simp_all add: link_dict_def)
  show ?thesis
    by (simp add: extract_single_file_def l(1) types iv mtime utf8 pl(1) list_or_none_def path attr sym)
qed

subsection \<open>The sample\<close>

definition links_dicts :: "(string \<times> entry) list list" where
  "links_dicts = [file_dict ([''a''], 3), link_dict ([''d'', ''l''], 0, [''..'', ''a'']),
     link_dict ([''d'', ''m''], 0, [''..'', ''..'', ''x'']), link_dict ([''s''], 0, [''a''])]"

definition links_info :: "(string \<times> entry) list" where
  "links_info = [(''files'', List (map Dict links_dicts)), (''name'', String ''t''), (''piece length'', Integer 4),
     (''pieces'', String (replicate 20 (CHR ''x'')))]"

definition links_entries :: "file_entry list" where
  "links_entries =
     (let e = \<lambda>p. named_file posix_ops (path_under posix_ops ''t'' p);
          link = \<lambda>p s. (e p 0 (- 1))\<lparr>fe_symlink_attribute := True, fe_size := 0, fe_symlink_path := s\<rparr>
      in [e [''a''] 3 (- 1), link [''d'', ''l''] ''../a'', link [''d'', ''m''] ''../../x'', link [''s''] ''a''])"

definition links_storage :: file_storage where
  "links_storage = fold (store_file posix_ops) links_entries (set_piece_length 4 new_file_storage)"

text \<open>Files whose names do not clash are stored as they are, one behind the other.\<close>

definition file_view :: "file_entry \<Rightarrow> string \<times> int \<times> int \<times> bool \<times> string" where
  "file_view e = (fe_path e, fe_size e, fe_mtime e, fe_symlink_attribute e, fe_symlink_path e)"

lemma fold_store_file:
  "clash_free (map fe_path (m_files st @ es)) \<Longrightarrow>
    map file_view (m_files (fold (store_file ops) es st)) = map file_view (m_files st @ es) \<and>
    m_piece_length (fold (store_file ops) es st) = m_piece_length st \<and>
    m_total_size (fold (store_file ops) es st) = fold (\<lambda>e t. int64 (t + fe_size e)) es (m_total_size st)"
proof (induction es arbitrary: st)
  case (Cons e es)
  let ?st = "add_file_entry ops e st"
  have "clash_free (map fst (path_sizes st) @ [fe_path e])"
    using Cons.prems by (simp add: clash_free_def sorted_wrt_append path_sizes_def comp_def)
  then have "store_file ops e st = ?st" by (rule store_file_fresh)
  moreover have "map fe_path (m_files ?st @ es) = map fe_path (m_files st @ e # es)" "m_piece_length ?st = m_piece_length st"
    "map file_view (m_files ?st) = map file_view (m_files st) @ [file_view e]" "m_total_size ?st = int64 (m_total_size st + fe_size e)"
    by (simp_all add: add_file_entry_def Let_def file_view_def)
  ultimately show ?case using Cons.IH [of ?st] Cons.prems by simp
qed simp

lemma sample_names: "c \<in> set ''adlmst'' \<Longrightarrow> simple_name [c]"
proof -
  have "list_all ascii ''adlmst''" by code_simp
  then show "c \<in> set ''adlmst'' \<Longrightarrow> simple_name [c]"
    by (auto simp: simple_name_def plain_name_def valid_path_element_def)
qed

lemma links_entries_view:
  "map file_view links_entries =
    [(''t/a'', 3, 0, False, []), (''t/d/l'', 0, 0, True, ''../a''), (''t/d/m'', 0, 0, True, ''../../x''), (''t/s'', 0, 0, True, ''a'')]"
proof -
  have path: "fe_path (named_file posix_ops (path_under posix_ops ''t'' p) len ts) = joined ''t'' p" if "\<forall>x \<in> set p. simple_name x" for p len ts
    using posix.named_file_joined(1) [OF sample_names] that by simp
  have rest: "fe_size (named_file posix_ops p len (- 1)) = len" "fe_mtime (named_file posix_ops p len (- 1)) = 0"
    "fe_symlink_attribute (named_file posix_ops p len (- 1)) = False" "fe_symlink_path (named_file posix_ops p len (- 1)) = []" for p len
    by (simp_all add: named_file_def verify_encoding_file_def Let_def new_file_entry_def split: prod.split)
  show ?thesis by (simp add: links_entries_def file_view_def path rest sample_names joined_def)
qed

lemma sample_clash_free: "clash_free [''t/a'', ''t/d/l'', ''t/d/m'', ''t/s'']"
proof -
  have "\<not> string_equal_no_case ''t/d/l'' ''t/a''" "\<not> string_equal_no_case ''t/d/m'' ''t/a''" "\<not> string_equal_no_case ''t/s'' ''t/a''"
    "\<not> string_equal_no_case ''t/d/m'' ''t/d/l''" "\<not> string_equal_no_case ''t/s'' ''t/d/l''" "\<not> string_equal_no_case ''t/s'' ''t/d/m''"
    by code_simp+
  then show ?thesis by (simp add: clash_free_def c_str_def)
qed

lemma sample_stored:
  "map file_view (m_files links_storage) =
    [(''t/a'', 3, 0, False, []), (''t/d/l'', 0, 0, True, ''../a''), (''t/d/m'', 0, 0, True, ''../../x''), (''t/s'', 0, 0, True, ''a'')]"
  "int32 (piece_count links_storage * 20) = 20"
proof -
  let ?st = "set_piece_length 4 new_file_storage"
  have paths: "map fe_path links_entries = map fst (map file_view links_entries)"
    and sizes: "map fe_size links_entries = map (\<lambda>v. fst (snd v)) (map file_view links_entries)"
    by (simp_all add: file_view_def)
  have st: "m_files ?st = []" "m_piece_length ?st = 4" "m_total_size ?st = 0"
    by (simp_all add: set_piece_length_def new_file_storage_def)
  have fold: "map file_view (m_files links_storage) = map file_view links_entries" "m_piece_length links_storage = 4"
    "m_total_size links_storage = fold (\<lambda>e t. int64 (t + fe_size e)) links_entries 0"
    using fold_store_file [of ?st links_entries posix_ops] st paths [unfolded links_entries_view] sample_clash_free
    unfolding links_storage_def by simp_all
  show "map file_view (m_files links_storage) =
    [(''t/a'', 3, 0, False, []), (''t/d/l'', 0, 0, True, ''../a''), (''t/d/m'', 0, 0, True, ''../../x''), (''t/s'', 0, 0, True, ''a'')]"
    using fold(1) links_entries_view by simp
  have "fold (\<lambda>e t. int64 (t + fe_size e)) links_entries 0 = fold (\<lambda>v t. int64 (t + v)) (map fe_size links_entries) 0"
    by (simp add: fold_map comp_def)
  then have "m_total_size links_storage = fold (\<lambda>v t. int64 (t + v)) [3, 0, 0, 0] 0"
    unfolding fold(3) sizes links_entries_view by simp
  then show "int32 (piece_count links_storage * 20) = 20"
    using fold(2) by (simp add: piece_count_def int64_id int32_id sdiv_nonneg)
qed

lemma sample_parts:
  "path_under posix_ops [] [''..'', ''a''] = ''../a''" "path_under posix_ops [] [''..'', ''..'', ''x''] = ''../../x''"
  "path_under posix_ops [] [''a''] = ''a''" "sanitize_path posix_ops ''t'' = ''t''" "valid_path_element ''t''"
  "fst (verify_encoding ''t'') = ''t''"
  by code_simp+

lemma named_file_no_link: "fe_symlink_path (named_file ops p len ts) = []"
  by (simp add: named_file_def verify_encoding_file_def Let_def new_file_entry_def split: prod.split)

lemma sample_entry:
  assumes "i < length links_dicts" "represents buf (Dict (links_dicts ! i)) x"
  shows "extract_single_file posix_ops buf x ''t'' = Inr (Some (links_entries ! i))"
proof -
  have "i = 0 \<or> i = 1 \<or> i = 2 \<or> i = 3" using assms(1) by (auto simp: links_dicts_def)
  moreover have "wf_entry (Dict (links_dicts ! i))" if "i = 0 \<or> i = 1 \<or> i = 2 \<or> i = 3"
    using that by (auto simp: links_dicts_def file_dict_def link_dict_def)
  ultimately show ?thesis
    using assms(2) extract_single_file_view [of buf "[''a'']" 3 x posix_ops "''t''"]
      extract_link_view [of buf "[''d'', ''l'']" 0 "[''..'', ''a'']" x posix_ops "''t''"]
      extract_link_view [of buf "[''d'', ''m'']" 0 "[''..'', ''..'', ''x'']" x posix_ops "''t''"]
      extract_link_view [of buf "[''s'']" 0 "[''a'']" x posix_ops "''t''"]
    by (auto simp: links_dicts_def links_entries_def Let_def named_file_no_link sample_parts
        simp del: represents.simps wf_entry.simps)
qed

definition links_bytes :: string where
  "links_bytes = snd (bencode (torrent_entry links_info))"

lemma links_bytes_length: "length links_bytes < 1000"
  by (simp add: links_bytes_def bencode_def torrent_entry_def links_info_def links_dicts_def file_dict_def link_dict_def
      encoding_Dict encoding_List encoding_pair_def encoding_String encoding_Integer int_string_def decimal.simps
      del: bencode_recursive.simps bencode_list.simps bencode_dict.simps)

lemma sample_wf: "wf_entry (Dict links_info)" "wf_entry (torrent_entry links_info)"
  "int (nesting (torrent_entry links_info)) \<le> 1000"
  by (simp_all add: torrent_entry_def links_info_def links_dicts_def file_dict_def link_dict_def)

lemma sample_parsed:
  obtains ti where "torrent_info_buffer posix_ops sample_hash id links_bytes = Some (Inr ti)"
    "m_files (ti_files ti) = m_files links_storage"
proof -
  have bytes: "links_bytes = encoding (torrent_entry links_info)" by (simp add: links_bytes_def bencode_def)
  obtain n where n: "represents links_bytes (Dict links_info) n" "torrent_info_buffer posix_ops sample_hash id links_bytes =
      Some (parse_info_section posix_ops sample_hash links_bytes n new_torrent_info)"
    using torrent_info_buffer_view [OF sample_wf(2,3)] unfolding bytes by metis
  obtain l where l: "dict_find links_bytes ''files'' n = Inr (Some l)" "represents links_bytes (List (map Dict links_dicts)) l"
    by (rule view_node [OF n(1), of "''files''" "List (map Dict links_dicts)"]) (simp add: links_info_def)
  have "extract_files posix_ops links_bytes l ''t'' st = Inr (Some (fold (store_file posix_ops) links_entries st))" for st
    by (rule extract_files_each [OF l(2) sample_entry]) (simp_all add: links_dicts_def links_entries_def)
  moreover have "m_type l = List_t" using represents_type [OF l(2)] by simp
  ultimately have read: "read_files posix_ops links_bytes n ''t'' (info_object sample_hash links_info 4) =
      Inr ((info_object sample_hash links_info 4)\<lparr>ti_files := links_storage, ti_multifile := True\<rparr>)"
    using l(1) by (simp add: read_files_def dict_find_list_def info_object_def links_storage_def)
  have lk: "map_of links_info ''piece length'' = Some (Integer 4)" "map_of links_info ''name'' = Some (String ''t'')"
      "map_of links_info ''pieces'' = Some (String (replicate 20 (CHR ''x'')))" "map_of links_info ''name.utf-8'' = None"
      "map_of links_info ''root hash'' = None" "(case map_of links_info ''private'' of Some (Integer v) \<Rightarrow> v | _ \<Rightarrow> 0) = 0"
    by (simp_all add: links_info_def)
  have len: "length links_bytes < 2 ^ 31" using links_bytes_length by (rule less_trans) simp
  have "\<exists>off. parse_info_section posix_ops sample_hash links_bytes n new_torrent_info =
      Inr ((info_object sample_hash links_info 4)\<lparr>ti_files := finish_files ''t'' links_storage, ti_multifile := True,
        ti_piece_hashes := Some (int off), ti_private := False\<rparr>)"
    using parse_info_section_view [OF n(1) sample_wf(1) len lk, of posix_ops "''t''" new_torrent_info sample_hash
      "(info_object sample_hash links_info 4)\<lparr>ti_files := links_storage, ti_multifile := True\<rparr>"]
      read sample_stored(2) sample_parts by (auto simp: info_object_def new_torrent_info_def)
  then show thesis using that n(2) by (auto simp: finish_files_def set_num_pieces_def set_name_def)
qed

definition sample_env :: daemon_env where
  "sample_env =
     \<lparr>env_ops = posix_ops, env_hash = sample_hash, env_shuffle = id,
      env_disk = (\<lambda>p. if p = TORRENT_LOCATION @ ''t'' then Some links_bytes else if p = TORRENT_LOCATION @ ''bad'' then Some ''x'' else None),
      env_nread = (\<lambda>p. int (length links_bytes)),
      env_stat = (\<lambda>p. Some 7), env_lstat = (\<lambda>p. Some 7), env_isreg = (\<lambda>p. True), env_add = (\<lambda>p prio. Inr ()),
      env_status = (\<lambda>p prio k. if k < 3 then Downloading else Finished)\<rparr>"

lemma sample_on_disk:
  obtains ti where "torrent_on_disk sample_env ''t'' ti"
    "map file_view (m_files (ti_files ti)) =
      [(''t/a'', 3, 0, False, []), (''t/d/l'', 0, 0, True, ''../a''), (''t/d/m'', 0, 0, True, ''../../x''), (''t/s'', 0, 0, True, ''a'')]"
proof -
  obtain ti where ti: "torrent_info_buffer posix_ops sample_hash id links_bytes = Some (Inr ti)"
    "m_files (ti_files ti) = m_files links_storage" by (rule sample_parsed)
  have "torrent_on_disk sample_env ''t'' ti"
    using ti(1) links_bytes_length by (simp add: torrent_on_disk_def sample_env_def)
  then show thesis using that ti(2) sample_stored(1) by simp
qed

subsection \<open>The properties of the daemon at the sample\<close>

lemma sample_torrent:
  obtains ti where "torrent_on_disk sample_env ''t'' ti" "length (m_files (ti_files ti)) = 4"
    "map fe_path (m_files (ti_files ti)) = [''t/a'', ''t/d/l'', ''t/d/m'', ''t/s'']"
    "map fe_symlink_attribute (m_files (ti_files ti)) = [False, True, True, True]"
    "map fe_symlink_path (m_files (ti_files ti)) = [[], ''../a'', ''../../x'', ''a'']"
    "map fe_mtime (m_files (ti_files ti)) = [0, 0, 0, 0]"
proof -
  obtain ti where ti: "torrent_on_disk sample_env ''t'' ti" "map file_view (m_files (ti_files ti)) =
      [(''t/a'', 3, 0, False, []), (''t/d/l'', 0, 0, True, ''../a''), (''t/d/m'', 0, 0, True, ''../../x''), (''t/s'', 0, 0, True, ''a'')]"
    by (rule sample_on_disk)
  have view: "map (g \<circ> file_view) (m_files (ti_files ti)) = map g (map file_view (m_files (ti_files ti)))" for g :: "_ \<Rightarrow> 'b" by simp
  show thesis
  proof (rule that [OF ti(1)])
    show "length (m_files (ti_files ti)) = 4" using arg_cong [OF ti(2), of length] by simp
    show "map fe_path (m_files (ti_files ti)) = [''t/a'', ''t/d/l'', ''t/d/m'', ''t/s'']"
      using view [of fst] ti(2) by (simp add: comp_def file_view_def)
    show "map fe_symlink_attribute (m_files (ti_files ti)) = [False, True, True, True]"
      using view [of "\<lambda>(_, _, _, s, _). s"] ti(2) by (simp add: comp_def file_view_def)
    show "map fe_symlink_path (m_files (ti_files ti)) = [[], ''../a'', ''../../x'', ''a'']"
      using view [of "\<lambda>(_, _, _, _, p). p"] ti(2) by (simp add: comp_def file_view_def)
    show "map fe_mtime (m_files (ti_files ti)) = [0, 0, 0, 0]"
      using view [of "\<lambda>(_, _, m, _). m"] ti(2) by (simp add: comp_def file_view_def)
  qed
qed

lemma sample_env_sel [simp]:
  "env_add sample_env p prio = Inr ()" "env_stat sample_env p = Some 7" "env_lstat sample_env p = Some 7"
  "env_status sample_env p prio 3 = Finished"
  by (simp_all add: sample_env_def)

text \<open>The same world, with another outcome of the downloads.\<close>

lemma torrent_on_disk_update [simp]:
  "torrent_on_disk (env\<lparr>env_add := a\<rparr>) t ti = torrent_on_disk env t ti"
  "torrent_on_disk (env\<lparr>env_status := s\<rparr>) t ti = torrent_on_disk env t ti"
  by (simp_all add: torrent_on_disk_def cong: option.case_cong)

lemma sample_requests:
  "file_request ''t'' ''a''" "file_request ''t'' ''d/l''" "file_request ''t'' ''d/m''" "file_request ''t'' ''s''"
  "short_request ''t'' ''a''"
  by (simp_all add: file_request_def short_request_def)

lemma sample_first_file:
  assumes "map fe_path (m_files (ti_files ti)) = [''t/a'', ''t/d/l'', ''t/d/m'', ''t/s'']"
  shows "first_file ti ''t/a'' 0" "first_file ti ''t/d/l'' 1" "first_file ti ''t/d/m'' 2" "first_file ti ''t/s'' 3"
proof -
  have "length (m_files (ti_files ti)) = 4" using arg_cong [OF assms, of length] by simp
  moreover have "fe_path (m_files (ti_files ti) ! i) = [''t/a'', ''t/d/l'', ''t/d/m'', ''t/s''] ! i" if "i < 4" for i
    using that assms calculation by (metis nth_map)
  ultimately show "first_file ti ''t/a'' 0" "first_file ti ''t/d/l'' 1" "first_file ti ''t/d/m'' 2" "first_file ti ''t/s'' 3"
    by (simp_all add: first_file_def less_Suc_eq numeral_eq_Suc)
qed

lemma map_nth_eq: "map f xs = ys \<Longrightarrow> i < length ys \<Longrightarrow> f (xs ! i) = ys ! i"
  by auto

lemma new_daemon_empty [simp]:
  "ts_empty (d_status new_daemon)" "unchanged env t (d_status new_daemon)" "d_events new_daemon = []"
  by (simp_all add: new_daemon_def new_torrentStatus_def unchanged_def)

theorem getTorrent_never_finished_witness:
  "fst (getTorrent 5 (sample_env\<lparr>env_status := \<lambda>_ _ k. if k < 3 then Downloading else Seeding\<rparr>) ''t/a'' new_daemon) = Inl Diverges"
proof -
  let ?env = "sample_env\<lparr>env_status := \<lambda>_ _ k. if k < 3 then Downloading else Seeding\<rparr>"
  obtain ti where ti: "torrent_on_disk sample_env ''t'' ti" "length (m_files (ti_files ti)) = 4"
    "map fe_path (m_files (ti_files ti)) = [''t/a'', ''t/d/l'', ''t/d/m'', ''t/s'']"
    "map fe_symlink_attribute (m_files (ti_files ti)) = [False, True, True, True]" by (rule sample_torrent)
  have link: "\<not> fe_symlink_attribute (m_files (ti_files ti) ! 0)" using map_nth_eq [OF ti(4), of 0] by simp
  show ?thesis
    using getTorrent_never_finished [OF sample_requests(1), of ?env ti 0 new_daemon 5] ti(1,2) link sample_first_file(1) [OF ti(3)]
    by simp
qed

theorem getTorrent_link_hangs_witness:
  "getTorrent 5 sample_env ''t/d/m'' new_daemon = (Inl Diverges, new_daemon)"
proof -
  obtain ti where ti: "torrent_on_disk sample_env ''t'' ti"
    "map fe_path (m_files (ti_files ti)) = [''t/a'', ''t/d/l'', ''t/d/m'', ''t/s'']"
    "map fe_symlink_attribute (m_files (ti_files ti)) = [False, True, True, True]"
    "map fe_symlink_path (m_files (ti_files ti)) = [[], ''../a'', ''../../x'', ''a'']" by (rule sample_torrent)
  have link: "fe_symlink_attribute (m_files (ti_files ti) ! 2)" "fe_symlink_path (m_files (ti_files ti) ! 2) = ''../../x''"
    using map_nth_eq [OF ti(3), of 2] map_nth_eq [OF ti(4), of 2] by simp_all
  have "no_parent ''t/''" "no_parent ''t/d/m/''" by code_simp+
  then show ?thesis
    using getTorrent_link_hangs [of "''t''" "''d''" "''m''" sample_env ti 2 "''x''" new_daemon 5] ti(1) link
      sample_requests(3) sample_first_file(3) [OF ti(2)] by simp
qed

theorem getTorrent_sibling_link_witness:
  "getTorrent (Suc (Suc 3)) sample_env ''t/s'' new_daemon = (Inl Out_of_bounds, new_daemon)"
proof -
  obtain ti where ti: "torrent_on_disk sample_env ''t'' ti"
    "map fe_path (m_files (ti_files ti)) = [''t/a'', ''t/d/l'', ''t/d/m'', ''t/s'']"
    "map fe_symlink_attribute (m_files (ti_files ti)) = [False, True, True, True]"
    "map fe_symlink_path (m_files (ti_files ti)) = [[], ''../a'', ''../../x'', ''a'']" by (rule sample_torrent)
  have link: "fe_symlink_attribute (m_files (ti_files ti) ! 3)" "fe_symlink_path (m_files (ti_files ti) ! 3) = ''a''"
    using map_nth_eq [OF ti(3), of 3] map_nth_eq [OF ti(4), of 3] by simp_all
  have "no_parent ''t/s/a''" by code_simp
  moreover have "fe_path ` set (m_files (ti_files ti)) = {''t/a'', ''t/d/l'', ''t/d/m'', ''t/s''}"
    using arg_cong [OF ti(2), of set] by simp
  ultimately show ?thesis
    using getTorrent_sibling_link [of "''t''" "''s''" sample_env ti 3 "''a''" new_daemon 3] ti(1) link
      sample_requests(4) sample_first_file(4) [OF ti(2)] by (simp del: getTorrent.simps)
qed

theorem getTorrent_follows_link_witness:
  "\<exists>d. getTorrent (Suc (Suc 3)) sample_env ''t/d/l'' new_daemon = (Inr (), d) \<and>
    d_events d = [Download ''../torrents/t'' [1, 0, 0, 0], Utime ''../www/t/a'' 0,
      Download ''../torrents/t'' [0, 1, 0, 0], Utime ''../www/t/d/l'' 0]"
proof -
  obtain ti where ti: "torrent_on_disk sample_env ''t'' ti" "length (m_files (ti_files ti)) = 4"
    "map fe_path (m_files (ti_files ti)) = [''t/a'', ''t/d/l'', ''t/d/m'', ''t/s'']"
    "map fe_symlink_attribute (m_files (ti_files ti)) = [False, True, True, True]"
    "map fe_symlink_path (m_files (ti_files ti)) = [[], ''../a'', ''../../x'', ''a'']"
    "map fe_mtime (m_files (ti_files ti)) = [0, 0, 0, 0]" by (rule sample_torrent)
  have link: "fe_symlink_attribute (m_files (ti_files ti) ! 1)" "fe_symlink_path (m_files (ti_files ti) ! 1) = ''../a''"
    "\<not> fe_symlink_attribute (m_files (ti_files ti) ! 0)" "fe_mtime (m_files (ti_files ti) ! 0) = 0" "fe_mtime (m_files (ti_files ti) ! 1) = 0"
    using map_nth_eq [OF ti(4), of 1] map_nth_eq [OF ti(5), of 1] map_nth_eq [OF ti(4), of 0] map_nth_eq [OF ti(6), of 0] map_nth_eq [OF ti(6), of 1]
    by simp_all
  have "no_parent ''t/d/l/''" "no_parent ''t/a''" by code_simp+
  moreover have "\<exists>p. env_status sample_env q prio p = Finished" for q prio by (rule exI [of _ 3]) simp
  ultimately show ?thesis
    using getTorrent_follows_link [of "''t''" "''d''" "''l''" sample_env ti 1 "''a''" 0 new_daemon 3] ti(1,2) link
      sample_requests(2) sample_first_file [OF ti(3)]
    by (simp add: priorities_def TORRENT_LOCATION_def DISK_LOCATION_def del: getTorrent.simps)
qed

theorem snapshotMigration_out_of_bounds_witness:
  "\<exists>ti. fst (snapshotMigration sample_env (TORRENT_LOCATION @ ''t'')
      (new_torrentStatus\<lparr>ts_empty := False, ts_torrent_details := Some ti, ts_totalFiles := 4,
        ts_fileStatus := [True, False, False, False]\<rparr>)) = Inl Out_of_bounds"
proof -
  obtain ti where ti: "torrent_on_disk sample_env ''t'' ti" "length (m_files (ti_files ti)) = 4" by (rule sample_torrent)
  have "m_files (ti_files ti) \<noteq> []" using ti(2) by auto
  then show ?thesis
    using snapshotMigration_out_of_bounds [OF torrent_on_disk_info [OF ti(1)], of
        "new_torrentStatus\<lparr>ts_empty := False, ts_torrent_details := Some ti, ts_totalFiles := 4, ts_fileStatus := [True, False, False, False]\<rparr>" ti]
      ti(2) by auto
qed

theorem getTorrent_second_torrent_witness:
  "\<exists>d. ts_fileName (d_status d) = ''u'' \<and> fst (getTorrent (Suc 3) sample_env ''t/a'' d) = Inr () \<and>
    d_events (snd (getTorrent (Suc 3) sample_env ''t/a'' d)) = []"
proof -
  obtain ti where ti: "torrent_on_disk sample_env ''t'' ti" "length (m_files (ti_files ti)) = 4"
    "map fe_path (m_files (ti_files ti)) = [''t/a'', ''t/d/l'', ''t/d/m'', ''t/s'']" by (rule sample_torrent)
  let ?d = "new_daemon\<lparr>d_status := new_torrentStatus\<lparr>ts_empty := False, ts_fileName := ''u'', ts_timestamp := 7,
    ts_torrent_details := Some ti, ts_totalFiles := 4, ts_fileStatus := [True, False, False, False]\<rparr>\<rparr>"
  have "fst (getTorrent (Suc 3) sample_env ''t/a'' ?d) = Inr () \<and> d_events (snd (getTorrent (Suc 3) sample_env ''t/a'' ?d)) = []"
    using getTorrent_second_torrent [OF sample_requests(1) ti(1), of 0 ?d "''u''" ti 7 3] sample_first_file(1) [OF ti(3)] ti(2)
    by (simp del: getTorrent.simps)
  moreover have "ts_fileName (d_status ?d) = ''u''" by simp
  ultimately show ?thesis by blast
qed

text \<open>Two files in the index of the torrent: the first one is left out.\<close>

definition sample_index :: torrentIndex where
  "sample_index = blank_index\<lparr>ix_torrentPath := ''t/'', ix_fileList :=
     [\<lparr>tl_size = 3, tl_name = ''t/a'', tl_node_s = 0, tl_node_f = 0, tl_mtime = 0, tl_symlink_attribute = False, tl_symlink_path = []\<rparr>,
      \<lparr>tl_size = 5, tl_name = ''t/b'', tl_node_s = 0, tl_node_f = 1, tl_mtime = 0, tl_symlink_attribute = False, tl_symlink_path = []\<rparr>]\<rparr>"

lemma sample_index_sel [simp]: "ix_torrentPath sample_index = ''t/''"
  by (simp add: sample_index_def)



lemma sample_downloadable:
  obtains ti where "downloadable sample_env ''t'' ''a'' ti 0" "priorities ti 0 = [1, 0, 0, 0]" "fe_mtime (m_files (ti_files ti) ! 0) = 0"
    "length (m_files (ti_files ti)) = 4"
proof -
  obtain ti where ti: "torrent_on_disk sample_env ''t'' ti" "length (m_files (ti_files ti)) = 4"
    "map fe_path (m_files (ti_files ti)) = [''t/a'', ''t/d/l'', ''t/d/m'', ''t/s'']"
    "map fe_symlink_attribute (m_files (ti_files ti)) = [False, True, True, True]"
    "map fe_mtime (m_files (ti_files ti)) = [0, 0, 0, 0]" by (rule sample_torrent)
  have "\<not> fe_symlink_attribute (m_files (ti_files ti) ! 0)" "fe_mtime (m_files (ti_files ti) ! 0) = 0"
    using map_nth_eq [OF ti(4), of 0] map_nth_eq [OF ti(5), of 0] by simp_all
  moreover have "\<exists>k. env_status sample_env p prio k = Finished" for p prio by (rule exI [of _ 3]) simp
  ultimately have "downloadable sample_env ''t'' ''a'' ti 0"
    using ti(1,2) sample_requests(5) sample_first_file(1) [OF ti(3)] by (simp add: downloadable_def)
  then show thesis using that ti(2) \<open>fe_mtime (m_files (ti_files ti) ! 0) = 0\<close> by (simp add: priorities_def)
qed

theorem request_answered_witness:
  "\<exists>ms. main_round (Suc 3) sample_env (''/t/a'' @ [CHR 0x00]) (initial_state (replicate 101 (CHR ''?''))) =
    (([[CHR ''1'', CHR 0x00], ''t/a'' @ [CHR 0x00]], Inr ()), ms) \<and>
    d_events (ms_daemon ms) = [Download ''../torrents/t'' [1, 0, 0, 0], Utime ''../www/t/a'' 0]"
proof -
  obtain ti where ti: "downloadable sample_env ''t'' ''a'' ti 0" "priorities ti 0 = [1, 0, 0, 0]" "fe_mtime (m_files (ti_files ti) ! 0) = 0"
    by (rule sample_downloadable)
  show ?thesis
    using request_answered [OF ti(1), of 7 3 "replicate 101 (CHR ''?'')"] ti(2,3)
    by (simp add: request_bytes_def TORRENT_LOCATION_def DISK_LOCATION_def)
qed

text \<open>A run of the daemon with one request.\<close>

lemma sample_run:
  obtains ms where "serves (initial_state (replicate 101 (CHR ''?''))) [(''/t/a'' @ [CHR 0x00], [[CHR ''1'', CHR 0x00], ''t/a'' @ [CHR 0x00]])] ms"
    "ts_fileStatus (d_status (ms_daemon ms)) = [True, False, False, False]"
    "main_round (Suc 3) sample_env (request_bytes ''t/a'') (initial_state (replicate 101 (CHR ''?''))) =
      (([[CHR ''1'', CHR 0x00], ''t/a'' @ [CHR 0x00]], Inr ()), ms)"
proof -
  let ?g = "replicate 101 (CHR ''?'')"
  obtain ti where ti: "downloadable sample_env ''t'' ''a'' ti 0" "length (m_files (ti_files ti)) = 4"
    by (rule sample_downloadable)
  note dl = ti(1) [unfolded downloadable_def]
  have st: "ts_fileStatus (started sample_env ''t'' ti (d_status new_daemon)) = replicate 4 False"
    using ti(2) by (simp add: started_def)
  obtain d where d: "getTorrent (Suc 3) sample_env ''t/a'' new_daemon = (Inr (), d)"
    "ts_fileStatus (d_status d) = [True, False, False, False]"
    using downloadable_getTorrent [OF ti(1), of new_daemon 3] st by (simp add: numeral_eq_Suc del: getTorrent.simps)
  have "check sample_env ''t'' ''a'' = Inr (int 0)" using dl by (intro check_hit) (auto simp: sample_requests)
  from main_round_file [where ms = "initial_state ?g", OF sample_requests(5) _ this, of 7 "Suc 3"] d
  obtain ms where ms: "main_round (Suc 3) sample_env (request_bytes ''t/a'') (initial_state ?g) =
      (([[CHR ''1'', CHR 0x00], ''t/a'' @ [CHR 0x00]], Inr ()), ms)" "ms_daemon ms = d"
    by (simp del: getTorrent.simps)
  have "serves (initial_state ?g) ([] @ [(request_bytes ''t/a'', [[CHR ''1'', CHR 0x00], ''t/a'' @ [CHR 0x00]])]) ms"
    by (rule serves_round [OF serves_idle ms(1)])
  then show thesis using that ms d(2) by (simp add: request_bytes_def)
qed



theorem second_request_answered_witness:
  "\<exists>ms. main_round (Suc 3) sample_env (request_bytes ''t/a'') (initial_state (replicate 101 (CHR ''?''))) =
      (([[CHR ''1'', CHR 0x00], ''t/a'' @ [CHR 0x00]], Inr ()), ms) \<and>
    fst (main_round (Suc 3) sample_env (request_bytes ''t/a'') ms) = ([[CHR ''1'', CHR 0x00], ''t/a'' @ [CHR 0x00]], Inr ()) \<and>
    ms_daemon (snd (main_round (Suc 3) sample_env (request_bytes ''t/a'') ms)) = ms_daemon ms"
proof -
  obtain ti where ti: "downloadable sample_env ''t'' ''a'' ti 0" by (rule sample_downloadable)
  obtain ms where ms: "main_round (Suc 3) sample_env (request_bytes ''t/a'') (initial_state (replicate 101 (CHR ''?''))) =
      (([[CHR ''1'', CHR 0x00], ''t/a'' @ [CHR 0x00]], Inr ()), ms)" by (rule sample_run)
  show ?thesis
    using second_request_answered [OF ti, of 7 3 "replicate 101 (CHR ''?'')" _ _ ms 3] ms by simp
qed

theorem failed_download_answered_witness:
  "fst (main_round (Suc 3) (sample_env\<lparr>env_add := \<lambda>_ _. Inl (Thrown ''no_files_in_torrent'')\<rparr>) (request_bytes ''t/a'')
      (initial_state (replicate 101 (CHR ''?'')))) = ([[CHR ''1'', CHR 0x00], ''t/a'' @ [CHR 0x00]], Inr ())"
proof -
  let ?env = "sample_env\<lparr>env_add := \<lambda>_ _. Inl (Thrown ''no_files_in_torrent'')\<rparr>"
  obtain ti where ti: "torrent_on_disk sample_env ''t'' ti"
    "map fe_path (m_files (ti_files ti)) = [''t/a'', ''t/d/l'', ''t/d/m'', ''t/s'']"
    "map fe_symlink_attribute (m_files (ti_files ti)) = [False, True, True, True]" by (rule sample_torrent)
  have link: "\<not> fe_symlink_attribute (m_files (ti_files ti) ! 0)" using map_nth_eq [OF ti(3), of 0] by simp
  show ?thesis
    using failed_download_answered [OF sample_requests(5), of ?env ti 0 7 "''no_files_in_torrent''" 3] ti(1) link sample_first_file(1) [OF ti(2)]
    by simp
qed

theorem broken_torrent_exits_witness:
  "fst (main_round 3 sample_env (request_bytes ''bad/a'') (initial_state (replicate 101 (CHR ''?'')))) = ([[CHR ''1'', CHR 0x00]], Inl (Exit (- 1)))"
proof -
  have "short_request ''bad'' ''a''" by (simp add: short_request_def)
  moreover have "env_disk sample_env (TORRENT_LOCATION @ ''bad'') = Some ''x''" by (simp add: sample_env_def)
  moreover have "case lazy_bdecode ''x'' 1000 of Some (Inr r, _) \<Rightarrow> r \<noteq> 0 | _ \<Rightarrow> False" by code_simp
  then obtain ret e where "lazy_bdecode ''x'' 1000 = Some (Inr ret, e)" "ret \<noteq> 0"
    by (auto split: option.splits sum.splits)
  ultimately show ?thesis
    using broken_torrent_exits [of "''bad''" "''a''" sample_env 7 "''x''" ret e 3] by simp
qed

theorem index_written_anywhere_witness:
  "\<exists>content. d_events (ms_daemon (snd (main_round 3 sample_env (request_bytes ''t/../../x'') (initial_state (replicate 101 (CHR ''?'')))))) =
    [Write_index ''../www/t/../../x/index.html'' content]"
proof -
  obtain ti where ti: "torrent_on_disk sample_env ''t'' ti" "length (m_files (ti_files ti)) = 4"
    "map fe_path (m_files (ti_files ti)) = [''t/a'', ''t/d/l'', ''t/d/m'', ''t/s'']" by (rule sample_torrent)
  have "fe_path ` set (m_files (ti_files ti)) = {''t/a'', ''t/d/l'', ''t/d/m'', ''t/s''}"
    using arg_cong [OF ti(3), of set] by simp
  then have "\<forall>e \<in> set (m_files (ti_files ti)). fe_path e \<in> {''t/a'', ''t/d/l'', ''t/d/m'', ''t/s''}" by blast
  then have "\<forall>e \<in> set (m_files (ti_files ti)). fe_path e \<noteq> ''t'' @ ''/'' @ ''../../x'' \<and>
      take (length (''t'' @ ''/'' @ ''../../x'' @ ''/'')) (fe_path e) \<noteq> ''t'' @ ''/'' @ ''../../x'' @ ''/''" by auto
  moreover have "short_request ''t'' ''../../x''" by (simp add: short_request_def)
  ultimately show ?thesis
    using index_written_anywhere [of "''t''" "''../../x''" sample_env ti 7 3 "initial_state (replicate 101 (CHR ''?''))"] ti(1,2)
    by simp
qed

end
