(* ===== verification/LighttpdModule.thy ===== *)
theory LighttpdModule
  imports StdString
begin

section \<open>The web server's module (\<open>im1/lighttpd-1.4.23/src/mod_instantmirror.c\<close>)\<close>

text \<open>
  The module of the web server that asks the daemon for the file behind a URL. The system calls
  are parameters: whether \<open>socket\<close>, \<open>connect\<close> and \<open>send\<close> succeed, and what the two calls of \<open>recv\<close>
  deliver after the bytes sent (\<open>None\<close> is an error, the empty string a closed connection, and
  \<open>Inl Diverges\<close> a call that blocks forever). The local arrays \<open>i\<close> and \<open>path\<close> are not initialised; their
  contents are parameters too. The log and the configuration, which the handler does not read, are left out.
\<close>

datatype handler_t = HANDLER_UNSET | HANDLER_GO_ON | HANDLER_FINISHED | HANDLER_COMEBACK | HANDLER_WAIT_FOR_EVENT
  | HANDLER_ERROR | HANDLER_WAIT_FOR_FD

datatype rewrite_state = REWRITE_STATE_UNSET | REWRITE_STATE_FINISHED

record handler_ctx =
  hc_state :: rewrite_state
  hc_loops :: int

record connection =
  con_uri_path :: string
  con_request_uri :: string
  con_plugin_ctx :: "handler_ctx option"
  con_open_sockets :: nat   \<comment> \<open>sockets to the daemon that were not closed\<close>

record module_env =
  me_socket :: bool
  me_connect :: bool
  me_send :: bool
  me_peer :: "string \<Rightarrow> string option result \<times> string option result"
  me_i :: string
  me_path :: string

definition handler_ctx_init :: handler_ctx where
  "handler_ctx_init = \<lparr>hc_state = REWRITE_STATE_UNSET, hc_loops = 0\<rparr>"

definition store_bytes :: "nat \<Rightarrow> string \<Rightarrow> string \<Rightarrow> string" where
  "store_bytes n data buf = take n data @ drop (length (take n data)) buf"

text \<open>\<open>recv\<close> into an array of \<open>n\<close> bytes; an error ends the process.\<close>

definition recv_array :: "nat \<Rightarrow> string option result \<Rightarrow> string \<Rightarrow> string result" where
  "recv_array n r buf =
     bind_result r (\<lambda>m. case m of None \<Rightarrow> Inl (Exit 1) | Some data \<Rightarrow> Inr (store_bytes n data buf))"

definition con_reset :: "connection \<Rightarrow> handler_t \<times> connection" where
  "con_reset con =
     (case con_plugin_ctx con of
        None \<Rightarrow> (HANDLER_GO_ON, con)
      | Some _ \<Rightarrow> (HANDLER_GO_ON, con\<lparr>con_plugin_ctx := None\<rparr>))"

text \<open>The handler from the call of \<open>socket\<close> on.\<close>

definition ask_daemon :: "module_env \<Rightarrow> connection \<Rightarrow> handler_t result \<times> connection" where
  "ask_daemon me con =
     (if \<not> me_socket me then (Inl (Exit 1), con)
      else
        let con1 = con\<lparr>con_open_sockets := con_open_sockets con + 1\<rparr> in
        if \<not> me_connect me then (Inl (Exit 1), con1)
        else if \<not> me_send me then (Inl (Exit 1), con1)
        else
          let (first, second) = me_peer me (c_str (con_uri_path con) @ [CHR 0x00]) in
          case recv_array 2 first (me_i me) of
            Inl e \<Rightarrow> (Inl e, con1)
          | Inr i \<Rightarrow>
              if take 2 i = [CHR ''0'', CHR 0x00] then (Inr HANDLER_GO_ON, con1)
              else
                (case bind_result (recv_array 100 second (me_path me)) (\<lambda>path. c_string_at path 0) of
                   Inl e \<Rightarrow> (Inl e, con1)
                 | Inr path \<Rightarrow>
                     let hctx = (case con_plugin_ctx con1 of None \<Rightarrow> handler_ctx_init | Some h \<Rightarrow> h) in
                     (Inr HANDLER_COMEBACK,
                      con1\<lparr>con_request_uri := path, con_open_sockets := con_open_sockets con1 - 1,
                           con_plugin_ctx := Some (hctx\<lparr>hc_state := REWRITE_STATE_FINISHED\<rparr>)\<rparr>)))"

definition uri_handler :: "module_env \<Rightarrow> connection \<Rightarrow> handler_t result \<times> connection" where
  "uri_handler me con =
     (case con_plugin_ctx con of
        None \<Rightarrow> ask_daemon me con
      | Some hctx \<Rightarrow>
          let con1 = con\<lparr>con_plugin_ctx := Some (hctx\<lparr>hc_loops := hc_loops hctx + 1\<rparr>)\<rparr> in
          if hc_loops hctx > 100 then (Inr HANDLER_ERROR, con1)
          else if hc_state hctx = REWRITE_STATE_FINISHED then (Inr HANDLER_GO_ON, con1)
          else ask_daemon me con1)"

subsection \<open>Properties\<close>

text \<open>
  The server runs the handlers of a request again as long as one of them returns \<open>HANDLER_COMEBACK\<close>: the
  results of the first \<open>n\<close> calls of the handler on one connection, each with its own environment.
\<close>

fun handler_calls :: "(nat \<Rightarrow> module_env) \<Rightarrow> nat \<Rightarrow> nat \<Rightarrow> connection \<Rightarrow> handler_t result list \<times> connection" where
  "handler_calls me k 0 con = ([], con)"
| "handler_calls me k (Suc n) con =
     (case uri_handler (me k) con of
        (Inr HANDLER_COMEBACK, con1) \<Rightarrow>
          (case handler_calls me (Suc k) n con1 of (rs, con2) \<Rightarrow> (Inr HANDLER_COMEBACK # rs, con2))
      | (r, con1) \<Rightarrow> ([r], con1))"

lemma ask_daemon_comeback:
  assumes "ask_daemon me con = (Inr HANDLER_COMEBACK, con')"
  shows "\<exists>h. con_plugin_ctx con' = Some h \<and> hc_state h = REWRITE_STATE_FINISHED \<and>
    hc_loops h = (case con_plugin_ctx con of None \<Rightarrow> 0 | Some h' \<Rightarrow> hc_loops h')"
  using assms
  by (auto simp: ask_daemon_def Let_def handler_ctx_init_def split: if_splits sum.splits prod.splits option.splits)

text \<open>
  C19: A request asks the daemon at most once. On a new connection, the handler returns
  \<open>HANDLER_COMEBACK\<close> at most for its first call, and the second call lets the request go on with the URI that the
  daemon gave; the server's loop over the handlers ends after two calls, far below the limit of 100.
\<close>

theorem handler_calls_end:
  assumes "con_plugin_ctx con = None" "handler_calls me 0 n con = (rs, con')"
  shows "length rs \<le> 2 \<and> (\<forall>r \<in> set (tl rs). r = Inr HANDLER_GO_ON)"
proof (cases n)
  case (Suc m)
  obtain r con1 where first: "uri_handler (me 0) con = (r, con1)" by (metis surj_pair)
  show ?thesis
  proof (cases "r = Inr HANDLER_COMEBACK")
    case True
    then have "ask_daemon (me 0) con = (Inr HANDLER_COMEBACK, con1)"
      using first assms(1) by (simp add: uri_handler_def)
    then obtain h where h: "con_plugin_ctx con1 = Some h" "hc_state h = REWRITE_STATE_FINISHED" "hc_loops h = 0"
      using ask_daemon_comeback assms(1) by fastforce
    have "handler_calls me (Suc 0) m con1 = (rs', con2) \<Longrightarrow> rs' = [] \<or> rs' = [Inr HANDLER_GO_ON]" for rs' con2
      using h by (cases m) (auto simp: uri_handler_def Let_def)
    then show ?thesis
      using assms(2) first True Suc by (auto split: prod.splits)
  next
    case False
    then have "rs = [r]"
      using assms(2) first Suc by (auto split: sum.splits handler_t.splits)
    then show ?thesis by simp
  qed
qed (use assms(2) in simp)

theorem handler_calls_end_witness:
  "fst (handler_calls (\<lambda>_. \<lparr>me_socket = True, me_connect = True, me_send = True,
        me_peer = (\<lambda>_. (Inr (Some [CHR ''1'', CHR 0x00]), Inr (Some (''t/a'' @ [CHR 0x00])))), me_i = ''??'', me_path = replicate 100 (CHR ''?'')\<rparr>) 0 9
      \<lparr>con_uri_path = ''/t/a'', con_request_uri = ''/t/a'', con_plugin_ctx = None, con_open_sockets = 0\<rparr>) =
    [Inr HANDLER_COMEBACK, Inr HANDLER_GO_ON]" (is "fst (handler_calls ?me 0 9 ?con) = _")
proof -
  have "length (fst (handler_calls ?me 0 9 ?con)) \<le> 2"
    using handler_calls_end [of ?con ?me 9] by (metis connection.select_convs(3) prod.collapse)
  moreover have "fst (handler_calls ?me 0 9 ?con) = [Inr HANDLER_COMEBACK, Inr HANDLER_GO_ON]" by code_simp
  ultimately show ?thesis by simp
qed

end
