(* ===== verification/IpFilter.thy ===== *)
theory IpFilter
  imports Prelude
begin

section \<open>Address and port filters (\<open>libtorrent/include/libtorrent/ip_filter.hpp\<close>, \<open>libtorrent/src/ip_filter.cpp\<close>)\<close>

text \<open>
  The filter that decides which peers a session talks to. A filter is an ordered set of the starts of ranges, each with the
  access flags of its range; a range ends where the next one starts. The class template \<open>filter_impl\<close> has the
  address type as its parameter, and so have the definitions here: \<open>addr_ops\<close> holds the four functions that
  it calls on addresses, and the locale \<open>address_range\<close> is what it relies on. The two address families and the
  port numbers are its interpretations.
\<close>

subsection \<open>Addresses\<close>

record 'a addr_ops =
  ao_zero :: 'a
  ao_plus_one :: "'a \<Rightarrow> 'a"
  ao_minus_one :: "'a \<Rightarrow> 'a"
  ao_max_addr :: 'a

text \<open>
  \<open>boost::array<unsigned char, N>\<close>: lists of bytes, compared lexicographically. The loops of
  \<open>plus_one\<close> and \<open>minus_one\<close> run from the last byte to the first.
\<close>

type_synonym bytes_type = "8 word list"

definition zero_bytes :: "nat \<Rightarrow> bytes_type" where
  "zero_bytes n = replicate n 0"

definition max_bytes :: "nat \<Rightarrow> bytes_type" where
  "max_bytes n = replicate n 255"

fun plus_one_loop :: "bytes_type \<Rightarrow> bytes_type" where
  "plus_one_loop [] = []"
| "plus_one_loop (b # bs) = (if b < 255 then (b + 1) # bs else 0 # plus_one_loop bs)"

definition plus_one_bytes :: "bytes_type \<Rightarrow> bytes_type" where
  "plus_one_bytes a = rev (plus_one_loop (rev a))"

fun minus_one_loop :: "bytes_type \<Rightarrow> bytes_type" where
  "minus_one_loop [] = []"
| "minus_one_loop (b # bs) = (if b > 0 then (b - 1) # bs else 255 # minus_one_loop bs)"

definition minus_one_bytes :: "bytes_type \<Rightarrow> bytes_type" where
  "minus_one_bytes a = rev (minus_one_loop (rev a))"

definition bytes_ops :: "nat \<Rightarrow> bytes_type addr_ops" where
  "bytes_ops n = \<lparr>ao_zero = zero_bytes n, ao_plus_one = plus_one_bytes, ao_minus_one = minus_one_bytes, ao_max_addr = max_bytes n\<rparr>"

definition port_ops :: "16 word addr_ops" where
  "port_ops = \<lparr>ao_zero = 0, ao_plus_one = (\<lambda>val. val + 1), ao_minus_one = (\<lambda>val. val - 1), ao_max_addr = 65535\<rparr>"

subsection \<open>The ordered set\<close>

text \<open>
  \<open>std::set<range>\<close> is the list of its elements in order. An iterator of the set stays valid when other elements
  are inserted or erased; it is the start of its element, or \<open>None\<close> for the end. Moving an iterator before the beginning
  and reading at the end are faults.
\<close>

type_synonym 'a range_set = "('a \<times> int) list"

definition set_begin :: "'a range_set \<Rightarrow> 'a option" where
  "set_begin l = (case l of [] \<Rightarrow> None | r # _ \<Rightarrow> Some (fst r))"

definition set_upper_bound :: "'a::linorder \<Rightarrow> 'a range_set \<Rightarrow> 'a option" where
  "set_upper_bound a l = set_begin (dropWhile (\<lambda>r. fst r \<le> a) l)"

definition iter_prior :: "'a option \<Rightarrow> 'a range_set \<Rightarrow> 'a option result" where
  "iter_prior i l =
     (case takeWhile (\<lambda>r. Some (fst r) \<noteq> i) l of [] \<Rightarrow> Inl Out_of_bounds | rs \<Rightarrow> Inr (Some (fst (last rs))))"

definition iter_access :: "'a option \<Rightarrow> 'a range_set \<Rightarrow> int result" where
  "iter_access i l = (case Option.bind i (map_of l) of None \<Rightarrow> Inl Out_of_bounds | Some a \<Rightarrow> Inr a)"

definition set_insert :: "'a::linorder \<times> int \<Rightarrow> 'a range_set \<Rightarrow> 'a range_set" where
  "set_insert r l =
     (if fst r \<in> fst ` set l then l else takeWhile (\<lambda>x. fst x < fst r) l @ r # dropWhile (\<lambda>x. fst x < fst r) l)"

text \<open>\<open>erase(next(i), j)\<close>, where \<open>j\<close> must not be before \<open>next(i)\<close>.\<close>

definition erase_between :: "'a::linorder option \<Rightarrow> 'a option \<Rightarrow> 'a range_set \<Rightarrow> 'a range_set result" where
  "erase_between i j l =
     (case i of
        None \<Rightarrow> Inl Out_of_bounds
      | Some a \<Rightarrow>
          (case j of
             None \<Rightarrow> Inr (filter (\<lambda>r. fst r \<le> a) l)
           | Some b \<Rightarrow> if b < a then Inl Out_of_bounds else Inr (filter (\<lambda>r. fst r \<le> a \<or> b \<le> fst r) l)))"

definition set_access :: "'a \<Rightarrow> int \<Rightarrow> 'a range_set \<Rightarrow> 'a range_set" where
  "set_access a flags l = map (\<lambda>r. if fst r = a then (a, flags) else r) l"

definition set_erase :: "'a \<Rightarrow> 'a range_set \<Rightarrow> 'a range_set" where
  "set_erase a l = filter (\<lambda>r. fst r \<noteq> a) l"

subsection \<open>\<open>filter_impl\<close>\<close>

definition filter_impl_init :: "'a addr_ops \<Rightarrow> 'a range_set" where
  "filter_impl_init ops = [(ao_zero ops, 0)]"

text \<open>\<open>add_rule\<close> in its three steps: where the range starts, the ranges that it replaces, and what is left of the last of them.\<close>

definition rule_start :: "'a::linorder \<Rightarrow> int \<Rightarrow> 'a option \<Rightarrow> int \<Rightarrow> 'a range_set \<Rightarrow> ('a range_set \<times> 'a option \<times> int) result" where
  "rule_start first flags i first_access l =
     (if i \<noteq> Some first \<and> first_access \<noteq> flags then Inr (set_insert (first, flags) l, Some first, first_access)
      else if i \<noteq> set_begin l then
        bind_result (iter_prior i l) (\<lambda>p.
        bind_result (iter_access p l) (\<lambda>a.
          if a = flags then Inr (l, p, a) else Inr (l, i, first_access)))
      else Inr (l, i, first_access))"

definition rule_replace :: "'a::linorder \<Rightarrow> int \<Rightarrow> 'a option \<Rightarrow> 'a option \<Rightarrow> int \<Rightarrow> 'a range_set \<Rightarrow> 'a range_set result" where
  "rule_replace first flags i j first_access l =
     bind_result (if i \<noteq> j then erase_between i j l else Inr l) (\<lambda>l.
       if i = Some first then Inr (set_access first flags l)
       else if first_access \<noteq> flags then Inr (set_insert (first, flags) l)
       else Inr l)"

definition rule_end :: "'a::linorder addr_ops \<Rightarrow> 'a \<Rightarrow> int \<Rightarrow> 'a option \<Rightarrow> int \<Rightarrow> 'a range_set \<Rightarrow> 'a range_set result" where
  "rule_end ops last' flags j last_access l =
     (let (l, j) =
        (if (case j of Some b \<Rightarrow> ao_minus_one ops b \<noteq> last' | None \<Rightarrow> last' \<noteq> ao_max_addr ops) \<and> last_access \<noteq> flags
         then (set_insert (ao_plus_one ops last', last_access) l, Some (ao_plus_one ops last'))
         else (l, j))
      in case j of
           None \<Rightarrow> Inr l
         | Some b \<Rightarrow> bind_result (iter_access j l) (\<lambda>a. Inr (if a = flags then set_erase b l else l)))"

definition add_rule :: "'a::linorder addr_ops \<Rightarrow> 'a \<Rightarrow> 'a \<Rightarrow> int \<Rightarrow> 'a range_set \<Rightarrow> 'a range_set result" where
  "add_rule ops first last' flags l =
     (let i = set_upper_bound first l; j = set_upper_bound last' l in
      bind_result (if i \<noteq> set_begin l then iter_prior i l else Inr i) (\<lambda>i.
      bind_result (iter_access i l) (\<lambda>first_access.
      bind_result (bind_result (iter_prior j l) (\<lambda>p. iter_access p l)) (\<lambda>last_access.
      bind_result (rule_start first flags i first_access l) (\<lambda>(l, i, first_access).
      bind_result (rule_replace first flags i j first_access l) (\<lambda>l.
        rule_end ops last' flags j last_access l))))))"

definition access :: "'a::linorder \<Rightarrow> 'a range_set \<Rightarrow> int result" where
  "access addr l =
     (let i = set_upper_bound addr l in
      bind_result (if i \<noteq> set_begin l then iter_prior i l else Inr i) (\<lambda>i. iter_access i l))"

record 'a ip_range =
  ir_first :: 'a
  ir_last :: 'a
  ir_flags :: int

fun export_filter :: "'a addr_ops \<Rightarrow> 'a range_set \<Rightarrow> 'a ip_range list" where
  "export_filter ops [] = []"
| "export_filter ops [(s, a)] = [\<lparr>ir_first = s, ir_last = ao_max_addr ops, ir_flags = a\<rparr>]"
| "export_filter ops ((s, a) # r # rs) =
     \<lparr>ir_first = s, ir_last = ao_minus_one ops (fst r), ir_flags = a\<rparr> # export_filter ops (r # rs)"

subsection \<open>\<open>ip_filter\<close> and \<open>port_filter\<close>\<close>

datatype address = V4 bytes_type | V6 bytes_type

record ip_filter =
  m_filter4 :: "bytes_type range_set"
  m_filter6 :: "bytes_type range_set"

definition ip_filter_init :: ip_filter where
  "ip_filter_init = \<lparr>m_filter4 = filter_impl_init (bytes_ops 4), m_filter6 = filter_impl_init (bytes_ops 16)\<rparr>"

text \<open>\<open>to_v4\<close> and \<open>to_v6\<close> throw on an address of the other family.\<close>

definition to_v4 :: "address \<Rightarrow> bytes_type result" where
  "to_v4 a = (case a of V4 b \<Rightarrow> Inr b | V6 _ \<Rightarrow> Inl (Thrown ''address_family_not_supported''))"

definition to_v6 :: "address \<Rightarrow> bytes_type result" where
  "to_v6 a = (case a of V6 b \<Rightarrow> Inr b | V4 _ \<Rightarrow> Inl (Thrown ''address_family_not_supported''))"

definition ip_filter_add_rule :: "address \<Rightarrow> address \<Rightarrow> int \<Rightarrow> ip_filter \<Rightarrow> ip_filter result" where
  "ip_filter_add_rule first last' flags f =
     (case first of
        V4 a \<Rightarrow>
          bind_result (to_v4 last') (\<lambda>b.
          bind_result (add_rule (bytes_ops 4) a b flags (m_filter4 f)) (\<lambda>l. Inr (f\<lparr>m_filter4 := l\<rparr>)))
      | V6 a \<Rightarrow>
          bind_result (to_v6 last') (\<lambda>b.
          bind_result (add_rule (bytes_ops 16) a b flags (m_filter6 f)) (\<lambda>l. Inr (f\<lparr>m_filter6 := l\<rparr>))))"

definition ip_filter_access :: "address \<Rightarrow> ip_filter \<Rightarrow> int result" where
  "ip_filter_access addr f = (case addr of V4 a \<Rightarrow> access a (m_filter4 f) | V6 a \<Rightarrow> access a (m_filter6 f))"

definition ip_filter_export :: "ip_filter \<Rightarrow> bytes_type ip_range list \<times> bytes_type ip_range list" where
  "ip_filter_export f = (export_filter (bytes_ops 4) (m_filter4 f), export_filter (bytes_ops 16) (m_filter6 f))"

definition port_filter_add_rule :: "16 word \<Rightarrow> 16 word \<Rightarrow> int \<Rightarrow> 16 word range_set \<Rightarrow> 16 word range_set result" where
  "port_filter_add_rule first last' flags f = add_rule port_ops first last' flags f"

definition port_filter_access :: "16 word \<Rightarrow> 16 word range_set \<Rightarrow> int result" where
  "port_filter_access port f = access port f"

subsection \<open>What a filter relies on\<close>

text \<open>
  The contract between \<open>filter_impl\<close> and its address type: the addresses are bounded by \<open>zero\<close> and \<open>max_addr\<close>, and
  \<open>plus_one\<close> and \<open>minus_one\<close> are the next and the previous address.
\<close>

locale address_range =
  fixes ops :: "'a::linorder addr_ops" and valid :: "'a \<Rightarrow> bool"
  assumes zero_valid: "valid (ao_zero ops)" and zero_le: "valid a \<Longrightarrow> ao_zero ops \<le> a"
    and max_valid: "valid (ao_max_addr ops)" and le_max: "valid a \<Longrightarrow> a \<le> ao_max_addr ops"
    and plus_one_valid: "valid a \<Longrightarrow> a \<noteq> ao_max_addr ops \<Longrightarrow> valid (ao_plus_one ops a)"
    and plus_one_le: "valid a \<Longrightarrow> a \<noteq> ao_max_addr ops \<Longrightarrow> valid b \<Longrightarrow> ao_plus_one ops a \<le> b \<longleftrightarrow> a < b"
    and minus_one_valid: "valid b \<Longrightarrow> b \<noteq> ao_zero ops \<Longrightarrow> valid (ao_minus_one ops b)"
    and le_minus_one: "valid b \<Longrightarrow> b \<noteq> ao_zero ops \<Longrightarrow> valid a \<Longrightarrow> a \<le> ao_minus_one ops b \<longleftrightarrow> a < b"

text \<open>The number that an array of bytes stands for, with the first byte as the highest.\<close>

fun bytes_value :: "bytes_type \<Rightarrow> int" where
  "bytes_value [] = 0"
| "bytes_value (b # bs) = uint b * 256 ^ length bs + bytes_value bs"

lemma bytes_value_append: "bytes_value (xs @ ys) = bytes_value xs * 256 ^ length ys + bytes_value ys"
  by (induction xs) (simp_all add: power_add algebra_simps)

lemma byte_bounds: "0 \<le> uint (b :: 8 word)" "uint (b :: 8 word) < 256"
  using uint_lt2p [of b] by auto

lemma bytes_value_bounds: "0 \<le> bytes_value bs \<and> bytes_value bs < 256 ^ length bs"
proof (induction bs)
  case (Cons b bs)
  have "uint b * 256 ^ length bs \<le> 255 * 256 ^ length bs"
    using byte_bounds [of b] by (intro mult_right_mono) auto
  moreover have "0 \<le> uint b * 256 ^ length bs" using byte_bounds [of b] by simp
  moreover have "(256 :: int) ^ length (b # bs) = 256 * 256 ^ length bs" by simp
  ultimately show ?case using Cons unfolding bytes_value.simps by linarith
qed simp

lemma bytes_less_iff: "length xs = length ys \<Longrightarrow> xs < ys \<longleftrightarrow> bytes_value xs < bytes_value ys"
proof (induction xs ys rule: list_induct2)
  case (Cons x xs y ys)
  define k :: int where "k = 256 ^ length ys"
  have b: "0 \<le> bytes_value xs" "bytes_value xs < k" "0 \<le> bytes_value ys" "bytes_value ys < k"
    using bytes_value_bounds [of xs] bytes_value_bounds [of ys] Cons(1) by (auto simp: k_def)
  have step: "uint a * k + v < uint c * k + w" if "a < c" "v < k" "0 \<le> w" for a c :: "8 word" and v w
  proof -
    have "(uint a + 1) * k \<le> uint c * k"
      using that(1) b(1,2) by (intro mult_right_mono) (auto simp: word_less_def)
    then show ?thesis using that(2,3) by (simp add: algebra_simps)
  qed
  consider "x < y" | "x = y" | "y < x" by (rule linorder_cases)
  then show ?case
  proof cases
    case 1
    then show ?thesis using step [OF 1 b(2,3)] Cons(1) by (simp add: k_def)
  next
    case 2
    then show ?thesis using Cons by simp
  next
    case 3
    then have "\<not> x # xs < y # ys" by auto
    then show ?thesis using step [OF 3 b(4,1)] Cons(1) by (simp add: k_def)
  qed
qed simp

lemma bytes_le_iff: "length xs = length ys \<Longrightarrow> xs \<le> ys \<longleftrightarrow> bytes_value xs \<le> bytes_value ys"
  using bytes_less_iff [of ys xs] by (simp add: not_less flip: not_less)

lemma bytes_eq_iff: "length xs = length ys \<Longrightarrow> xs = ys \<longleftrightarrow> bytes_value xs = bytes_value ys"
  by (metis bytes_le_iff order.antisym order_refl)

lemma length_plus_one_loop [simp]: "length (plus_one_loop bs) = length bs"
  by (induction bs) auto

lemma length_minus_one_loop [simp]: "length (minus_one_loop bs) = length bs"
  by (induction bs) auto

lemma byte_steps:
  fixes b :: "8 word"
  shows "b < 255 \<Longrightarrow> uint b < 255 \<and> uint (b + 1) = uint b + 1" "\<not> b < 255 \<Longrightarrow> uint b = 255"
    and "0 < b \<Longrightarrow> 0 < uint b \<and> uint (b - 1) = uint b - 1" "\<not> 0 < b \<Longrightarrow> b = 0"
  using byte_bounds [of b] by (auto simp: word_less_def uint_plus_if' uint_sub_if' uint_0_iff)

lemma bytes_value_plus_one:
  "bytes_value (rev (plus_one_loop bs)) = (if bytes_value (rev bs) = 256 ^ length bs - 1 then 0 else bytes_value (rev bs) + 1)"
proof (induction bs)
  case (Cons b bs)
  then show ?case
    using byte_steps(1,2) [of b] byte_bounds [of b] bytes_value_bounds [of "rev bs"]
    by (auto simp: bytes_value_append)
qed simp

lemma bytes_value_minus_one:
  "bytes_value (rev (minus_one_loop bs)) = (if bytes_value (rev bs) = 0 then 256 ^ length bs - 1 else bytes_value (rev bs) - 1)"
proof (induction bs)
  case (Cons b bs)
  then show ?case
    using byte_steps(3,4) [of b] byte_bounds [of b] bytes_value_bounds [of "rev bs"]
    by (cases "0 < b") (auto simp: bytes_value_append)
qed simp

lemma bytes_value_zero: "bytes_value (replicate n 0) = 0"
  by (induction n) auto

lemma bytes_value_max: "bytes_value (replicate n 255) = 256 ^ n - 1"
  by (induction n) auto

lemma bytes_range: "address_range (bytes_ops n) (\<lambda>a. length a = n)"
proof
  fix a b :: bytes_type
  assume n: "length a = n" "length b = n"
  note iff = bytes_le_iff [of a b] bytes_less_iff [of a b] n
  show "a \<noteq> ao_max_addr (bytes_ops n) \<Longrightarrow> (ao_plus_one (bytes_ops n) a \<le> b) = (a < b)"
    using iff bytes_le_iff [of "plus_one_bytes a" b] bytes_eq_iff [of a "max_bytes n"] bytes_value_plus_one [of "rev a"]
    by (auto simp: bytes_ops_def plus_one_bytes_def max_bytes_def bytes_value_max)
next
  fix a b :: bytes_type
  assume n: "length b = n" "length a = n"
  show "b \<noteq> ao_zero (bytes_ops n) \<Longrightarrow> (a \<le> ao_minus_one (bytes_ops n) b) = (a < b)"
    using n bytes_less_iff [of a b] bytes_le_iff [of a "minus_one_bytes b"] bytes_eq_iff [of b "zero_bytes n"] bytes_value_minus_one [of "rev b"]
    by (auto simp: bytes_ops_def minus_one_bytes_def zero_bytes_def bytes_value_zero)
next
  fix a :: bytes_type
  assume n: "length a = n"
  show "ao_zero (bytes_ops n) \<le> a" "a \<le> ao_max_addr (bytes_ops n)"
    using n bytes_le_iff [of "zero_bytes n" a] bytes_le_iff [of a "max_bytes n"] bytes_value_bounds [of a]
    by (auto simp: bytes_ops_def zero_bytes_def max_bytes_def bytes_value_zero bytes_value_max)
qed (auto simp: bytes_ops_def zero_bytes_def max_bytes_def plus_one_bytes_def minus_one_bytes_def)

interpretation v4: address_range "bytes_ops 4" "\<lambda>a. length a = 4"
  by (rule bytes_range)

interpretation v6: address_range "bytes_ops 16" "\<lambda>a. length a = 16"
  by (rule bytes_range)

interpretation port: address_range port_ops "\<lambda>_. True"
proof
  fix a b :: "16 word"
  have a: "0 \<le> uint a" "uint a < 65536" and b: "0 \<le> uint b" "uint b < 65536"
    using uint_lt2p [of a] uint_lt2p [of b] by auto
  have nonzero: "1 \<le> uint b" if "b \<noteq> 0" by (metis that b(1) int_one_le_iff_zero_less order_le_less uint_0_iff)
  show "ao_zero port_ops \<le> a" "a \<le> ao_max_addr port_ops"
    using a by (auto simp: port_ops_def word_le_def)
  show "a \<noteq> ao_max_addr port_ops \<Longrightarrow> (ao_plus_one port_ops a \<le> b) = (a < b)"
    using a b by (auto simp: port_ops_def word_le_def word_less_def uint_plus_if' word_uint_eq_iff)
  show "b \<noteq> ao_zero port_ops \<Longrightarrow> (a \<le> ao_minus_one port_ops b) = (a < b)"
    using a b nonzero by (auto simp: port_ops_def word_le_def word_less_def uint_sub_if')
qed auto

subsection \<open>The set as a map of ranges\<close>

text \<open>
  What every filter satisfies: the first range starts at \<open>zero\<close>, the starts are ordered, and neighbours have
  different flags. \<open>access_of\<close> reads off the flags of an address: those of the last range that starts at or before it.
\<close>

abbreviation ascending :: "'a::linorder range_set \<Rightarrow> bool" where
  "ascending \<equiv> sorted_wrt (\<lambda>r r'. fst r < fst r')"

abbreviation alternating :: "'a range_set \<Rightarrow> bool" where
  "alternating \<equiv> successively (\<lambda>r r'. snd r \<noteq> snd r')"

definition filter_ok :: "'a::linorder addr_ops \<Rightarrow> ('a \<Rightarrow> bool) \<Rightarrow> 'a range_set \<Rightarrow> bool" where
  "filter_ok ops valid l \<longleftrightarrow>
     l \<noteq> [] \<and> fst (hd l) = ao_zero ops \<and> ascending l \<and> alternating l \<and> (\<forall>r \<in> set l. valid (fst r))"

definition access_of :: "'a::linorder \<Rightarrow> 'a range_set \<Rightarrow> int" where
  "access_of a l = snd (last (filter (\<lambda>r. fst r \<le> a) l))"

lemma ascending_split:
  "ascending l \<Longrightarrow> takeWhile (\<lambda>r. fst r \<le> a) l = filter (\<lambda>r. fst r \<le> a) l \<and>
     dropWhile (\<lambda>r. fst r \<le> a) l = filter (\<lambda>r. a < fst r) l"
proof (induction l)
  case (Cons r l)
  have "filter (\<lambda>r. fst r \<le> a) l = []" "filter (\<lambda>r. a < fst r) l = l" if "\<not> fst r \<le> a"
    using Cons.prems that by (force simp: filter_empty_conv filter_id_conv)+
  then show ?case using Cons by auto
qed simp

lemma ascending_distinct: "ascending l \<Longrightarrow> distinct (map fst l)"
  by (induction l) auto

lemma ascending_sorted: "ascending l \<Longrightarrow> sorted (map fst l)"
  by (induction l) (auto simp: less_imp_le)

lemma filter_at:
  assumes "ascending (xs @ (s, a) # ys)"
  shows "filter (\<lambda>x. fst x \<le> s) (xs @ (s, a) # ys) = xs @ [(s, a)]" "filter (\<lambda>x. fst x < s) (xs @ (s, a) # ys) = xs"
proof -
  have "\<forall>x \<in> set xs. fst x < s" "\<forall>x \<in> set ys. s < fst x" using assms by (auto simp: sorted_wrt_append)
  then have "filter (\<lambda>x. fst x \<le> s) xs = xs" "filter (\<lambda>x. fst x < s) xs = xs"
    "filter (\<lambda>x. fst x \<le> s) ys = []" "filter (\<lambda>x. fst x < s) ys = []"
    by (intro filter_True filter_False; force)+
  then show "filter (\<lambda>x. fst x \<le> s) (xs @ (s, a) # ys) = xs @ [(s, a)]" "filter (\<lambda>x. fst x < s) (xs @ (s, a) # ys) = xs"
    by simp_all
qed

lemma iter_access_mem: "ascending l \<Longrightarrow> (s, a) \<in> set l \<Longrightarrow> iter_access (Some s) l = Inr a"
  by (simp add: iter_access_def map_of_is_SomeI ascending_distinct)

lemma iter_last:
  assumes "ascending (F @ D)" "F \<noteq> []"
  shows "iter_prior (set_begin D) (F @ D) = Inr (Some (fst (last F)))" "set_begin D \<noteq> set_begin (F @ D)"
    and "iter_access (Some (fst (last F))) (F @ D) = Inr (snd (last F))"
proof -
  have "takeWhile (\<lambda>r. Some (fst r) \<noteq> set_begin D) (F @ D) = F"
    using assms(1) by (cases D) (force simp: set_begin_def sorted_wrt_append takeWhile_append)+
  then show "iter_prior (set_begin D) (F @ D) = Inr (Some (fst (last F)))"
    using assms(2) by (simp add: iter_prior_def split: list.split)
  show "set_begin D \<noteq> set_begin (F @ D)"
    using assms by (cases D; cases F) (auto simp: set_begin_def)
  show "iter_access (Some (fst (last F))) (F @ D) = Inr (snd (last F))"
    using assms by (intro iter_access_mem) auto
qed

subsection \<open>\<open>add_rule\<close>\<close>

text \<open>
  A rule for the addresses from \<open>first\<close> to \<open>last'\<close> splits the set in four: the ranges \<open>pre\<close> before the one that
  holds \<open>first\<close>, that range \<open>(s, fa)\<close>, the ranges \<open>mid\<close> that start in the rule, and the ranges \<open>post\<close> behind it.
\<close>

definition rule_split :: "'a::linorder \<Rightarrow> 'a \<Rightarrow> 'a range_set \<Rightarrow> 'a \<times> int \<Rightarrow> 'a range_set \<Rightarrow> 'a range_set \<Rightarrow> bool" where
  "rule_split first last' pre r mid post \<longleftrightarrow>
     ascending (pre @ r # mid @ post) \<and> fst r \<le> first \<and> first \<le> last' \<and>
     (\<forall>x \<in> set mid. first < fst x \<and> fst x \<le> last') \<and> (\<forall>x \<in> set post. last' < fst x)"

text \<open>The list that the first two steps leave before \<open>post\<close>.\<close>

definition rule_head :: "'a \<Rightarrow> int \<Rightarrow> 'a range_set \<Rightarrow> 'a \<times> int \<Rightarrow> 'a range_set" where
  "rule_head first flags pre r =
     (if fst r \<noteq> first \<and> snd r \<noteq> flags then pre @ [r, (first, flags)]
      else if fst r \<noteq> first then pre @ [r]
      else if pre \<noteq> [] \<and> snd (last pre) = flags then pre
      else pre @ [(first, flags)])"

definition rule_tail :: "'a::linorder addr_ops \<Rightarrow> 'a \<Rightarrow> int \<Rightarrow> int \<Rightarrow> 'a range_set \<Rightarrow> 'a range_set" where
  "rule_tail ops last' flags last_access post =
     (if (case post of [] \<Rightarrow> last' \<noteq> ao_max_addr ops | r # _ \<Rightarrow> ao_minus_one ops (fst r) \<noteq> last') \<and> last_access \<noteq> flags
      then (ao_plus_one ops last', last_access) # post
      else case post of [] \<Rightarrow> [] | r # rs \<Rightarrow> if snd r = flags then rs else r # rs)"

lemma set_insert_middle:
  assumes "\<forall>x \<in> set xs. fst x < fst r" "\<forall>y \<in> set ys. fst r < fst y"
  shows "set_insert r (xs @ ys) = xs @ r # ys"
proof -
  have "takeWhile (\<lambda>x. fst x < fst r) ys = []" "dropWhile (\<lambda>x. fst x < fst r) ys = ys"
    using assms(2) by (cases ys; auto)+
  then have "takeWhile (\<lambda>x. fst x < fst r) (xs @ ys) = xs" "dropWhile (\<lambda>x. fst x < fst r) (xs @ ys) = ys"
    using assms(1) by simp_all
  moreover have "fst r \<notin> fst ` set (xs @ ys)" using assms by fastforce
  ultimately show ?thesis by (simp add: set_insert_def)
qed

lemma erase_between_middle:
  assumes "ascending (xs @ mid @ post)" "xs \<noteq> []"
  shows "erase_between (Some (fst (last xs))) (set_begin post) (xs @ mid @ post) = Inr (xs @ post)"
proof -
  define a where "a = fst (last xs)"
  have xs: "fst x \<le> a" if "x \<in> set xs" for x
    using assms that by (cases xs rule: rev_cases) (auto simp: a_def sorted_wrt_append less_imp_le)
  have rest: "\<not> fst x \<le> a" if "x \<in> set mid \<union> set post" for x
    using assms that by (auto simp: a_def sorted_wrt_append not_le)
  show ?thesis
  proof (cases post)
    case Nil
    have "filter (\<lambda>r. fst r \<le> a) xs = xs" "filter (\<lambda>r. fst r \<le> a) mid = []"
      using xs rest by (auto simp: filter_id_conv filter_empty_conv)
    then show ?thesis using Nil by (simp add: erase_between_def set_begin_def flip: a_def)
  next
    case (Cons p ps)
    have m: "fst x < fst p" if "x \<in> set mid" for x using assms(1) that Cons by (auto simp: sorted_wrt_append)
    have p: "fst p \<le> fst x" if "x \<in> set post" for x using assms(1) that Cons by (auto simp: sorted_wrt_append)
    have "filter (\<lambda>r. fst r \<le> a \<or> fst p \<le> fst r) xs = xs" "filter (\<lambda>r. fst r \<le> a \<or> fst p \<le> fst r) post = post"
      using xs p by (auto simp: filter_id_conv)
    moreover have "filter (\<lambda>r. fst r \<le> a \<or> fst p \<le> fst r) mid = []"
      using rest m by (auto simp: filter_empty_conv not_le)
    moreover have "\<not> fst p < a" using rest [of p] Cons by auto
    ultimately show ?thesis using Cons by (simp add: erase_between_def set_begin_def flip: a_def)
  qed
qed

lemma set_begin_greater: "\<forall>x \<in> set post. (a :: 'a::linorder) < fst x \<Longrightarrow> b \<le> a \<Longrightarrow> Some b \<noteq> set_begin post"
  by (cases post) (auto simp: set_begin_def dest: leD)

lemma rule_head_eq:
  assumes split: "rule_split first last' pre r mid post" and alt: "alternating (pre @ r # mid @ post)"
  shows "bind_result (rule_start first flags (Some (fst r)) (snd r) (pre @ r # mid @ post)) (\<lambda>(l, i, first_access).
    rule_replace first flags i (set_begin post) first_access l) = Inr (rule_head first flags pre r @ post)"
proof -
  let ?l = "pre @ r # mid @ post"
  have asc: "ascending ?l" and le: "fst r \<le> first" "first \<le> last'"
    and mid: "\<forall>x \<in> set mid. first < fst x" and post: "\<forall>x \<in> set post. last' < fst x"
    using split by (auto simp: rule_split_def)
  have j: "Some first \<noteq> set_begin post" "Some (fst r) \<noteq> set_begin post"
    using set_begin_greater [OF post] le by auto
  have rest: "\<forall>y \<in> set (mid @ post). first < fst y" using mid post le by force
  have pre: "fst x < fst r" if "x \<in> set pre" for x using asc that by (auto simp: sorted_wrt_append)
  have same: "map (\<lambda>r. if fst r = first then (first, flags) else r) xs = xs" if "\<forall>x \<in> set xs. fst x \<noteq> first" for xs
    using that by (induction xs) auto
  have acc: "set_access first flags (pre @ (first, a) # post) = pre @ (first, flags) # post" if "\<forall>x \<in> set pre. fst x < first" for a
    using that rest same by (fastforce simp: set_access_def)
  have prior: "iter_prior (Some (fst r)) ?l = Inr (Some (fst (last pre)))" "iter_access (Some (fst (last pre))) ?l = Inr (snd (last pre))"
    "Some (fst r) \<noteq> set_begin ?l" if "pre \<noteq> []"
    using iter_last [OF asc that] by (simp_all add: set_begin_def)
  have first: "set_begin ?l = Some (fst r)" if "pre = []" using that by (simp add: set_begin_def)
  have erase: "erase_between (Some (fst r)) (set_begin post) ?l = Inr (pre @ r # post)"
    using erase_between_middle [of "pre @ [r]" mid post] asc by simp
  consider (A) "fst r \<noteq> first" "snd r \<noteq> flags" | (B) "fst r = first" | (C) "fst r \<noteq> first" "snd r = flags" by blast
  then show ?thesis
  proof cases
    case A
    have ins: "set_insert (first, flags) ?l = (pre @ [r, (first, flags)]) @ mid @ post"
      using set_insert_middle [of "pre @ [r]" "(first, flags)" "mid @ post"] pre A(1) le(1) rest by force
    have asc': "ascending ((pre @ [r, (first, flags)]) @ mid @ post)"
      using asc A(1) le(1) rest pre by (force simp: sorted_wrt_append)
    have "map (\<lambda>r. if fst r = first then (first, flags) else r) pre = pre" "map (\<lambda>r. if fst r = first then (first, flags) else r) post = post"
      using pre A(1) le(1) rest by (intro same; force)+
    then show ?thesis
      using A j ins erase_between_middle [OF asc'] by (simp add: rule_start_def rule_replace_def rule_head_def set_access_def)
  next
    case B
    show ?thesis
    proof (cases "pre \<noteq> [] \<and> snd (last pre) = flags")
      case True
      then have "erase_between (Some (fst (last pre))) (set_begin post) ?l = Inr (pre @ post)"
        using erase_between_middle [of pre "r # mid" post] asc by simp
      moreover have "fst (last pre) < first" using True pre [of "last pre"] B by simp
      moreover from this have "Some (fst (last pre)) \<noteq> set_begin post" using set_begin_greater [OF post] le by simp
      ultimately show ?thesis
        using True B prior by (auto simp: rule_start_def rule_replace_def rule_head_def)
    next
      case False
      then have "rule_start first flags (Some (fst r)) (snd r) ?l = Inr (?l, Some (fst r), snd r)"
        using B prior first by (cases "pre = []") (simp_all add: rule_start_def)
      then show ?thesis
        using False B j erase acc [of "snd r"] pre by (cases r) (auto simp: rule_replace_def rule_head_def)
    qed
  next
    case C
    have "pre \<noteq> [] \<Longrightarrow> snd (last pre) \<noteq> flags" using alt C by (auto simp: successively_append_iff)
    then have "rule_start first flags (Some (fst r)) (snd r) ?l = Inr (?l, Some (fst r), snd r)"
      using C prior first by (cases "pre = []") (simp_all add: rule_start_def)
    then show ?thesis using C j erase by (simp add: rule_replace_def rule_head_def)
  qed
qed

text \<open>The head ends with the flags of the rule, keeps the flags of the addresses before it, and is in order.\<close>

lemma rule_head_props:
  fixes flags
  assumes split: "rule_split first last' pre r mid post" and alt: "alternating (pre @ r # mid @ post)"
    and "a0 = fst (hd (pre @ [r]))" "\<forall>x \<in> set (pre @ [r]). valid (fst x)" "valid first"
  defines "head \<equiv> rule_head first flags pre r"
  shows "head \<noteq> []" "fst (hd head) = a0" "ascending head" "alternating head" "\<forall>x \<in> set head. valid (fst x) \<and> fst x \<le> first"
    and "snd (last head) = flags"
    and "a < first \<Longrightarrow> a0 \<le> a \<Longrightarrow> filter (\<lambda>x. fst x \<le> a) head = filter (\<lambda>x. fst x \<le> a) (pre @ [r])"
proof -
  have pre: "fst x < fst r" if "x \<in> set pre" for x using split that by (auto simp: rule_split_def sorted_wrt_append)
  have le: "fst r \<le> first" using split by (simp add: rule_split_def)
  have prele: "fst x \<le> first" if "x \<in> set pre" for x using pre [OF that] le by simp
  have asc: "ascending (pre @ [r])" using split by (auto simp: rule_split_def sorted_wrt_append)
  have alt': "alternating (pre @ [r])" "alternating pre" "pre \<noteq> [] \<Longrightarrow> snd (last pre) \<noteq> snd r"
    using alt by (auto simp: successively_append_iff successively_Cons)
  show "head \<noteq> []" by (auto simp: head_def rule_head_def)
  show "fst (hd head) = a0" using assms(3) by (cases pre) (auto simp: head_def rule_head_def)
  show "ascending head" using asc pre le by (fastforce simp: head_def rule_head_def sorted_wrt_append)
  show "alternating head" using alt' by (auto simp: head_def rule_head_def successively_append_iff)
  show "\<forall>x \<in> set head. valid (fst x) \<and> fst x \<le> first"
    using assms(4,5) prele le by (auto simp: head_def rule_head_def)
  show "snd (last head) = flags" by (auto simp: head_def rule_head_def)
  show "filter (\<lambda>x. fst x \<le> a) head = filter (\<lambda>x. fst x \<le> a) (pre @ [r])" if "a < first" "a0 \<le> a"
    using that by (auto simp: head_def rule_head_def)
qed

lemma rule_end_eq:
  assumes "ascending (head @ post)" "\<forall>x \<in> set head. fst x \<le> last'" "\<forall>x \<in> set post. last' < fst x"
    and plus: "\<forall>x \<in> set post. ao_minus_one ops (fst (hd post)) \<noteq> last' \<longrightarrow> ao_plus_one ops last' < fst x"
      "post \<noteq> [] \<or> last' \<noteq> ao_max_addr ops \<Longrightarrow> last' < ao_plus_one ops last'"
  shows "rule_end ops last' flags (set_begin post) last_access (head @ post) =
    Inr (head @ rule_tail ops last' flags last_access post)"
proof (cases "(case post of [] \<Rightarrow> last' \<noteq> ao_max_addr ops | r # _ \<Rightarrow> ao_minus_one ops (fst r) \<noteq> last') \<and> last_access \<noteq> flags")
  case True
  let ?n = "(ao_plus_one ops last', last_access)"
  have gt: "last' < fst ?n" using True plus(2) by (cases post) auto
  have post: "\<forall>x \<in> set post. fst ?n < fst x" using True plus(1) by (cases post) auto
  have head: "\<forall>x \<in> set head. fst x < fst ?n" using assms(2) gt by force
  have "ascending (head @ ?n # post)" using assms(1) post head by (force simp: sorted_wrt_append)
  then have "iter_access (Some (fst ?n)) (head @ ?n # post) = Inr last_access" by (intro iter_access_mem) auto
  then show ?thesis
    using True set_insert_middle [OF head post]
    by (cases post) (auto simp: rule_end_def rule_tail_def set_begin_def)
next
  case False
  show ?thesis
  proof (cases post)
    case (Cons p ps)
    have "iter_access (Some (fst p)) (head @ post) = Inr (snd p)"
      using assms(1) Cons by (intro iter_access_mem) auto
    moreover have "set_erase (fst p) (head @ post) = head @ ps"
    proof -
      have "\<forall>x \<in> set head. fst x \<noteq> fst p" "\<forall>x \<in> set ps. fst x \<noteq> fst p"
        using assms(1) Cons by (fastforce simp: sorted_wrt_append)+
      then show ?thesis using Cons by (auto simp: set_erase_def filter_id_conv)
    qed
    ultimately show ?thesis
      using False Cons by (auto simp: rule_end_def rule_tail_def set_begin_def)
  qed (use False in \<open>auto simp: rule_end_def rule_tail_def set_begin_def\<close>)
qed

context address_range
begin

lemma filter_okD:
  assumes "filter_ok ops valid l"
  shows "l \<noteq> []" "fst (hd l) = ao_zero ops" "ascending l" "alternating l" "\<And>r. r \<in> set l \<Longrightarrow> valid (fst r)"
  using assms by (auto simp: filter_ok_def)

lemma filter_ok_init: "filter_ok ops valid (filter_impl_init ops)"
  by (simp add: filter_ok_def filter_impl_init_def zero_valid)

text \<open>The ranges at or before an address are an initial part of the set, and not empty.\<close>

lemma filter_split:
  assumes "filter_ok ops valid l" "valid a"
  shows "l = filter (\<lambda>r. fst r \<le> a) l @ filter (\<lambda>r. a < fst r) l" "filter (\<lambda>r. fst r \<le> a) l \<noteq> []"
    and "set_upper_bound a l = set_begin (filter (\<lambda>r. a < fst r) l)"
proof -
  note split = ascending_split [OF filter_okD(3) [OF assms(1)], of a]
  show "l = filter (\<lambda>r. fst r \<le> a) l @ filter (\<lambda>r. a < fst r) l"
    using split takeWhile_dropWhile_id [of "\<lambda>r. fst r \<le> a" l] by simp
  have "hd l \<in> set l" "fst (hd l) \<le> a" using filter_okD(1,2) [OF assms(1)] zero_le [OF assms(2)] by simp_all
  then show "filter (\<lambda>r. fst r \<le> a) l \<noteq> []" by (auto simp: filter_empty_conv)
  show "set_upper_bound a l = set_begin (filter (\<lambda>r. a < fst r) l)" using split by (simp add: set_upper_bound_def)
qed

lemma access_eq:
  assumes "filter_ok ops valid l" "valid a"
  shows "access a l = Inr (access_of a l)"
proof -
  note split = filter_split [OF assms]
  have "ascending (filter (\<lambda>r. fst r \<le> a) l @ filter (\<lambda>r. a < fst r) l)"
    using filter_okD(3) [OF assms(1)] split(1) by simp
  from iter_last [OF this split(2), folded split(1)]
  show ?thesis by (simp add: access_def split(3) access_of_def)
qed

lemma rule_splits:
  assumes "filter_ok ops valid l" "valid first" "valid last'" "first \<le> last'"
  obtains pre r mid post where "l = pre @ r # mid @ post" "rule_split first last' pre r mid post"
    "filter (\<lambda>r. fst r \<le> first) l = pre @ [r]" "filter (\<lambda>r. first < fst r) l = mid @ post"
    "filter (\<lambda>r. fst r \<le> last') l = pre @ r # mid" "filter (\<lambda>r. last' < fst r) l = post"
proof -
  let ?F = "filter (\<lambda>r. fst r \<le> first) l" and ?D = "filter (\<lambda>r. first < fst r) l"
  note split = filter_split [OF assms(1,2)]
  obtain pre r where F: "?F = pre @ [r]" using split(2) by (metis append_butlast_last_id)
  have asc: "ascending l" by (rule filter_okD(3) [OF assms(1)])
  then have ascD: "ascending ?D" by (simp add: sorted_wrt_filter)
  define mid where "mid = filter (\<lambda>r. fst r \<le> last') ?D"
  define post where "post = filter (\<lambda>r. last' < fst r) ?D"
  have D: "?D = mid @ post"
    using ascending_split [OF ascD, of last'] takeWhile_dropWhile_id [of "\<lambda>r. fst r \<le> last'" ?D] by (simp add: mid_def post_def)
  have l: "l = pre @ r # mid @ post" using split(1) F D by simp
  have le: "fst x \<le> last'" if "x \<in> set (pre @ [r])" for x
    using that assms(4) by (auto simp flip: F)
  have F': "filter (\<lambda>r. fst r \<le> last') (pre @ [r]) = pre @ [r]" "filter (\<lambda>r. last' < fst r) (pre @ [r]) = []"
    using le by (auto simp: filter_id_conv filter_empty_conv not_less)
  have ends: "filter (\<lambda>r. fst r \<le> last') l = pre @ r # mid" "filter (\<lambda>r. last' < fst r) l = post"
    using arg_cong [OF split(1), of "filter (\<lambda>r. fst r \<le> last')"] arg_cong [OF split(1), of "filter (\<lambda>r. last' < fst r)"] F'
    unfolding filter_append F by (simp_all add: mid_def post_def)
  have "r \<in> set ?F" unfolding F by simp
  then have r: "fst r \<le> first" by simp
  have parts: "\<forall>x \<in> set mid. first < fst x \<and> fst x \<le> last'" "\<forall>x \<in> set post. last' < fst x"
    by (simp_all add: mid_def post_def)
  have "rule_split first last' pre r mid post"
    unfolding rule_split_def using r assms(4) asc [unfolded l] parts by simp
  then show thesis by (rule that [OF l _ F D ends])
qed

end

context address_range
begin

lemma post_plus_one:
  assumes "valid last'" "valid (fst (hd post))" "ascending post" "\<forall>x \<in> set post. last' < fst x" "post \<noteq> []"
  shows "ao_minus_one ops (fst (hd post)) \<noteq> last' \<Longrightarrow> x \<in> set post \<Longrightarrow> ao_plus_one ops last' < fst x"
    and "last' < ao_plus_one ops last'" "valid (ao_plus_one ops last')" "last' \<noteq> ao_max_addr ops"
    and "ao_minus_one ops (fst (hd post)) = last' \<Longrightarrow> valid a \<Longrightarrow> last' < a \<Longrightarrow> fst (hd post) \<le> a"
proof -
  let ?b = "fst (hd post)"
  have b: "last' < ?b" using assms(4,5) by simp
  then show max: "last' \<noteq> ao_max_addr ops" using le_max [OF assms(2)] by auto
  note plus = plus_one_le [OF assms(1) max]
  show v: "valid (ao_plus_one ops last')" by (rule plus_one_valid [OF assms(1) max])
  show lt: "last' < ao_plus_one ops last'" using plus [OF v] by simp
  have nz: "?b \<noteq> ao_zero ops" using b zero_le [OF assms(1)] by auto
  have first: "?b \<le> fst x" if "x \<in> set post" for x
    using assms(3,5) that by (cases post) auto
  show "ao_plus_one ops last' < fst x" if ne: "ao_minus_one ops ?b \<noteq> last'" and x: "x \<in> set post"
  proof -
    have "ao_plus_one ops last' \<le> ?b" using plus [OF assms(2)] b by simp
    moreover have "ao_plus_one ops last' \<noteq> ?b"
    proof
      assume eq: "ao_plus_one ops last' = ?b"
      have "ao_minus_one ops ?b \<le> last'"
        using plus [OF minus_one_valid [OF assms(2) nz]] le_minus_one [OF assms(2) nz minus_one_valid [OF assms(2) nz]] eq
        by (metis not_le order_refl)
      moreover have "last' \<le> ao_minus_one ops ?b" using le_minus_one [OF assms(2) nz assms(1)] b by simp
      ultimately show False using ne by simp
    qed
    ultimately show ?thesis using first [OF x] by simp
  qed
  show "?b \<le> a" if "ao_minus_one ops ?b = last'" "valid a" "last' < a"
    using le_minus_one [OF assms(2) nz that(2)] that by (auto simp: not_le not_less)
qed

lemma add_rule_eq:
  assumes "filter_ok ops valid l" "valid first" "valid last'" "l = pre @ r # mid @ post"
    "rule_split first last' pre r mid post"
    "filter (\<lambda>r. first < fst r) l = mid @ post" "filter (\<lambda>r. last' < fst r) l = post"
  shows "add_rule ops first last' flags l =
    Inr (rule_head first flags pre r @ rule_tail ops last' flags (snd (last (r # mid))) post)"
proof -
  note asc = filter_okD(3) [OF assms(1), unfolded assms(4)]
  note alt = filter_okD(4) [OF assms(1), unfolded assms(4)]
  have v: "valid (fst x)" if "x \<in> set (pre @ r # mid @ post)" for x using filter_okD(5) [OF assms(1)] that assms(4) by simp
  have s: "first \<le> last'" "\<forall>x \<in> set post. last' < fst x" using assms(5) by (auto simp: rule_split_def)
  have i: "set_upper_bound first l = set_begin (mid @ post)" "set_upper_bound last' l = set_begin post"
    using filter_split(3) [OF assms(1)] assms(2,3,6,7) by simp_all
  note at_first = iter_last [of "pre @ [r]" "mid @ post", simplified, OF asc]
  note at_last = iter_last [of "pre @ r # mid" post, simplified, OF asc]
  note head = rule_head_props [where valid = valid and flags = flags, OF assms(5) alt refl _ assms(2)]
  have hd_le: "\<forall>x \<in> set (rule_head first flags pre r). fst x \<le> first" using head(5) v by simp
  have "rule_end ops last' flags (set_begin post) (snd (last (r # mid))) (rule_head first flags pre r @ post) =
    Inr (rule_head first flags pre r @ rule_tail ops last' flags (snd (last (r # mid))) post)"
  proof (rule rule_end_eq)
    show "ascending (rule_head first flags pre r @ post)"
      using head(3) v hd_le s asc by (fastforce simp: sorted_wrt_append)
    show "\<forall>x \<in> set (rule_head first flags pre r). fst x \<le> last'" using hd_le s by auto
    show "\<forall>x \<in> set post. last' < fst x" by (rule s(2))
    have ap: "ascending post" using asc by (simp add: sorted_wrt_append)
    have vp: "post \<noteq> [] \<Longrightarrow> valid (fst (hd post))" using v by simp
    show "\<forall>x \<in> set post. ao_minus_one ops (fst (hd post)) \<noteq> last' \<longrightarrow> ao_plus_one ops last' < fst x"
      using post_plus_one(1) [OF assms(3) vp ap s(2)] by fastforce
    show "last' < ao_plus_one ops last'" if "post \<noteq> [] \<or> last' \<noteq> ao_max_addr ops"
      using that post_plus_one(2) [OF assms(3) vp ap s(2)] plus_one_le [OF assms(3) _ plus_one_valid [OF assms(3)]] by auto
  qed
  moreover obtain l1 i1 fa where "rule_start first flags (Some (fst r)) (snd r) (pre @ r # mid @ post) = Inr (l1, i1, fa)"
    "rule_replace first flags i1 (set_begin post) fa l1 = Inr (rule_head first flags pre r @ post)"
    using rule_head_eq [OF assms(5) alt, of flags] by (auto elim!: bind_resultE)
  ultimately show ?thesis
    using at_first at_last i [unfolded assms(4)] by (auto simp: add_rule_def assms(4) Let_def split: if_splits)
qed

end

lemma rule_tail_starts:
  assumes "\<forall>x \<in> set post. last' < fst x" "post \<noteq> [] \<or> last' \<noteq> ao_max_addr ops \<Longrightarrow> last' < ao_plus_one ops last'"
  shows "\<forall>x \<in> set (rule_tail ops last' flags la post). last' < fst x"
  using assms by (cases post) (auto simp: rule_tail_def)

context address_range
begin

lemma rule_tail_props:
  fixes flags
  assumes "valid last'" "\<forall>x \<in> set post. valid (fst x) \<and> last' < fst x" "ascending post" "alternating post"
    and la: "post \<noteq> [] \<Longrightarrow> la \<noteq> snd (hd post)"
  defines "tail \<equiv> rule_tail ops last' flags la post"
  shows "\<forall>x \<in> set tail. valid (fst x) \<and> last' < fst x" "ascending tail" "alternating tail" "tail \<noteq> [] \<Longrightarrow> snd (hd tail) \<noteq> flags"
    and "valid a \<Longrightarrow> last' < a \<Longrightarrow>
      (if filter (\<lambda>x. fst x \<le> a) tail = [] then flags else access_of a tail) =
      (if filter (\<lambda>x. fst x \<le> a) post = [] then la else access_of a post)"
proof -
  have vp: "post \<noteq> [] \<Longrightarrow> valid (fst (hd post))" and gt: "\<forall>x \<in> set post. last' < fst x" using assms(2) by simp_all
  note plus = post_plus_one [OF assms(1) vp assms(3) gt]
  have nil: "valid (ao_plus_one ops last') \<and> last' < ao_plus_one ops last'" if "last' \<noteq> ao_max_addr ops"
    using plus_one_valid [OF assms(1) that] plus_one_le [OF assms(1) that plus_one_valid [OF assms(1) that]] by simp
  show "\<forall>x \<in> set tail. valid (fst x) \<and> last' < fst x"
    using assms(2) nil plus(2,3) by (cases post) (auto simp: tail_def rule_tail_def)
  show "ascending tail" using assms(3) plus(1) by (cases post) (auto simp: tail_def rule_tail_def)
  show "alternating tail" using assms(4) la by (cases post) (auto simp: tail_def rule_tail_def successively_Cons)
  show "snd (hd tail) \<noteq> flags" if "tail \<noteq> []"
    using that assms(4) by (cases post) (auto simp: tail_def rule_tail_def successively_Cons split: if_splits)
  show "(if filter (\<lambda>x. fst x \<le> a) tail = [] then flags else access_of a tail) =
      (if filter (\<lambda>x. fst x \<le> a) post = [] then la else access_of a post)" if a: "valid a" "last' < a"
  proof (cases post)
    case Nil
    have "last' \<noteq> ao_max_addr ops" using a le_max [OF a(1)] by auto
    moreover from this have "ao_plus_one ops last' \<le> a" using plus_one_le [OF assms(1) _ a(1)] a(2) by simp
    ultimately show ?thesis using Nil by (auto simp: tail_def rule_tail_def access_of_def)
  next
    case (Cons p ps)
    have "ao_plus_one ops last' \<le> a" using plus_one_le [OF assms(1) plus(4) a(1)] a(2) Cons by simp
    moreover have "fst p \<le> a" if "ao_minus_one ops (fst p) = last'" using plus(5) that a Cons by simp
    moreover have "\<not> fst p \<le> a \<Longrightarrow> filter (\<lambda>x. fst x \<le> a) ps = []"
      using assms(3) Cons by (auto simp: filter_empty_conv)
    ultimately show ?thesis
      using Cons la by (auto simp: tail_def rule_tail_def access_of_def)
  qed
qed

lemma add_rule_refines:
  assumes "filter_ok ops valid l" "valid first" "valid last'" "first \<le> last'"
  obtains l' where "add_rule ops first last' flags l = Inr l'" "filter_ok ops valid l'"
    "\<And>a. valid a \<Longrightarrow> access_of a l' = (if first \<le> a \<and> a \<le> last' then flags else access_of a l)"
proof -
  obtain pre r mid post where l: "l = pre @ r # mid @ post" and split: "rule_split first last' pre r mid post"
    and F: "filter (\<lambda>r. first < fst r) l = mid @ post" "filter (\<lambda>r. last' < fst r) l = post"
    using rule_splits [OF assms] by metis
  note asc = filter_okD(3) [OF assms(1), unfolded l] and alt = filter_okD(4) [OF assms(1), unfolded l]
  have v: "valid (fst x)" if "x \<in> set (pre @ r # mid @ post)" for x using filter_okD(5) [OF assms(1)] that l by simp
  have parts: "fst r \<le> first" "\<forall>x \<in> set mid. first < fst x \<and> fst x \<le> last'" "\<forall>x \<in> set post. last' < fst x"
    using split by (auto simp: rule_split_def)
  have post: "\<forall>x \<in> set post. valid (fst x) \<and> last' < fst x" "ascending post" "alternating post"
    "post \<noteq> [] \<Longrightarrow> snd (last (r # mid)) \<noteq> snd (hd post)"
    using parts(3) v asc alt by (auto simp: sorted_wrt_append successively_append_iff successively_Cons split: if_splits)
  define head where "head = rule_head first flags pre r"
  define tail where "tail = rule_tail ops last' flags (snd (last (r # mid))) post"
  have z: "ao_zero ops = fst (hd (pre @ [r]))" using filter_okD(2) [OF assms(1)] l by (cases pre) auto
  note H = rule_head_props [where valid = valid and flags = flags, OF split alt z _ assms(2), folded head_def]
  note T = rule_tail_props [OF assms(3) post, where flags = flags, folded tail_def]
  have Hle: "\<forall>x \<in> set head. fst x \<le> first" and Hv: "\<forall>x \<in> set head. valid (fst x)" using H(5) v by simp_all
  have vr: "\<forall>x \<in> set (pre @ [r]). valid (fst x)" using v by simp
  have "ascending (head @ tail)"
    using H(3) [OF vr] T(2) Hle T(1) assms(4) by (auto simp: sorted_wrt_append intro: le_less_trans order_trans)
  moreover have "alternating (head @ tail)"
    using H(4,6) [OF vr] T(3,4) by (auto simp: successively_append_iff)
  ultimately have "filter_ok ops valid (head @ tail)"
    using H(1,2) [OF vr] T(1) Hv by (auto simp: filter_ok_def)
  moreover have "access_of a (head @ tail) = (if first \<le> a \<and> a \<le> last' then flags else access_of a l)" if a: "valid a" for a
  proof -
    have pre: "\<forall>x \<in> set (pre @ [r]). fst x \<le> first" using parts(1) asc by (fastforce simp: sorted_wrt_append)
    consider "a < first" | "first \<le> a" "a \<le> last'" | "last' < a" by fastforce
    then show ?thesis
    proof cases
      case 1
      then have "filter (\<lambda>x. fst x \<le> a) tail = []" "filter (\<lambda>x. fst x \<le> a) (mid @ post) = []"
        using T(1) parts(2,3) assms(4) by (auto simp: filter_empty_conv)
      then show ?thesis using 1 H(7) [OF vr 1 zero_le [OF a]] by (auto simp: access_of_def l)
    next
      case 2
      then have "filter (\<lambda>x. fst x \<le> a) tail = []" "filter (\<lambda>x. fst x \<le> a) head = head"
        using T(1) Hle by (auto simp: filter_empty_conv filter_id_conv)
      then show ?thesis using 2 H(6) [OF vr] by (simp add: access_of_def)
    next
      case 3
      have "filter (\<lambda>x. fst x \<le> a) head = head" "filter (\<lambda>x. fst x \<le> a) (pre @ r # mid) = pre @ r # mid"
        using Hle pre parts(2) 3 assms(4) by (intro filter_True; force)+
      moreover have "l = (pre @ r # mid) @ post" by (simp add: l)
      ultimately have "access_of a l = (if filter (\<lambda>x. fst x \<le> a) post = [] then snd (last (r # mid)) else access_of a post)"
        and "access_of a (head @ tail) = (if filter (\<lambda>x. fst x \<le> a) tail = [] then flags else access_of a tail)"
        using H(6) [OF vr] by (auto simp only: access_of_def filter_append last_append last_ConsR) simp_all
      moreover have "\<not> a \<le> last'" using 3 by simp
      ultimately show ?thesis using T(5) [OF _ a 3] by simp
    qed
  qed
  ultimately show thesis
    using that add_rule_eq [OF assms(1-3) l split F, of flags, folded head_def tail_def] by blast
qed

end

subsection \<open>A filter is the map of its flags\<close>

text \<open>The flags that a sequence of rules gives an address: those of the last rule that holds it.\<close>

definition rule_flags :: "('a::linorder \<times> 'a \<times> int) list \<Rightarrow> 'a \<Rightarrow> int \<Rightarrow> int" where
  "rule_flags rules a = fold (\<lambda>(first, last', flags) acc. if first \<le> a \<and> a \<le> last' then flags else acc) rules"

definition range_rule :: "'a ip_range \<Rightarrow> 'a \<times> 'a \<times> int" where
  "range_rule r = (ir_first r, ir_last r, ir_flags r)"

definition add_rules :: "'a::linorder addr_ops \<Rightarrow> ('a \<times> 'a \<times> int) list \<Rightarrow> 'a range_set \<Rightarrow> 'a range_set result" where
  "add_rules ops = fold_result (\<lambda>(first, last', flags). add_rule ops first last' flags)"

context address_range
begin

lemma add_rules_refines:
  assumes "\<forall>(first, last', flags) \<in> set rules. valid first \<and> valid last' \<and> first \<le> last'" "filter_ok ops valid l"
  shows "\<exists>l'. add_rules ops rules l = Inr l' \<and> filter_ok ops valid l' \<and>
    (\<forall>a. valid a \<longrightarrow> access_of a l' = rule_flags rules a (access_of a l))"
  using assms
proof (induction rules arbitrary: l)
  case (Cons rule rules)
  obtain first last' flags where rule: "rule = (first, last', flags)" by (cases rule)
  with Cons.prems have "valid first" "valid last'" "first \<le> last'" by auto
  from add_rule_refines [OF Cons.prems(2) this, of flags] obtain l1
    where l1: "add_rule ops first last' flags l = Inr l1" "filter_ok ops valid l1"
      "\<And>a. valid a \<Longrightarrow> access_of a l1 = (if first \<le> a \<and> a \<le> last' then flags else access_of a l)" by blast
  show ?case using Cons.IH [OF _ l1(2)] Cons.prems(1) rule l1 by (auto simp: add_rules_def rule_flags_def)
qed (simp add: add_rules_def rule_flags_def)

lemma filter_start_iff:
  assumes "filter_ok ops valid l" "valid s"
  shows "s \<in> fst ` set l \<longleftrightarrow> s = ao_zero ops \<or> access_of (ao_minus_one ops s) l \<noteq> access_of s l"
proof
  assume "s \<in> fst ` set l"
  then obtain xs a ys where l: "l = xs @ (s, a) # ys" by (metis (no_types, lifting) image_iff in_set_conv_decomp prod.collapse)
  note ok = filter_okD [OF assms(1), unfolded l]
  show "s = ao_zero ops \<or> access_of (ao_minus_one ops s) l \<noteq> access_of s l"
  proof (cases "s = ao_zero ops")
    case False
    then have ne: "xs \<noteq> []" using ok(2) by auto
    have le: "fst x \<le> ao_minus_one ops s \<longleftrightarrow> fst x < s" if "x \<in> set l" for x
      using le_minus_one [OF assms(2) False] filter_okD(5) [OF assms(1) that] by simp
    have "filter (\<lambda>x. fst x \<le> ao_minus_one ops s) l = filter (\<lambda>x. fst x < s) l" using le by (rule filter_cong [OF refl])
    also have "\<dots> = xs" using filter_at(2) [OF ok(3)] by (simp add: l)
    finally have "access_of (ao_minus_one ops s) l = snd (last xs)" by (simp add: access_of_def)
    moreover have "access_of s l = a" using filter_at(1) [OF ok(3)] by (simp add: l access_of_def)
    ultimately show ?thesis using ok(4) ne by (auto simp: successively_append_iff)
  qed simp
next
  assume *: "s = ao_zero ops \<or> access_of (ao_minus_one ops s) l \<noteq> access_of s l"
  show "s \<in> fst ` set l"
  proof (cases "s = ao_zero ops")
    case True
    then show ?thesis using filter_okD(1,2) [OF assms(1)] by (metis hd_in_set image_eqI)
  next
    case False
    show ?thesis
    proof (rule ccontr)
      assume no: "s \<notin> fst ` set l"
      have "fst x \<le> ao_minus_one ops s \<longleftrightarrow> fst x \<le> s" if "x \<in> set l" for x
        using le_minus_one [OF assms(2) False] filter_okD(5) [OF assms(1) that] no that by (auto simp: less_le)
      then have "filter (\<lambda>x. fst x \<le> ao_minus_one ops s) l = filter (\<lambda>x. fst x \<le> s) l" by (rule filter_cong [OF refl])
      then show False using * False by (simp add: access_of_def)
    qed
  qed
qed

text \<open>Two filters that give all addresses the same flags are equal.\<close>

lemma filter_unique:
  assumes "filter_ok ops valid l" "filter_ok ops valid l'" "\<And>a. valid a \<Longrightarrow> access_of a l = access_of a l'"
  shows "l = l'"
proof -
  have sorted: "sorted (map fst m)" "distinct (map fst m)" if "filter_ok ops valid m" for m
    using filter_okD(3) [OF that] by (simp_all add: ascending_sorted ascending_distinct)
  have acc: "m = map (\<lambda>s. (s, access_of s m)) (map fst m)" if ok: "filter_ok ops valid m" for m
  proof -
    have "access_of (fst r) m = snd r" if "r \<in> set m" for r
    proof -
      obtain xs ys where m: "m = xs @ r # ys" using \<open>r \<in> set m\<close> by (metis in_set_conv_decomp)
      then show ?thesis using filter_at(1) [of xs "fst r" "snd r" ys] filter_okD(3) [OF ok] by (simp add: access_of_def)
    qed
    then have "map (\<lambda>r. (fst r, access_of (fst r) m)) m = m" by (intro map_idI) simp
    then show ?thesis by (simp add: comp_def)
  qed
  have "fst ` set l = fst ` set l'"
  proof -
    have "s \<in> fst ` set l \<longleftrightarrow> s \<in> fst ` set l'" if "valid s" for s
      using filter_start_iff [OF assms(1) that] filter_start_iff [OF assms(2) that] assms(3) minus_one_valid that by metis
    then show ?thesis using filter_okD(5) [OF assms(1)] filter_okD(5) [OF assms(2)] by blast
  qed
  then have starts: "map fst l = map fst l'"
    using sorted_distinct_set_unique sorted assms(1,2) by (metis list.set_map)
  have valid: "valid s" if "s \<in> set (map fst l)" for s using that filter_okD(5) [OF assms(1)] by auto
  have "l = map (\<lambda>s. (s, access_of s l)) (map fst l)" by (rule acc [OF assms(1)])
  also have "\<dots> = map (\<lambda>s. (s, access_of s l')) (map fst l)" using assms(3) valid by simp
  also have "\<dots> = l'" unfolding starts by (rule acc [OF assms(2), symmetric])
  finally show ?thesis .
qed

end

context address_range
begin

lemma export_flags:
  assumes "ascending l" "\<forall>r \<in> set l. valid (fst r)" "valid a"
  shows "rule_flags (map range_rule (export_filter ops l)) a acc = (if filter (\<lambda>r. fst r \<le> a) l = [] then acc else access_of a l)"
  using assms
proof (induction l arbitrary: acc rule: list.induct)
  case (Cons r l)
  obtain s x where r: "r = (s, x)" by (cases r)
  show ?case
  proof (cases l)
    case Nil
    then show ?thesis using Cons.prems r le_max by (auto simp: rule_flags_def range_rule_def access_of_def)
  next
    case l: (Cons r' l')
    have "fst r' \<noteq> ao_zero ops" using Cons.prems r l zero_le [of s] by auto
    then have range: "a \<le> ao_minus_one ops (fst r') \<longleftrightarrow> a < fst r'" using le_minus_one Cons.prems l by simp
    let ?acc = "if s \<le> a \<and> a < fst r' then x else acc"
    have "rule_flags (map range_rule (export_filter ops (r # l))) a acc = rule_flags (map range_rule (export_filter ops l)) a ?acc"
      by (simp add: r l rule_flags_def range_rule_def range)
    also have "\<dots> = (if filter (\<lambda>r. fst r \<le> a) l = [] then ?acc else access_of a l)" using Cons by simp
    also have "\<dots> = (if filter (\<lambda>r. fst r \<le> a) (r # l) = [] then acc else access_of a (r # l))"
    proof (cases "fst r' \<le> a")
      case True
      then have "s \<le> a" "filter (\<lambda>r. fst r \<le> a) l \<noteq> []" using Cons.prems r l by auto
      then show ?thesis using r by (simp add: access_of_def)
    next
      case False
      then have "filter (\<lambda>r. fst r \<le> a) l = []" using Cons.prems l by (auto simp: filter_empty_conv)
      then show ?thesis using False r by (auto simp: access_of_def)
    qed
    finally show ?thesis .
  qed
qed (simp add: rule_flags_def)

lemma export_rules_ok:
  assumes "ascending l" "\<forall>r \<in> set l. valid (fst r)"
  shows "\<forall>(first, last', flags) \<in> set (map range_rule (export_filter ops l)). valid first \<and> valid last' \<and> first \<le> last'"
  using assms
proof (induction l)
  case (Cons r l)
  obtain s x where r: "r = (s, x)" by (cases r)
  show ?case
  proof (cases l)
    case Nil
    then show ?thesis using Cons.prems r le_max max_valid by (simp add: range_rule_def)
  next
    case l: (Cons r' l')
    have s: "valid s" "valid (fst r')" "s < fst r'" using Cons.prems r l by auto
    then have "fst r' \<noteq> ao_zero ops" using zero_le [of s] by auto
    then have "valid (ao_minus_one ops (fst r'))" "s \<le> ao_minus_one ops (fst r')"
      using minus_one_valid le_minus_one s by simp_all
    moreover have "export_filter ops (r # l) = \<lparr>ir_first = s, ir_last = ao_minus_one ops (fst r'), ir_flags = x\<rparr> # export_filter ops l"
      by (simp add: r l)
    ultimately show ?thesis using Cons s(1) by (simp add: range_rule_def)
  qed
qed simp

lemma export_add_rules:
  assumes "filter_ok ops valid l"
  shows "add_rules ops (map range_rule (export_filter ops l)) (filter_impl_init ops) = Inr l"
proof -
  note ok = filter_okD [OF assms]
  have rules: "\<forall>(first, last', flags) \<in> set (map range_rule (export_filter ops l)). valid first \<and> valid last' \<and> first \<le> last'"
    using export_rules_ok ok(3,5) by blast
  obtain l' where l': "add_rules ops (map range_rule (export_filter ops l)) (filter_impl_init ops) = Inr l'" "filter_ok ops valid l'"
    "\<forall>a. valid a \<longrightarrow> access_of a l' = rule_flags (map range_rule (export_filter ops l)) a (access_of a (filter_impl_init ops))"
    using add_rules_refines [OF rules filter_ok_init] by blast
  have "access_of a l' = access_of a l" if "valid a" for a
    using l'(3) that export_flags [OF ok(3) _ that] ok(5) filter_split(2) [OF assms that] by simp
  then show ?thesis using l'(1) filter_unique [OF l'(2) assms] by simp
qed

end

subsection \<open>Rules for addresses of both families\<close>

definition address_ok :: "address \<Rightarrow> bool" where
  "address_ok a = (case a of V4 b \<Rightarrow> length b = 4 | V6 b \<Rightarrow> length b = 16)"

definition address_between :: "address \<Rightarrow> address \<Rightarrow> address \<Rightarrow> bool" where
  "address_between first last' a =
     (case (first, last', a) of
        (V4 x, V4 y, V4 b) \<Rightarrow> x \<le> b \<and> b \<le> y
      | (V6 x, V6 y, V6 b) \<Rightarrow> x \<le> b \<and> b \<le> y
      | _ \<Rightarrow> False)"

definition ip_rule_ok :: "address \<times> address \<times> int \<Rightarrow> bool" where
  "ip_rule_ok = (\<lambda>(first, last', _). address_ok first \<and> address_ok last' \<and> address_between first last' first)"

definition ip_rule_flags :: "(address \<times> address \<times> int) list \<Rightarrow> address \<Rightarrow> int" where
  "ip_rule_flags rules a = fold (\<lambda>(first, last', flags) acc. if address_between first last' a then flags else acc) rules 0"

definition ip_filter_rules :: "(address \<times> address \<times> int) list \<Rightarrow> ip_filter \<Rightarrow> ip_filter result" where
  "ip_filter_rules = fold_result (\<lambda>(first, last', flags). ip_filter_add_rule first last' flags)"

definition ip_filter_ok :: "ip_filter \<Rightarrow> bool" where
  "ip_filter_ok f \<longleftrightarrow> filter_ok (bytes_ops 4) (\<lambda>a. length a = 4) (m_filter4 f) \<and>
     filter_ok (bytes_ops 16) (\<lambda>a. length a = 16) (m_filter6 f)"

lemma ip_filter_rule:
  assumes "ip_filter_ok f" "ip_rule_ok (first, last', flags)"
  obtains f' where "ip_filter_add_rule first last' flags f = Inr f'" "ip_filter_ok f'"
    "\<And>a. address_ok a \<Longrightarrow> ip_filter_access a f' = (if address_between first last' a then Inr flags else ip_filter_access a f)"
proof (cases first)
  case (V4 x)
  with assms(2) obtain y where last': "last' = V4 y" "length x = 4" "length y = 4" "x \<le> y"
    by (cases last') (auto simp: ip_rule_ok_def address_ok_def address_between_def)
  have ok: "filter_ok (bytes_ops 4) (\<lambda>a. length a = 4) (m_filter4 f)" using assms(1) by (simp add: ip_filter_ok_def)
  obtain l where l: "add_rule (bytes_ops 4) x y flags (m_filter4 f) = Inr l" "filter_ok (bytes_ops 4) (\<lambda>a. length a = 4) l"
    "\<And>a. length a = 4 \<Longrightarrow> access_of a l = (if x \<le> a \<and> a \<le> y then flags else access_of a (m_filter4 f))"
    using v4.add_rule_refines [OF ok last'(2-4), of flags] by blast
  show thesis
  proof (rule that)
    show "ip_filter_add_rule first last' flags f = Inr (f\<lparr>m_filter4 := l\<rparr>)"
      by (simp add: ip_filter_add_rule_def V4 last' to_v4_def l)
    show "ip_filter_ok (f\<lparr>m_filter4 := l\<rparr>)" using assms(1) l(2) by (simp add: ip_filter_ok_def)
    show "ip_filter_access a (f\<lparr>m_filter4 := l\<rparr>) = (if address_between first last' a then Inr flags else ip_filter_access a f)"
      if "address_ok a" for a
      using that l v4.access_eq ok
      by (auto simp: ip_filter_access_def address_between_def V4 last' address_ok_def split: address.splits)
  qed
next
  case (V6 x)
  with assms(2) obtain y where last': "last' = V6 y" "length x = 16" "length y = 16" "x \<le> y"
    by (cases last') (auto simp: ip_rule_ok_def address_ok_def address_between_def)
  have ok: "filter_ok (bytes_ops 16) (\<lambda>a. length a = 16) (m_filter6 f)" using assms(1) by (simp add: ip_filter_ok_def)
  obtain l where l: "add_rule (bytes_ops 16) x y flags (m_filter6 f) = Inr l" "filter_ok (bytes_ops 16) (\<lambda>a. length a = 16) l"
    "\<And>a. length a = 16 \<Longrightarrow> access_of a l = (if x \<le> a \<and> a \<le> y then flags else access_of a (m_filter6 f))"
    using v6.add_rule_refines [OF ok last'(2-4), of flags] by blast
  show thesis
  proof (rule that)
    show "ip_filter_add_rule first last' flags f = Inr (f\<lparr>m_filter6 := l\<rparr>)"
      by (simp add: ip_filter_add_rule_def V6 last' to_v6_def l)
    show "ip_filter_ok (f\<lparr>m_filter6 := l\<rparr>)" using assms(1) l(2) by (simp add: ip_filter_ok_def)
    show "ip_filter_access a (f\<lparr>m_filter6 := l\<rparr>) = (if address_between first last' a then Inr flags else ip_filter_access a f)"
      if "address_ok a" for a
      using that l v6.access_eq ok
      by (auto simp: ip_filter_access_def address_between_def V6 last' address_ok_def split: address.splits)
  qed
qed

lemma ip_filter_init_ok: "ip_filter_ok ip_filter_init" "address_ok a \<Longrightarrow> ip_filter_access a ip_filter_init = Inr 0"
proof -
  show "ip_filter_ok ip_filter_init"
    by (simp add: ip_filter_ok_def ip_filter_init_def v4.filter_ok_init v6.filter_ok_init)
  show "address_ok a \<Longrightarrow> ip_filter_access a ip_filter_init = Inr 0"
    using v4.access_eq [OF v4.filter_ok_init] v6.access_eq [OF v6.filter_ok_init] v4.zero_le v6.zero_le
    by (cases a) (auto simp: ip_filter_access_def ip_filter_init_def address_ok_def access_of_def filter_impl_init_def)
qed

lemma ip_filter_rules_refine:
  assumes "\<forall>r \<in> set rules. ip_rule_ok r" "ip_filter_ok f"
  shows "\<exists>f'. ip_filter_rules rules f = Inr f' \<and> ip_filter_ok f' \<and>
    (\<forall>a n. address_ok a \<longrightarrow> ip_filter_access a f = Inr n \<longrightarrow> ip_filter_access a f' =
      Inr (fold (\<lambda>(first, last', flags) acc. if address_between first last' a then flags else acc) rules n))"
  using assms
proof (induction rules arbitrary: f)
  case (Cons rule rules)
  obtain first last' flags where rule: "rule = (first, last', flags)" by (cases rule)
  obtain f1 where f1: "ip_filter_add_rule first last' flags f = Inr f1" "ip_filter_ok f1"
    "\<And>a. address_ok a \<Longrightarrow> ip_filter_access a f1 = (if address_between first last' a then Inr flags else ip_filter_access a f)"
    using ip_filter_rule [OF Cons.prems(2)] Cons.prems(1) rule by (metis list.set_intros(1))
  show ?case using Cons.IH [OF _ f1(2)] Cons.prems(1) f1 rule by (auto simp: ip_filter_rules_def)
qed (simp add: ip_filter_rules_def)

text \<open>
  C14: The address filter obeys its rules. After any sequence of rules, each with two addresses of one family in
  order, the filter gives every address the flags of the last rule that contains it, and 0 where there is none; no
  rule takes an iterator out of the set.
\<close>

theorem ip_filter_last_rule:
  assumes "\<forall>r \<in> set rules. ip_rule_ok r"
  shows "\<exists>f. ip_filter_rules rules ip_filter_init = Inr f \<and>
    (\<forall>a. address_ok a \<longrightarrow> ip_filter_access a f = Inr (ip_rule_flags rules a))"
  using ip_filter_rules_refine [OF assms ip_filter_init_ok(1)] ip_filter_init_ok(2) by (auto simp: ip_rule_flags_def)

theorem ip_filter_last_rule_witness:
  "\<exists>f. ip_filter_rules [(V4 [10, 0, 0, 0], V4 [10, 255, 255, 255], 1), (V4 [10, 0, 1, 0], V4 [10, 0, 1, 255], 0)] ip_filter_init = Inr f \<and>
    ip_filter_access (V4 [10, 0, 0, 255]) f = Inr 1 \<and> ip_filter_access (V4 [10, 0, 1, 7]) f = Inr 0 \<and>
    ip_filter_access (V4 [11, 0, 0, 0]) f = Inr 0"
proof -
  let ?rules = "[(V4 [10, 0, 0, 0], V4 [10, 255, 255, 255], 1), (V4 [10, 0, 1, 0], V4 [10, 0, 1, 255], 0)]"
  have ok: "\<forall>r \<in> set ?rules. ip_rule_ok r" by (simp add: ip_rule_ok_def address_ok_def address_between_def)
  obtain f where f: "ip_filter_rules ?rules ip_filter_init = Inr f"
    "\<And>a. address_ok a \<Longrightarrow> ip_filter_access a f = Inr (ip_rule_flags ?rules a)" using ip_filter_last_rule [OF ok] by blast
  show ?thesis
    by (intro exI [of _ f] conjI) (simp_all add: f address_ok_def ip_rule_flags_def address_between_def)
qed

definition family_rule :: "(bytes_type \<Rightarrow> address) \<Rightarrow> bytes_type ip_range \<Rightarrow> address \<times> address \<times> int" where
  "family_rule fam r = (fam (ir_first r), fam (ir_last r), ir_flags r)"

lemma family_rules:
  "ip_filter_rules (map (family_rule V4) rs) f =
     bind_result (add_rules (bytes_ops 4) (map range_rule rs) (m_filter4 f)) (\<lambda>l. Inr (f\<lparr>m_filter4 := l\<rparr>))"
  "ip_filter_rules (map (family_rule V6) rs) f =
     bind_result (add_rules (bytes_ops 16) (map range_rule rs) (m_filter6 f)) (\<lambda>l. Inr (f\<lparr>m_filter6 := l\<rparr>))"
proof -
  have "ip_filter_rules (map (family_rule V4) rs) f =
      bind_result (add_rules (bytes_ops 4) (map range_rule rs) (m_filter4 f)) (\<lambda>l. Inr (f\<lparr>m_filter4 := l\<rparr>))" for f
  proof (induction rs arbitrary: f)
    case (Cons r rs)
    then show ?case
      by (cases "add_rule (bytes_ops 4) (ir_first r) (ir_last r) (ir_flags r) (m_filter4 f)")
        (simp_all add: ip_filter_rules_def add_rules_def family_rule_def range_rule_def ip_filter_add_rule_def to_v4_def)
  qed (simp add: ip_filter_rules_def add_rules_def)
  moreover have "ip_filter_rules (map (family_rule V6) rs) f =
      bind_result (add_rules (bytes_ops 16) (map range_rule rs) (m_filter6 f)) (\<lambda>l. Inr (f\<lparr>m_filter6 := l\<rparr>))" for f
  proof (induction rs arbitrary: f)
    case (Cons r rs)
    then show ?case
      by (cases "add_rule (bytes_ops 16) (ir_first r) (ir_last r) (ir_flags r) (m_filter6 f)")
        (simp_all add: ip_filter_rules_def add_rules_def family_rule_def range_rule_def ip_filter_add_rule_def to_v6_def)
  qed (simp add: ip_filter_rules_def add_rules_def)
  ultimately show "ip_filter_rules (map (family_rule V4) rs) f =
      bind_result (add_rules (bytes_ops 4) (map range_rule rs) (m_filter4 f)) (\<lambda>l. Inr (f\<lparr>m_filter4 := l\<rparr>))"
    "ip_filter_rules (map (family_rule V6) rs) f =
      bind_result (add_rules (bytes_ops 16) (map range_rule rs) (m_filter6 f)) (\<lambda>l. Inr (f\<lparr>m_filter6 := l\<rparr>))"
    by blast+
qed

text \<open>
  C23: Exporting a filter and adding the exported ranges to a new one gives the same filter back: the set of ranges
  is determined by the flags of the addresses, whatever rules built it.
\<close>

theorem ip_filter_export_rules:
  assumes "\<forall>r \<in> set rules. ip_rule_ok r" "ip_filter_rules rules ip_filter_init = Inr f"
    and "ip_filter_export f = (ranges4, ranges6)"
  shows "ip_filter_rules (map (family_rule V4) ranges4 @ map (family_rule V6) ranges6) ip_filter_init = Inr f"
proof -
  have "ip_filter_ok f" using ip_filter_rules_refine [OF assms(1) ip_filter_init_ok(1)] assms(2) by auto
  then have l: "add_rules (bytes_ops 4) (map range_rule ranges4) (filter_impl_init (bytes_ops 4)) = Inr (m_filter4 f)"
    "add_rules (bytes_ops 16) (map range_rule ranges6) (filter_impl_init (bytes_ops 16)) = Inr (m_filter6 f)"
    using v4.export_add_rules v6.export_add_rules assms(3) by (auto simp: ip_filter_ok_def ip_filter_export_def)
  let ?f4 = "ip_filter_init\<lparr>m_filter4 := m_filter4 f\<rparr>"
  have "ip_filter_rules (map (family_rule V4) ranges4) ip_filter_init = Inr ?f4"
    using l(1) by (simp add: family_rules(1) ip_filter_init_def)
  moreover have "ip_filter_rules (map (family_rule V6) ranges6) ?f4 = Inr f"
    using l(2) by (simp add: family_rules(2) ip_filter_init_def)
  ultimately show ?thesis by (simp add: ip_filter_rules_def fold_result_append)
qed

theorem ip_filter_export_rules_witness:
  "\<exists>f. ip_filter_rules [(V4 [10, 0, 0, 0], V4 [10, 255, 255, 255], 1)] ip_filter_init = Inr f \<and>
    ip_filter_rules (map (family_rule V4) (fst (ip_filter_export f)) @ map (family_rule V6) (snd (ip_filter_export f))) ip_filter_init = Inr f"
proof -
  let ?rules = "[(V4 [10, 0, 0, 0], V4 [10, 255, 255, 255], 1)]"
  have ok: "\<forall>r \<in> set ?rules. ip_rule_ok r" by (simp add: ip_rule_ok_def address_ok_def address_between_def)
  obtain f where "ip_filter_rules ?rules ip_filter_init = Inr f"
    using ip_filter_rules_refine [OF ok ip_filter_init_ok(1)] by blast
  with ip_filter_export_rules [OF ok this] show ?thesis by (metis prod.collapse)
qed

end
