(* ===== verification/Sha1.thy ===== *)
theory Sha1
  imports Merkle
begin

section \<open>SHA-1 (\<open>libtorrent/src/sha1.cpp\<close>, \<open>libtorrent/include/libtorrent/hasher.hpp\<close>)\<close>

text \<open>
  The hash function behind info-hashes, piece hashes and Merkle trees, as it is compiled without OpenSSL. Words are
  \<open>uint32_t\<close>; the union of a block's bytes and words depends on the byte order of the machine, which is the argument
  \<open>big\<close>. The functions are modelled with their buffers and counters, and shown to be SHA-1 as the standard FIPS 180
  defines it, for data that arrives in any pieces and on machines of either byte order.
\<close>

unbundle bit_operations_syntax

subsection \<open>The code\<close>

type_synonym word32 = "32 word"

definition byte_word :: "char \<Rightarrow> word32" where
  "byte_word c = word_of_int (uchar c)"

definition word_byte :: "word32 \<Rightarrow> char" where
  "word_byte w = to_char (uint w)"

record SHA_CTX =
  sc_state :: "word32 list"   \<comment> \<open>\<open>state[5]\<close>\<close>
  sc_count0 :: word32
  sc_count1 :: word32
  sc_buffer :: string         \<comment> \<open>\<open>buffer[64]\<close>\<close>

definition rol :: "word32 \<Rightarrow> nat \<Rightarrow> word32" where
  "rol v n = (push_bit n v OR drop_bit (32 - n) v)"

text \<open>A word in memory: \<open>CHAR64LONG16\<close> reads the bytes of a block as words.\<close>

definition load_word :: "bool \<Rightarrow> string \<Rightarrow> word32" where
  "load_word big bs =
     (let b = (\<lambda>i. byte_word (bs ! i)) in
      if big then push_bit 24 (b 0) OR push_bit 16 (b 1) OR push_bit 8 (b 2) OR b 3
      else push_bit 24 (b 3) OR push_bit 16 (b 2) OR push_bit 8 (b 1) OR b 0)"

definition store_word :: "bool \<Rightarrow> word32 \<Rightarrow> string" where
  "store_word big w =
     (let bs = map (\<lambda>i. word_byte (drop_bit (8 * i) w AND 255)) [0..<4] in if big then rev bs else bs)"

definition load_block :: "bool \<Rightarrow> string \<Rightarrow> word32 list" where
  "load_block big buffer = map (\<lambda>i. load_word big (take 4 (drop (4 * i) buffer))) [0..<16]"

definition little_endian_blk0 :: "word32 list \<Rightarrow> nat \<Rightarrow> word32 \<times> word32 list" where
  "little_endian_blk0 block i =
     (let w = (rol (block ! i) 24 AND 0xFF00FF00) OR (rol (block ! i) 8 AND 0x00FF00FF) in (w, block[i := w]))"

definition big_endian_blk0 :: "word32 list \<Rightarrow> nat \<Rightarrow> word32 \<times> word32 list" where
  "big_endian_blk0 block i = (block ! i, block)"

definition blk :: "word32 list \<Rightarrow> nat \<Rightarrow> word32 \<times> word32 list" where
  "blk block i =
     (let w = rol (block ! ((i + 13) mod 16) XOR block ! ((i + 8) mod 16) XOR block ! ((i + 2) mod 16) XOR block ! (i mod 16)) 1
      in (w, block[i mod 16 := w]))"

text \<open>The function and the constant of the round macros \<open>R0\<close> to \<open>R4\<close>.\<close>

definition round_fun :: "nat \<Rightarrow> word32 \<Rightarrow> word32 \<Rightarrow> word32 \<Rightarrow> word32" where
  "round_fun i w x y =
     (if i < 20 then (w AND (x XOR y)) XOR y
      else if i < 40 then w XOR x XOR y
      else if i < 60 then ((w OR x) AND y) OR (w AND x)
      else w XOR x XOR y)"

definition round_const :: "nat \<Rightarrow> word32" where
  "round_const i = (if i < 20 then 0x5A827999 else if i < 40 then 0x6ED9EBA1 else if i < 60 then 0x8F1BBCDC else 0xCA62C1D6)"

text \<open>
  Round \<open>i\<close> of the unrolled loop. The registers \<open>a\<close> to \<open>e\<close> are the elements of a list; instead of moving their
  contents, each round uses them in other roles: the first argument of the macro in round \<open>i\<close> is register \<open>4 * i mod 5\<close>,
  and the others follow it.
\<close>

definition sha1_round :: "(word32 list \<Rightarrow> nat \<Rightarrow> word32 \<times> word32 list) \<Rightarrow> nat \<Rightarrow> word32 list \<times> word32 list \<Rightarrow> word32 list \<times> word32 list" where
  "sha1_round blk0 i = (\<lambda>(regs, block).
     let v = 4 * i mod 5; w = (v + 1) mod 5; x = (v + 2) mod 5; y = (v + 3) mod 5; z = (v + 4) mod 5;
         (word, block) = (if i < 16 then blk0 block i else blk block i);
         regs = regs[z := regs ! z + (round_fun i (regs ! w) (regs ! x) (regs ! y) + word + round_const i + rol (regs ! v) 5)]
     in (regs[w := rol (regs ! w) 30], block))"

definition SHA1Transform :: "bool \<Rightarrow> (word32 list \<Rightarrow> nat \<Rightarrow> word32 \<times> word32 list) \<Rightarrow> word32 list \<Rightarrow> string \<Rightarrow> word32 list" where
  "SHA1Transform big blk0 state buffer =
     (let regs = fst (fold (sha1_round blk0) [0..<80] (state, load_block big buffer))
      in map (\<lambda>i. state ! i + regs ! i) [0..<5])"

text \<open>\<open>memcpy\<close> of \<open>n\<close> bytes from position \<open>i\<close> of the data, and to position \<open>j\<close> of the buffer.\<close>

definition copy_from :: "string \<Rightarrow> nat \<Rightarrow> nat \<Rightarrow> string result" where
  "copy_from data i n = (if i + n \<le> length data then Inr (take n (drop i data)) else Inl Out_of_bounds)"

definition copy_to :: "string \<Rightarrow> nat \<Rightarrow> string \<Rightarrow> string result" where
  "copy_to buffer j bs =
     (if j + length bs \<le> length buffer then Inr (take j buffer @ bs @ drop (j + length bs) buffer) else Inl Out_of_bounds)"

text \<open>The loop over the whole blocks of the data.\<close>

definition transform_step :: "bool \<Rightarrow> (word32 list \<Rightarrow> nat \<Rightarrow> word32 \<times> word32 list) \<Rightarrow> string
    \<Rightarrow> (word32 list \<times> word32) result \<Rightarrow> (word32 list \<times> word32) result" where
  "transform_step big blk0 data s =
     bind_result s (\<lambda>(state, i).
     bind_result (copy_from data (unat i) 64) (\<lambda>block. Inr (SHA1Transform big blk0 state block, i + 64)))"

definition transform_loop :: "bool \<Rightarrow> (word32 list \<Rightarrow> nat \<Rightarrow> word32 \<times> word32 list) \<Rightarrow> string \<Rightarrow> word32
    \<Rightarrow> word32 list \<times> word32 \<Rightarrow> (word32 list \<times> word32) result" where
  "transform_loop big blk0 data len s =
     returned (while_option (\<lambda>s. case s of Inl _ \<Rightarrow> False | Inr (_, i) \<Rightarrow> i + 63 < len) (transform_step big blk0 data) (Inr s))"

text \<open>Every caller passes the length of its data as \<open>len\<close>.\<close>

definition internal_update :: "bool \<Rightarrow> (word32 list \<Rightarrow> nat \<Rightarrow> word32 \<times> word32 list) \<Rightarrow> SHA_CTX \<Rightarrow> string \<Rightarrow> SHA_CTX result" where
  "internal_update big blk0 context data =
     (let len = word_of_nat (length data) :: word32;
          j = drop_bit 3 (sc_count0 context) AND 63;
          count0 = sc_count0 context + push_bit 3 len;
          count1 = (if count0 < push_bit 3 len then sc_count1 context + 1 else sc_count1 context);
          count1 = count1 + drop_bit 29 len;
          context = context\<lparr>sc_count0 := count0, sc_count1 := count1\<rparr>
      in if j + len > 63 then
           let i = 64 - j in
           bind_result (copy_from data 0 (unat i)) (\<lambda>bs.
           bind_result (copy_to (sc_buffer context) (unat j) bs) (\<lambda>buffer.
           bind_result (transform_loop big blk0 data len (SHA1Transform big blk0 (sc_state context) buffer, i)) (\<lambda>(state, i).
           bind_result (copy_from data (unat i) (unat (len - i))) (\<lambda>bs.
           bind_result (copy_to buffer 0 bs) (\<lambda>buffer.
             Inr (context\<lparr>sc_state := state, sc_buffer := buffer\<rparr>))))))
         else
           bind_result (copy_from data 0 (unat len)) (\<lambda>bs.
           bind_result (copy_to (sc_buffer context) (unat j) bs) (\<lambda>buffer.
             Inr (context\<lparr>sc_buffer := buffer\<rparr>))))"

definition is_big_endian :: "bool \<Rightarrow> bool" where
  "is_big_endian big \<longleftrightarrow> store_word big 1 ! 0 = CHR 0x00"

text \<open>The buffer is not initialised; its contents are an argument.\<close>

definition SHA1_Init :: "string \<Rightarrow> SHA_CTX" where
  "SHA1_Init buffer =
     \<lparr>sc_state = [0x67452301, 0xEFCDAB89, 0x98BADCFE, 0x10325476, 0xC3D2E1F0], sc_count0 = 0, sc_count1 = 0, sc_buffer = buffer\<rparr>"

definition SHA1_Update :: "bool \<Rightarrow> SHA_CTX \<Rightarrow> string \<Rightarrow> SHA_CTX result" where
  "SHA1_Update big context data =
     (if is_big_endian big then internal_update big big_endian_blk0 context data
      else internal_update big little_endian_blk0 context data)"

definition finalcount :: "SHA_CTX \<Rightarrow> string" where
  "finalcount context =
     map (\<lambda>i. word_byte (drop_bit ((3 - i mod 4) * 8) (if i \<ge> 4 then sc_count0 context else sc_count1 context) AND 255)) [0..<8]"

definition pad_loop :: "bool \<Rightarrow> SHA_CTX \<Rightarrow> SHA_CTX result" where
  "pad_loop big context =
     returned (while_option (\<lambda>s. case s of Inl _ \<Rightarrow> False | Inr c \<Rightarrow> sc_count0 c AND 504 \<noteq> 448)
       (\<lambda>s. bind_result s (\<lambda>c. SHA1_Update big c [CHR 0x00])) (Inr context))"

definition SHA1_Final :: "bool \<Rightarrow> SHA_CTX \<Rightarrow> string result" where
  "SHA1_Final big context =
     bind_result (SHA1_Update big context [CHR 0x80]) (\<lambda>c.
     bind_result (pad_loop big c) (\<lambda>c.
     bind_result (SHA1_Update big c (finalcount context)) (\<lambda>c.
       Inr (map (\<lambda>i. word_byte (drop_bit ((3 - i mod 4) * 8) (sc_state c ! (i div 4)) AND 255)) [0..<20]))))"

text \<open>\<open>hasher\<close>: an object that is updated several times and then asked for the digest.\<close>

definition hasher :: "bool \<Rightarrow> string \<Rightarrow> string list \<Rightarrow> sha1_hash result" where
  "hasher big buffer pieces =
     bind_result (fold_result (\<lambda>data c. SHA1_Update big c data) pieces (SHA1_Init buffer)) (SHA1_Final big)"

subsection \<open>The standard\<close>

text \<open>
  SHA-1 as FIPS 180 states it: the functions \<open>Ch\<close>, \<open>Parity\<close> and \<open>Maj\<close>, the message schedule \<open>W\<close>, the compression of a block
  with five working variables, and the padding of a message to a multiple of 64 bytes with its length in bits.
\<close>

definition Ch :: "word32 \<Rightarrow> word32 \<Rightarrow> word32 \<Rightarrow> word32" where
  "Ch x y z = ((x AND y) XOR (NOT x AND z))"

definition Parity :: "word32 \<Rightarrow> word32 \<Rightarrow> word32 \<Rightarrow> word32" where
  "Parity x y z = (x XOR y XOR z)"

definition Maj :: "word32 \<Rightarrow> word32 \<Rightarrow> word32 \<Rightarrow> word32" where
  "Maj x y z = ((x AND y) XOR (x AND z) XOR (y AND z))"

definition fips_f :: "nat \<Rightarrow> word32 \<Rightarrow> word32 \<Rightarrow> word32 \<Rightarrow> word32" where
  "fips_f t = (if t < 20 then Ch else if t < 40 then Parity else if t < 60 then Maj else Parity)"

definition be_word :: "string \<Rightarrow> word32" where
  "be_word bs = fold (\<lambda>c w. push_bit 8 w OR byte_word c) bs 0"

text \<open>The first \<open>n\<close> words of the schedule.\<close>

fun schedule :: "string \<Rightarrow> nat \<Rightarrow> word32 list" where
  "schedule block 0 = []"
| "schedule block (Suc t) =
     (let ws = schedule block t in
      ws @ [if t < 16 then be_word (take 4 (drop (4 * t) block))
            else rol (ws ! (t - 3) XOR ws ! (t - 8) XOR ws ! (t - 14) XOR ws ! (t - 16)) 1])"

type_synonym digest5 = "word32 \<times> word32 \<times> word32 \<times> word32 \<times> word32"

definition fips_round :: "word32 list \<Rightarrow> nat \<Rightarrow> digest5 \<Rightarrow> digest5" where
  "fips_round W t = (\<lambda>(a, b, c, d, e).
     (rol a 5 + fips_f t b c d + e + round_const t + W ! t, a, rol b 30, c, d))"

definition fips_compress :: "string \<Rightarrow> digest5 \<Rightarrow> digest5" where
  "fips_compress block = (\<lambda>(h0, h1, h2, h3, h4).
     case fold (fips_round (schedule block 80)) [0..<80] (h0, h1, h2, h3, h4) of
       (a, b, c, d, e) \<Rightarrow> (h0 + a, h1 + b, h2 + c, h3 + d, h4 + e))"

definition blocks_of :: "string \<Rightarrow> string list" where
  "blocks_of m = map (\<lambda>i. take 64 (drop (64 * i) m)) [0..<length m div 64]"

definition be_bytes :: "nat \<Rightarrow> int \<Rightarrow> string" where
  "be_bytes n v = map (\<lambda>i. to_char (v div 256 ^ (n - 1 - i))) [0..<n]"

definition fips_pad :: "string \<Rightarrow> string" where
  "fips_pad m = m @ [CHR 0x80] @ replicate ((119 - length m mod 64) mod 64) (CHR 0x00) @ be_bytes 8 (8 * int (length m))"

definition fips_init :: digest5 where
  "fips_init = (0x67452301, 0xEFCDAB89, 0x98BADCFE, 0x10325476, 0xC3D2E1F0)"

definition fips_digest :: "digest5 \<Rightarrow> string" where
  "fips_digest = (\<lambda>(a, b, c, d, e). concat (map (\<lambda>w. be_bytes 4 (uint w)) [a, b, c, d, e]))"

definition sha1 :: "string \<Rightarrow> sha1_hash" where
  "sha1 m = fips_digest (fold fips_compress (blocks_of (fips_pad m)) fips_init)"

subsection \<open>A block\<close>

lemma round_fun_fips: "round_fun t w x y = fips_f t w x y"
proof -
  have "(w AND (x XOR y)) XOR y = Ch w x y" unfolding Ch_def by (rule bit_word_eqI) (auto simp: bit_simps)
  moreover have "((w OR x) AND y) OR (w AND x) = Maj w x y" unfolding Maj_def by (rule bit_word_eqI) (auto simp: bit_simps)
  ultimately show ?thesis by (simp add: round_fun_def fips_f_def Parity_def)
qed

lemma bit_byte_word: "bit (byte_word c) n \<Longrightarrow> n < 8"
proof -
  have "take_bit 8 (uchar c) = uchar c" using uchar_range [of c] by (simp add: take_bit_int_eq_self_iff)
  then have "bit (uchar c) n \<Longrightarrow> n < 8" by (metis bit_take_bit_iff)
  then show "bit (byte_word c) n \<Longrightarrow> n < 8" by (auto simp: byte_word_def bit_simps)
qed

lemma four_bytes:
  assumes "length bs = 4"
  obtains a b c d where "bs = [a, b, c, d]"
  using assms by (auto simp: length_Suc_conv eval_nat_numeral)

lemma be_word_load: "length bs = 4 \<Longrightarrow> be_word bs = load_word True bs"
  by (erule four_bytes) (simp add: be_word_def load_word_def Let_def push_bit_or or.assoc)

lemma bit_load_word:
  assumes "length bs = 4" "r < 8" "q < 4"
  shows "bit (load_word False bs) (8 * q + r) = bit (byte_word (bs ! q)) r"
    and "bit (load_word True bs) (8 * q + r) = bit (byte_word (bs ! (3 - q))) r"
proof -
  have b: "bit (byte_word c) k \<longleftrightarrow> False" if "8 \<le> k" for c k using bit_byte_word [of c k] that by auto
  have q: "q = 0 \<or> q = 1 \<or> q = 2 \<or> q = 3" using assms(3) by auto
  show "bit (load_word False bs) (8 * q + r) = bit (byte_word (bs ! q)) r"
    using q assms(2) by (elim disjE) (simp_all add: load_word_def Let_def bit_simps b)
  show "bit (load_word True bs) (8 * q + r) = bit (byte_word (bs ! (3 - q))) r"
    using q assms(2) by (elim disjE) (simp_all add: load_word_def Let_def bit_simps b)
qed

lemma bit_rol:
  assumes "n < 32" "k < 32"
  shows "bit (rol w k) n = bit w ((n + (32 - k)) mod 32)"
proof (cases "k \<le> n")
  case True
  then have "(n + (32 - k)) mod 32 = n - k" using assms by (simp add: mod_if)
  moreover have "\<not> bit w (n + (32 - k))" using True bit_imp_le_length by fastforce
  ultimately show ?thesis using True assms by (auto simp: rol_def bit_simps add.commute)
next
  case False
  then show ?thesis using assms by (auto simp: rol_def bit_simps add.commute)
qed

lemma byte_masks:
  assumes "r < 8" "q < 4"
  shows "bit (0xFF00FF00 :: word32) (8 * q + r) \<longleftrightarrow> odd q" "bit (0x00FF00FF :: word32) (8 * q + r) \<longleftrightarrow> even q"
proof -
  have m: "(0xFF00FF00 :: word32) = push_bit 24 (mask 8) OR push_bit 8 (mask 8)"
    "(0x00FF00FF :: word32) = push_bit 16 (mask 8) OR mask 8"
    by (simp_all add: mask_eq_exp_minus_1)
  have q: "q = 0 \<or> q = 1 \<or> q = 2 \<or> q = 3" using assms(2) by auto
  show "bit (0xFF00FF00 :: word32) (8 * q + r) \<longleftrightarrow> odd q" unfolding m using q assms(1) by (elim disjE) (simp_all add: bit_simps)
  show "bit (0x00FF00FF :: word32) (8 * q + r) \<longleftrightarrow> even q" unfolding m using q assms(1) by (elim disjE) (simp_all add: bit_simps)
qed

lemma byte_swap:
  assumes "length bs = 4"
  shows "(rol (load_word False bs) 24 AND 0xFF00FF00) OR (rol (load_word False bs) 8 AND 0x00FF00FF) = load_word True bs"
proof (rule bit_word_eqI)
  fix n
  assume "n < LENGTH(32)"
  then have n: "n < 32" by simp
  define q r where "q = n div 8" and "r = n mod 8"
  have qr: "n = 8 * q + r" "r < 8" "q < 4" using n by (auto simp: q_def r_def)
  have q: "q = 0 \<or> q = 1 \<or> q = 2 \<or> q = 3" using qr(3) by auto
  have "(8 * m + r) mod 32 = 8 * (m mod 4) + r" for m
    using mod_mult2_eq [of "8 * m + r" 8 4] qr(2) by simp
  from this [of "q + 1"] this [of "q + 3"]
  have "(n + 8) mod 32 = 8 * ((q + 1) mod 4) + r" "(n + 24) mod 32 = 8 * ((q + 3) mod 4) + r"
    by (simp_all add: qr(1) algebra_simps)
  then have "bit (rol (load_word False bs) 24) n = bit (byte_word (bs ! ((q + 1) mod 4))) r"
    "bit (rol (load_word False bs) 8) n = bit (byte_word (bs ! ((q + 3) mod 4))) r"
    using bit_rol [OF n, of 24 "load_word False bs"] bit_rol [OF n, of 8 "load_word False bs"] bit_load_word(1) [OF assms qr(2)] by simp_all
  then show "bit ((rol (load_word False bs) 24 AND 0xFF00FF00) OR (rol (load_word False bs) 8 AND 0x00FF00FF)) n = bit (load_word True bs) n"
    using q byte_masks [OF qr(2,3)] bit_load_word(2) [OF assms qr(2,3)]
    by (elim disjE) (simp_all add: bit_simps qr(1) flip: numeral_2_eq_2)
qed

text \<open>The schedule of the standard, word by word.\<close>

lemma length_schedule [simp]: "length (schedule block n) = n"
  by (induction n) (simp_all add: Let_def)

lemma schedule_prefix: "t < n \<Longrightarrow> schedule block n ! t = schedule block (Suc t) ! t"
  by (induction n) (auto simp: Let_def nth_append less_Suc_eq)

definition schedule_word :: "string \<Rightarrow> nat \<Rightarrow> word32" where
  "schedule_word block t = schedule block (Suc t) ! t"

lemma schedule_word_simps:
  "t < 16 \<Longrightarrow> schedule_word block t = be_word (take 4 (drop (4 * t) block))"
  "16 \<le> t \<Longrightarrow> schedule_word block t = rol (schedule_word block (t - 3) XOR schedule_word block (t - 8) XOR schedule_word block (t - 14) XOR schedule_word block (t - 16)) 1"
  using schedule_prefix [of _ t block] by (simp_all add: schedule_word_def Let_def nth_append)

text \<open>
  The sixteen words of the code's block are a window of the schedule: before round \<open>i\<close>, the words \<open>i - 16\<close> to \<open>i - 1\<close>
  are in their places, and the words that no round has used yet are those of the input.
\<close>

definition window :: "bool \<Rightarrow> string \<Rightarrow> nat \<Rightarrow> word32 list \<Rightarrow> bool" where
  "window big block i ws \<longleftrightarrow> length ws = 16 \<and> (\<forall>j < i. i \<le> j + 16 \<longrightarrow> ws ! (j mod 16) = schedule_word block j) \<and>
     (\<forall>j. i \<le> j \<longrightarrow> j < 16 \<longrightarrow> ws ! j = load_block big block ! j)"

definition blk0_of :: "bool \<Rightarrow> word32 list \<Rightarrow> nat \<Rightarrow> word32 \<times> word32 list" where
  "blk0_of big = (if big then big_endian_blk0 else little_endian_blk0)"

lemma load_block_nth: "j < 16 \<Longrightarrow> load_block big block ! j = load_word big (take 4 (drop (4 * j) block))"
  by (simp add: load_block_def)

lemma window_start: "window big block 0 (load_block big block)"
  by (simp add: window_def load_block_def)

lemma blk0_window:
  assumes "window big block i ws" "i < 16" "length block = 64"
  shows "\<exists>ws'. blk0_of big ws i = (schedule_word block i, ws') \<and> window big block (Suc i) ws'"
proof -
  have len: "length (take 4 (drop (4 * i) block)) = 4" using assms(2,3) by simp
  have w: "ws ! i = load_word big (take 4 (drop (4 * i) block))" "length ws = 16"
    using assms by (auto simp: window_def load_block_nth)
  have old: "ws ! j = schedule_word block j" if "j < i" for j using assms(1,2) that by (auto simp: window_def)
  have new: "ws ! j = load_block big block ! j" if "Suc i \<le> j" "j < 16" for j using assms(1) that by (auto simp: window_def)
  have W: "schedule_word block i = load_word True (take 4 (drop (4 * i) block))" using schedule_word_simps(1) [OF assms(2)] be_word_load [OF len] by simp
  have "window big block (Suc i) (ws[i := schedule_word block i])"
    using w(2) assms(2) old new by (auto simp: window_def less_Suc_eq nth_list_update)
  moreover have "blk0_of big ws i = (schedule_word block i, ws[i := schedule_word block i])"
  proof (cases big)
    case True
    then have "ws[i := schedule_word block i] = ws" using w W by (simp add: list_update_same_conv assms(2))
    then show ?thesis using True w W by (simp add: blk0_of_def big_endian_blk0_def)
  next
    case False
    then show ?thesis using w W byte_swap [OF len] by (simp add: blk0_of_def little_endian_blk0_def Let_def)
  qed
  ultimately show ?thesis by blast
qed

lemma blk_window:
  assumes "window big block i ws" "16 \<le> i"
  shows "\<exists>ws'. blk ws i = (schedule_word block i, ws') \<and> window big block (Suc i) ws'"
proof -
  have len: "length ws = 16" using assms(1) by (simp add: window_def)
  have at: "ws ! (j mod 16) = schedule_word block j" if "j < i" "i \<le> j + 16" for j using assms(1) that by (auto simp: window_def)
  have at': "ws ! (k mod 16) = schedule_word block j" if "k = j + 16" "j < i" "i \<le> j + 16" for j k using at [of j] that by simp
  have "ws ! ((i + 13) mod 16) = schedule_word block (i - 3)" "ws ! ((i + 8) mod 16) = schedule_word block (i - 8)"
    "ws ! ((i + 2) mod 16) = schedule_word block (i - 14)" "ws ! (i mod 16) = schedule_word block (i - 16)"
    by (rule at'; use assms(2) in simp)+
  then have "blk ws i = (schedule_word block i, ws[i mod 16 := schedule_word block i])"
    using schedule_word_simps(2) [OF assms(2), of block] by (simp add: blk_def Let_def)
  moreover have "window big block (Suc i) (ws[i mod 16 := schedule_word block i])"
  proof -
    have ne: "i mod 16 \<noteq> j mod 16" if "j < i" "Suc i \<le> j + 16" for j
    proof
      assume "i mod 16 = j mod 16"
      then have "(16 :: nat) dvd i - j" using that(1) by (metis less_imp_le mod_eq_dvd_iff_nat)
      then show False using that by (auto dest: dvd_imp_le)
    qed
    have "ws[i mod 16 := schedule_word block i] ! (j mod 16) = schedule_word block j" if "j < Suc i" "Suc i \<le> j + 16" for j
    proof (cases "j = i")
      case False
      then show ?thesis using that ne [of j] at [of j] by simp
    qed (simp add: len)
    then show ?thesis using len assms(2) by (simp add: window_def)
  qed
  ultimately show ?thesis by blast
qed

text \<open>The registers of the code before round \<open>i\<close> are the working variables of the standard, rotated.\<close>

definition digest_list :: "digest5 \<Rightarrow> word32 list" where
  "digest_list = (\<lambda>(a, b, c, d, e). [a, b, c, d, e])"

lemma five_cases: "i mod 5 = 0 \<or> i mod 5 = 1 \<or> i mod 5 = 2 \<or> i mod 5 = 3 \<or> i mod 5 = (4 :: nat)"
  by auto

lemma sha1_round_fips:
  assumes "window big block i ws" "length block = 64" "i < 80"
  shows "\<exists>ws'. sha1_round (blk0_of big) i (rotate i (digest_list t), ws) =
      (rotate (Suc i) (digest_list (fips_round (schedule block 80) i t)), ws') \<and> window big block (Suc i) ws'"
proof -
  obtain ws' where ws': "(if i < 16 then blk0_of big ws i else blk ws i) = (schedule_word block i, ws')" "window big block (Suc i) ws'"
    using blk0_window [OF assms(1) _ assms(2)] blk_window [OF assms(1)] by (cases "i < 16") auto
  obtain a b c d e where t: "t = (a, b, c, d, e)" by (cases t)
  have W: "schedule block 80 ! i = schedule_word block i" using schedule_prefix [OF assms(3)] by (simp add: schedule_word_def)
  have rot: "rotate i [x0, x1, x2, x3, x4] = rotate (i mod 5) [x0, x1, x2, x3, x4]"
    "rotate (Suc i) [x0, x1, x2, x3, x4] = rotate (Suc (i mod 5)) [x0, x1, x2, x3, x4]" for x0 x1 x2 x3 x4 :: word32
    by (simp_all add: rotate_conv_mod [of i] rotate_conv_mod [of "Suc i"] rotate_conv_mod [of "Suc (i mod 5)"] mod_Suc_eq)
  have m: "4 * i mod 5 = 4 * (i mod 5) mod 5" by (simp add: mod_mult_right_eq)
  have "sha1_round (blk0_of big) i (rotate i (digest_list t), ws) =
      (rotate (Suc i) (digest_list (fips_round (schedule block 80) i t)), ws')"
    unfolding sha1_round_def prod.case Let_def ws'(1) m t digest_list_def fips_round_def rot W
    using five_cases [of i]
    by (elim disjE) (simp_all add: round_fun_fips rotate_drop_take add_ac)
  then show ?thesis using ws'(2) by blast
qed

lemma sha1_rounds_fips:
  assumes "length block = 64" "n \<le> 80"
  shows "\<exists>ws. fold (sha1_round (blk0_of big)) [0..<n] (digest_list t, load_block big block) =
      (rotate n (digest_list (fold (fips_round (schedule block 80)) [0..<n] t)), ws) \<and> window big block n ws"
  using assms(2)
proof (induction n)
  case 0
  show ?case by (simp add: window_start)
next
  case (Suc n)
  then obtain ws where ws: "fold (sha1_round (blk0_of big)) [0..<n] (digest_list t, load_block big block) =
      (rotate n (digest_list (fold (fips_round (schedule block 80)) [0..<n] t)), ws)" "window big block n ws"
    by auto
  show ?case
    using sha1_round_fips [OF ws(2) assms(1), of "fold (fips_round (schedule block 80)) [0..<n] t"] Suc.prems ws(1) by simp
qed

lemma SHA1Transform_fips:
  assumes "length block = 64"
  shows "SHA1Transform big (blk0_of big) (digest_list h) block = digest_list (fips_compress block h)"
proof -
  let ?t = "fold (fips_round (schedule block 80)) [0..<80] h"
  have "fst (fold (sha1_round (blk0_of big)) [0..<80] (digest_list h, load_block big block)) = rotate 80 (digest_list ?t)"
    using sha1_rounds_fips [OF assms, of 80 big h] by auto
  moreover have "rotate 80 (digest_list ?t) = digest_list ?t"
    by (subst rotate_conv_mod) (simp add: digest_list_def split: prod.split)
  ultimately show ?thesis
    by (simp add: SHA1Transform_def fips_compress_def digest_list_def upt_rec split: prod.splits)
qed

subsection \<open>A message in pieces\<close>

definition rest_of :: "string \<Rightarrow> string" where
  "rest_of m = drop (64 * (length m div 64)) m"

lemma length_rest_of [simp]: "length (rest_of m) = length m mod 64"
  by (simp add: rest_of_def minus_mult_div_eq_mod)

lemma blocks_of_short: "length m < 64 \<Longrightarrow> blocks_of m = []" "length m < 64 \<Longrightarrow> rest_of m = m"
  by (simp_all add: blocks_of_def rest_of_def)

lemma blocks_of_step:
  assumes "64 \<le> length m"
  shows "blocks_of m = take 64 m # blocks_of (drop 64 m)" "rest_of m = rest_of (drop 64 m)"
proof -
  have d: "length m div 64 = Suc ((length m - 64) div 64)" using assms by (simp add: le_div_geq)
  show "blocks_of m = take 64 m # blocks_of (drop 64 m)"
    unfolding blocks_of_def length_drop d
    by (rule nth_equalityI) (auto simp: nth_Cons' algebra_simps simp flip: upt_Suc split: nat.split)
  show "rest_of m = rest_of (drop 64 m)" by (simp add: rest_of_def d add.commute)
qed

lemma blocks_of_append:
  "blocks_of (m @ d) = blocks_of m @ blocks_of (rest_of m @ d) \<and> rest_of (m @ d) = rest_of (rest_of m @ d)"
proof (induction "length m" arbitrary: m rule: less_induct)
  case less
  show ?case
  proof (cases "length m < 64")
    case True
    then show ?thesis by (simp add: blocks_of_short)
  next
    case False
    then show ?thesis using less [of "drop 64 m"] blocks_of_step [of m] blocks_of_step [of "m @ d"] by simp
  qed
qed

text \<open>The two counters are one number of 64 bits: the length of the message in bits.\<close>

definition bit_count :: "SHA_CTX \<Rightarrow> int" where
  "bit_count c = uint (sc_count1 c) * 2 ^ 32 + uint (sc_count0 c)"

lemma uint32_bounds: "0 \<le> uint (w :: word32) \<and> uint (w :: word32) < 2 ^ 32"
  using uint_lt2p [of w] by simp

lemma two_words:
  assumes "0 \<le> y" "y < 2 ^ 32"
  shows "x mod 2 ^ 32 * 2 ^ 32 + y = (x * 2 ^ 32 + y) mod (2 ^ 64 :: int)"
proof -
  have "(x * 2 ^ 32 + y) mod (2 ^ 32 * 2 ^ 32) = 2 ^ 32 * ((x * 2 ^ 32 + y) div 2 ^ 32 mod 2 ^ 32) + (x * 2 ^ 32 + y) mod 2 ^ 32"
    by (rule zmod_zmult2_eq) simp
  then show ?thesis using assms by simp
qed

lemma count_update:
  fixes c0 c1 :: word32
  assumes "n < 2 ^ 32"
  defines "len \<equiv> word_of_nat n :: word32"
  defines "c0' \<equiv> c0 + push_bit 3 len"
  defines "c1' \<equiv> (if c0' < push_bit 3 len then c1 + 1 else c1) + drop_bit 29 len"
  shows "uint c1' * 2 ^ 32 + uint c0' = (uint c1 * 2 ^ 32 + uint c0 + 8 * int n) mod 2 ^ 64"
proof -
  define a b where "a = 8 * int n mod 2 ^ 32" and "b = 8 * int n div 2 ^ 32"
  have ab: "0 \<le> a" "a < 2 ^ 32" "8 * int n = b * 2 ^ 32 + a"
    unfolding a_def b_def by (simp, simp, rule div_mult_mod_eq [symmetric])
  have n: "uint len = int n" using assms(1) by (simp add: len_def unsigned_of_nat take_bit_nat_eq_self)
  have push: "uint (push_bit 3 len) = a" by (simp add: a_def n push_bit_eq_mult uint_word_ariths mult.commute)
  have drop: "uint (drop_bit 29 len) = b"
    using div_mult_mult1 [of "8 :: int" "int n" "2 ^ 29"] by (simp add: b_def n drop_bit_eq_div uint_div_distrib)
  note c0 = uint32_bounds [of c0] and c1 = uint32_bounds [of c1]
  have c0': "uint c0' = (uint c0 + a) mod 2 ^ 32" by (simp add: c0'_def uint_word_ariths push)
  define k :: int where "k = (if c0' < push_bit 3 len then 1 else 0)"
  have k: "uint c0 + a = k * 2 ^ 32 + uint c0'"
  proof (cases "uint c0 + a < 2 ^ 32")
    case True
    then have "uint c0' = uint c0 + a" unfolding c0' using c0 ab by (intro mod_pos_pos_trivial) auto
    then show ?thesis using c0 by (simp add: k_def word_less_def push)
  next
    case False
    then have "uint c0' = (uint c0 + a - 2 ^ 32) mod 2 ^ 32" unfolding c0' by (intro mod_pos_geq) auto
    also have "\<dots> = uint c0 + a - 2 ^ 32" using False c0 ab by (intro mod_pos_pos_trivial) auto
    finally have "uint c0' = uint c0 + a - 2 ^ 32" .
    then show ?thesis using c0 by (simp add: k_def word_less_def push)
  qed
  have "uint c1' = (uint c1 + k + b) mod 2 ^ 32"
    by (simp add: c1'_def k_def uint_word_ariths drop mod_add_left_eq)
  then have "uint c1' * 2 ^ 32 + uint c0' = ((uint c1 + k + b) * 2 ^ 32 + uint c0') mod 2 ^ 64"
    using two_words [of "uint c0'"] uint32_bounds [of c0'] by simp
  also have "(uint c1 + k + b) * 2 ^ 32 + uint c0' = uint c1 * 2 ^ 32 + uint c0 + 8 * int n"
    using k ab(3) by (simp add: algebra_simps)
  finally show ?thesis .
qed

lemma buffer_position:
  assumes "uint c1 * 2 ^ 32 + uint (c0 :: word32) = 8 * int n mod 2 ^ 64"
  shows "unat (drop_bit 3 c0 AND 63) = n mod 64"
proof -
  have "uint c0 = (uint c1 * 2 ^ 32 + uint c0) mod 2 ^ 32" using uint32_bounds [of c0] by simp
  also have "\<dots> = 8 * int n mod 2 ^ 32" unfolding assms by (rule mod_mod_cancel) simp
  finally have c0: "uint c0 = 8 * (int n mod 2 ^ 29)" using mult_mod_right [of 8 "int n" "2 ^ 29"] by simp
  have "w AND 63 = take_bit 6 w" for w :: word32 by (simp add: take_bit_eq_mask mask_eq_exp_minus_1)
  then have "uint (drop_bit 3 c0 AND 63) = uint c0 div 8 mod 64"
    by (simp add: unsigned_take_bit_eq take_bit_eq_mod drop_bit_eq_div uint_div_distrib uint_mod_distrib)
  also have "\<dots> = int n mod 64" unfolding c0 by (simp add: mod_mod_cancel)
  finally have "int (unat (drop_bit 3 c0 AND 63)) = int (n mod 64)" by (simp add: zmod_int)
  then show ?thesis by linarith
qed

lemma unat_word_of_nat: "n < 2 ^ 32 \<Longrightarrow> unat (word_of_nat n :: word32) = n"
  by (simp add: unsigned_of_nat take_bit_nat_eq_self)

lemma transform_loop_blocks:
  assumes "length data < 2 ^ 32 - 64" "unat i \<le> length data"
  shows "transform_loop big (blk0_of big) data (word_of_nat (length data)) (digest_list h, i) =
    Inr (digest_list (fold fips_compress (blocks_of (drop (unat i) data)) h), i + word_of_nat (64 * ((length data - unat i) div 64)))"
  using assms(2)
proof (induction "length data - unat i" arbitrary: i h rule: less_induct)
  case less
  let ?len = "word_of_nat (length data) :: word32"
  let ?b = "\<lambda>s :: (word32 list \<times> word32) result. case s of Inl _ \<Rightarrow> False | Inr (_, i) \<Rightarrow> i + 63 < ?len"
  have len: "unat ?len = length data" using assms(1) by (intro unat_word_of_nat) simp
  have i63: "unat (i + 63) = unat i + 63" using less.prems assms(1) by (subst unat_add_lem [THEN iffD1]) auto
  have test: "i + 63 < ?len \<longleftrightarrow> 64 \<le> length data - unat i" using less.prems by (auto simp: word_less_nat_alt i63 len)
  show ?case
  proof (cases "64 \<le> length data - unat i")
    case False
    then have "\<not> ?b (Inr (digest_list h, i))" using test by simp
    then have "transform_loop big (blk0_of big) data ?len (digest_list h, i) = Inr (digest_list h, i)"
      unfolding transform_loop_def by (subst while_option_unfold) simp
    then show ?thesis using False by (simp add: blocks_of_short)
  next
    case True
    have i64: "unat (i + 64) = unat i + 64" using True less.prems assms(1) by (subst unat_add_lem [THEN iffD1]) auto
    have "copy_from data (unat i) 64 = Inr (take 64 (drop (unat i) data))" using True less.prems by (simp add: copy_from_def)
    then have step: "transform_step big (blk0_of big) data (Inr (digest_list h, i)) =
        Inr (digest_list (fips_compress (take 64 (drop (unat i) data)) h), i + 64)"
      using True by (simp add: transform_step_def SHA1Transform_fips)
    have "transform_loop big (blk0_of big) data ?len (digest_list h, i) =
        transform_loop big (blk0_of big) data ?len (digest_list (fips_compress (take 64 (drop (unat i) data)) h), i + 64)"
      unfolding transform_loop_def using test True step by (subst while_option_unfold) simp
    also have "\<dots> = Inr (digest_list (fold fips_compress (blocks_of (drop (unat (i + 64)) data)) (fips_compress (take 64 (drop (unat i) data)) h)),
        i + 64 + word_of_nat (64 * ((length data - unat (i + 64)) div 64)))"
      using True i64 by (intro less.hyps) auto
    also have "(length data - unat i) div 64 = Suc ((length data - unat (i + 64)) div 64)"
      using True by (simp add: i64 le_div_geq)
    moreover have "blocks_of (drop (unat i) data) = take 64 (drop (unat i) data) # blocks_of (drop (unat (i + 64)) data)"
      using blocks_of_step(1) [of "drop (unat i) data"] True by (simp add: i64 add.commute)
    ultimately show ?thesis by (simp add: algebra_simps)
  qed
qed

text \<open>What the context holds after the message \<open>m\<close>.\<close>

definition absorbed :: "SHA_CTX \<Rightarrow> string \<Rightarrow> bool" where
  "absorbed c m \<longleftrightarrow> sc_state c = digest_list (fold fips_compress (blocks_of m) fips_init) \<and> length (sc_buffer c) = 64 \<and>
     take (length m mod 64) (sc_buffer c) = rest_of m \<and> bit_count c = 8 * int (length m) mod 2 ^ 64"

lemma absorbed_init: "length buffer = 64 \<Longrightarrow> absorbed (SHA1_Init buffer) []"
  by (simp add: absorbed_def SHA1_Init_def digest_list_def fips_init_def blocks_of_short bit_count_def rest_of_def)

lemma absorbed_append:
  assumes "absorbed c m" "sc_state c' = digest_list (fold fips_compress (blocks_of (rest_of m @ d)) (fold fips_compress (blocks_of m) fips_init))"
    and "length (sc_buffer c') = 64" "take ((length m + length d) mod 64) (sc_buffer c') = rest_of (rest_of m @ d)"
    and "bit_count c' = (bit_count c + 8 * int (length d)) mod 2 ^ 64"
  shows "absorbed c' (m @ d)"
proof -
  have "bit_count c' = 8 * int (length (m @ d)) mod 2 ^ 64"
    using assms(1,5) by (simp add: absorbed_def mod_add_left_eq)
  then show ?thesis using assms(2-4) by (simp add: absorbed_def blocks_of_append [of m d])
qed

lemma overwrite: "length xs \<le> length ys \<Longrightarrow> length (xs @ drop (length xs) ys) = length ys"
  by simp

lemma internal_update_absorbed:
  assumes "absorbed c m" "length d < 2 ^ 32 - 64"
  shows "\<exists>c'. internal_update big (blk0_of big) c d = Inr c' \<and> absorbed c' (m @ d)"
proof -
  let ?len = "word_of_nat (length d) :: word32"
  define j where "j = (drop_bit 3 (sc_count0 c) AND 63)"
  define count0 where "count0 = sc_count0 c + push_bit 3 ?len"
  define count1 where "count1 = (if count0 < push_bit 3 ?len then sc_count1 c + 1 else sc_count1 c) + drop_bit 29 ?len"
  have len: "unat ?len = length d" using assms(2) by (intro unat_word_of_nat) simp
  define r where "r = length m mod 64"
  have r: "r < 64" "length (rest_of m) = r" by (simp_all add: r_def)
  have j: "unat j = r"
    using buffer_position [of "sc_count1 c" "sc_count0 c" "length m"] assms(1) by (simp add: j_def r_def absorbed_def bit_count_def)
  have jlen: "unat (j + ?len) = r + length d" using assms(2) r len j by (subst unat_add_lem [THEN iffD1]) auto
  have big: "j + ?len > 63 \<longleftrightarrow> 63 < r + length d" by (simp add: word_less_nat_alt jlen)
  have count: "uint count1 * 2 ^ 32 + uint count0 = (bit_count c + 8 * int (length d)) mod 2 ^ 64"
    using count_update [of "length d" "sc_count0 c" "sc_count1 c"] assms(2) by (simp add: count0_def count1_def bit_count_def)
  have c: "sc_state c = digest_list (fold fips_compress (blocks_of m) fips_init)" "length (sc_buffer c) = 64"
    "take r (sc_buffer c) = rest_of m" using assms(1) by (simp_all add: absorbed_def r_def)
  have lm: "(length m + k) mod 64 = (r + k) mod 64" for k by (simp add: r_def mod_add_left_eq)
  show ?thesis
  proof (cases "63 < r + length d")
    case False
    let ?buffer = "rest_of m @ d @ drop (r + length d) (sc_buffer c)"
    let ?c = "c\<lparr>sc_count0 := count0, sc_count1 := count1, sc_buffer := ?buffer\<rparr>"
    have "copy_to (sc_buffer c) r d = Inr ?buffer" using False c by (simp add: copy_to_def)
    then have "internal_update big (blk0_of big) c d = Inr ?c"
      using False big unfolding internal_update_def Let_def
      by (simp add: copy_from_def len j flip: j_def count0_def count1_def)
    moreover have "absorbed ?c (m @ d)"
      using False c r count by (intro absorbed_append [OF assms(1)]) (simp_all add: blocks_of_short lm bit_count_def)
    ultimately show ?thesis by blast
  next
    case True
    define i :: word32 where "i = 64 - j"
    have i: "unat i = 64 - r" using r j by (simp add: i_def unat_sub word_le_nat_alt)
    have le: "unat i \<le> length d" using True i by simp
    let ?block = "rest_of m @ take (64 - r) d"
    define k where "k = 64 * ((length d - unat i) div 64)"
    have k: "k + (length d - unat i) mod 64 = length d - unat i" by (simp add: k_def)
    have i': "unat (i + word_of_nat k) = unat i + k"
    proof -
      have "unat i + k < 2 ^ 32" using k le assms(2) by linarith
      moreover from this have "unat (word_of_nat k :: word32) = k" by (intro unat_word_of_nat) simp
      ultimately show ?thesis by (subst unat_add_lem [THEN iffD1]) auto
    qed
    have left: "unat (?len - (i + word_of_nat k)) = (length d - unat i) mod 64"
    proof -
      have "unat (i + word_of_nat k) \<le> unat ?len" using k i' len le by linarith
      then have "unat (?len - (i + word_of_nat k)) = length d - (unat i + k)" using i' len by (simp add: unat_sub word_le_nat_alt)
      then show ?thesis using k le by linarith
    qed
    have split: "blocks_of (rest_of m @ d) = ?block # blocks_of (drop (64 - r) d)" "rest_of (rest_of m @ d) = rest_of (drop (64 - r) d)"
      using blocks_of_step [of "rest_of m @ d"] True r by simp_all
    have block: "copy_to (sc_buffer c) r (take (64 - r) d) = Inr ?block" "length ?block = 64"
      using True c r by (simp_all add: copy_to_def)
    let ?buffer = "rest_of (drop (64 - r) d) @ drop (length (rest_of (drop (64 - r) d))) ?block"
    let ?state = "digest_list (fold fips_compress (blocks_of (rest_of m @ d)) (fold fips_compress (blocks_of m) fips_init))"
    let ?c = "c\<lparr>sc_count0 := count0, sc_count1 := count1, sc_state := ?state, sc_buffer := ?buffer\<rparr>"
    have rest: "copy_from d (unat (i + word_of_nat k)) ((length d - unat i) mod 64) = Inr (rest_of (drop (64 - r) d))"
    proof -
      have "unat (i + word_of_nat k) + (length d - unat i) mod 64 \<le> length d" using k i' le by linarith
      moreover have "rest_of (drop (64 - r) d) = drop (unat (i + word_of_nat k)) d"
        unfolding i' unfolding k_def rest_of_def length_drop drop_drop by (simp only: i add.commute)
      moreover have "length (drop (unat (i + word_of_nat k)) d) = (length d - unat i) mod 64" unfolding length_drop i' using k by linarith
      ultimately show ?thesis by (simp add: copy_from_def)
    qed
    have short: "length (rest_of (drop (64 - r) d)) < 64" by simp
    then have "copy_to ?block 0 (rest_of (drop (64 - r) d)) = Inr ?buffer" using block(2) by (simp add: copy_to_def)
    moreover have "transform_loop big (blk0_of big) d ?len (SHA1Transform big (blk0_of big) (sc_state c) ?block, i) =
        Inr (?state, i + word_of_nat k)"
      using transform_loop_blocks [OF assms(2) le, folded k_def] block(2) by (simp add: c(1) SHA1Transform_fips split i)
    moreover have "copy_from d 0 (64 - r) = Inr (take (64 - r) d)" using le i by (simp add: copy_from_def)
    ultimately have "internal_update big (blk0_of big) c d = Inr ?c"
      using True big block rest unfolding internal_update_def Let_def
      by (simp add: j i left flip: j_def count0_def count1_def i_def)
    moreover have "absorbed ?c (m @ d)"
    proof (rule absorbed_append [OF assms(1)])
      have "(r + length d) mod 64 = (length d - (64 - r)) mod 64" using True r by (simp add: mod_if [of "r + length d"] add.commute)
      then show "take ((length m + length d) mod 64) (sc_buffer ?c) = rest_of (rest_of m @ d)"
        by (simp add: split(2) lm)
      have "sc_buffer ?c = ?buffer" by simp
      then show "length (sc_buffer ?c) = 64"
        using overwrite [of "rest_of (drop (64 - r) d)" ?block] short block(2) by (simp only: less_imp_le)
    qed (use count in \<open>simp_all add: bit_count_def\<close>)
    ultimately show ?thesis by blast
  qed
qed

lemma is_big_endian_iff: "is_big_endian big \<longleftrightarrow> big"
  by (cases big) (simp_all add: is_big_endian_def store_word_def upt_rec word_byte_def to_char_def char_of_def)

lemma SHA1_Update_absorbed:
  assumes "absorbed c m" "length d < 2 ^ 32 - 64"
  obtains c' where "SHA1_Update big c d = Inr c'" "absorbed c' (m @ d)"
proof -
  have "SHA1_Update big c d = internal_update big (blk0_of big) c d" by (simp add: SHA1_Update_def is_big_endian_iff blk0_of_def)
  then show thesis using internal_update_absorbed [OF assms, of big] that by auto
qed

lemma hasher_absorbed:
  assumes "absorbed c m" "\<forall>d \<in> set pieces. length d < 2 ^ 32 - 64"
  shows "\<exists>c'. fold_result (\<lambda>d c. SHA1_Update big c d) pieces c = Inr c' \<and> absorbed c' (m @ concat pieces)"
  using assms
proof (induction pieces arbitrary: c m)
  case (Cons d pieces)
  obtain c' where "SHA1_Update big c d = Inr c'" "absorbed c' (m @ d)"
    using SHA1_Update_absorbed [OF Cons.prems(1)] Cons.prems(2) by (metis list.set_intros(1))
  then show ?case using Cons.IH [of c' "m @ d"] Cons.prems(2) by simp
qed auto

subsection \<open>The padding\<close>

lemma pad_test:
  assumes "absorbed c m"
  shows "sc_count0 c AND 504 = 448 \<longleftrightarrow> length m mod 64 = 56"
proof -
  let ?w = "sc_count0 c"
  have j: "unat (drop_bit 3 ?w AND 63) = length m mod 64"
    using buffer_position [of "sc_count1 c" ?w "length m"] assms by (simp add: absorbed_def bit_count_def)
  have m: "(504 :: word32) = push_bit 3 (mask 6)" "(63 :: word32) = mask 6" by (simp_all add: mask_eq_exp_minus_1)
  have "?w AND 504 = push_bit 3 (drop_bit 3 ?w AND 63)"
    unfolding m by (rule bit_word_eqI) (auto simp: bit_simps)
  also have "\<dots> = (drop_bit 3 ?w AND 63) * 8" by (simp add: push_bit_eq_mult)
  finally have "unat (?w AND 504) = unat (drop_bit 3 ?w AND 63) * 8"
    using j by (simp add: unat_word_ariths)
  then have "unat (?w AND 504) = 8 * (length m mod 64)" using j by simp
  then show ?thesis by (simp add: word_unat_eq_iff)
qed

lemma pad_length:
  assumes "r < (64 :: nat)"
  shows "(120 - r) mod 64 = (if r \<le> 56 then 56 - r else 120 - r)"
proof (cases "r \<le> 56")
  case True
  then have "120 - r = (56 - r) + 64" by simp
  then have "(120 - r) mod 64 = (56 - r) mod 64" by (simp only: mod_add_self2)
  moreover have "(56 - r) mod 64 = 56 - r" by (rule mod_less) simp
  ultimately show ?thesis using True by (simp only: if_True)
qed (use assms in simp)

lemma pad_loop_absorbed:
  assumes "absorbed c m" "k = (120 - length m mod 64) mod 64"
  shows "\<exists>c'. pad_loop big c = Inr c' \<and> absorbed c' (m @ replicate k (CHR 0x00))"
  using assms
proof (induction k arbitrary: c m)
  case 0
  have "length m mod 64 < 64" by simp
  then have "length m mod 64 = 56" using 0(2) pad_length [of "length m mod 64"] by (auto split: if_splits)
  then have "pad_loop big c = Inr c"
    unfolding pad_loop_def using pad_test [OF 0(1)] by (subst while_option_unfold) simp
  then show ?case using 0(1) by auto
next
  case (Suc k)
  let ?b = "\<lambda>s :: SHA_CTX result. case s of Inl _ \<Rightarrow> False | Inr c \<Rightarrow> sc_count0 c AND 504 \<noteq> 448"
  let ?r = "length m mod 64"
  have r: "?r < 64" by simp
  have ne: "?r \<noteq> 56" using Suc.prems(2) by auto
  obtain c1 where c1: "SHA1_Update big c [CHR 0x00] = Inr c1" "absorbed c1 (m @ [CHR 0x00])"
    using SHA1_Update_absorbed [OF Suc.prems(1), of "[CHR 0x00]" big] by auto
  have "pad_loop big c = pad_loop big c1"
    unfolding pad_loop_def using pad_test [OF Suc.prems(1)] ne c1(1) by (subst while_option_unfold) simp
  moreover have "k = (120 - length (m @ [CHR 0x00]) mod 64) mod 64"
  proof -
    have len: "length (m @ [CHR 0x00]) mod 64 = (if ?r = 63 then 0 else ?r + 1)" by (simp add: mod_Suc)
    have k: "Suc k = (if ?r \<le> 56 then 56 - ?r else 120 - ?r)" using Suc.prems(2) pad_length [OF r] by simp
    show ?thesis
    proof (cases "?r = 63")
      case True
      then show ?thesis using k len pad_length [of 0] by simp
    next
      case False
      then have r': "?r + 1 < 64" "length (m @ [CHR 0x00]) mod 64 = ?r + 1" using r len by simp_all
      have "k = (if x + 1 \<le> 56 then 56 - (x + 1) else 120 - (x + 1))"
        if "x \<noteq> 56" "x < 64" "Suc k = (if x \<le> 56 then 56 - x else 120 - x)" for x using that by (auto split: if_splits)
      then show ?thesis unfolding r'(2) pad_length [OF r'(1)] using ne r k by blast
    qed
  qed
  ultimately show ?case using Suc.IH [OF c1(2)] by simp
qed

lemma to_char_mod: "x mod 256 = y mod 256 \<Longrightarrow> to_char x = to_char y"
  by (metis to_char_uchar uchar_to_char)

lemma word_byte_drop: "word_byte (drop_bit k w AND 255) = to_char (uint w div 2 ^ k)"
proof -
  have "v AND 255 = take_bit 8 v" for v :: word32 by (simp add: take_bit_eq_mask mask_eq_exp_minus_1)
  then have "uint (drop_bit k w AND 255) = uint (drop_bit k w) mod 256"
    by (simp add: take_bit_eq_mod uint_mod_distrib)
  moreover have "uint (drop_bit k w) = uint w div 2 ^ k"
  proof -
    have "take_bit 32 (uint w) = uint w" using uint32_bounds [of w] by (intro take_bit_int_eq_self) auto
    then show ?thesis by (subst unsigned_drop_bit_eq) (simp add: drop_bit_eq_div)
  qed
  ultimately show ?thesis unfolding word_byte_def by (intro to_char_mod) simp
qed

lemma byte_of_mod:
  assumes "k + 8 \<le> n"
  shows "(v mod 2 ^ n) div 2 ^ k mod 256 = v div 2 ^ k mod (256 :: int)"
proof -
  have "take_bit 8 (drop_bit k (take_bit n v)) = take_bit 8 (drop_bit k v)"
    using assms by (simp add: drop_bit_take_bit)
  then show ?thesis by (simp add: take_bit_eq_mod drop_bit_eq_div)
qed

lemma finalcount_bytes:
  assumes "absorbed c m"
  shows "finalcount c = be_bytes 8 (8 * int (length m))"
proof -
  let ?v = "8 * int (length m)"
  have B: "uint (sc_count1 c) * 2 ^ 32 + uint (sc_count0 c) = ?v mod 2 ^ 64" using assms by (simp add: absorbed_def bit_count_def)
  have c0: "uint (sc_count0 c) = ?v mod 2 ^ 32"
  proof -
    have "uint (sc_count0 c) = (uint (sc_count1 c) * 2 ^ 32 + uint (sc_count0 c)) mod 2 ^ 32" using uint32_bounds [of "sc_count0 c"] by simp
    also have "\<dots> = ?v mod 2 ^ 32" unfolding B by (rule mod_mod_cancel) simp
    finally show ?thesis .
  qed
  have c1: "uint (sc_count1 c) = ?v mod 2 ^ 64 div 2 ^ 32"
    unfolding B [symmetric] using uint32_bounds [of "sc_count0 c"] by simp
  have byte: "word_byte (drop_bit ((3 - i mod 4) * 8) (if i \<ge> 4 then sc_count0 c else sc_count1 c) AND 255) = to_char (?v div 256 ^ (7 - i))"
    if "i < 8" for i
  proof -
    have p: "(256 :: int) ^ (7 - i) = 2 ^ (8 * (7 - i))" by (simp add: power_mult)
    show ?thesis
    proof (cases "4 \<le> i")
      case True
      then have "(3 - i mod 4) * 8 = 8 * (7 - i)" using that by (simp add: mod_if)
      then show ?thesis
        unfolding word_byte_drop p using True that byte_of_mod [of "8 * (7 - i)" 32 ?v] by (intro to_char_mod) (simp add: c0 mult.commute)
    next
      case False
      then have e: "8 * (7 - i) = 32 + (3 - i mod 4) * 8" using that by simp
      have "uint (sc_count1 c) div 2 ^ ((3 - i mod 4) * 8) = ?v mod 2 ^ 64 div 2 ^ (8 * (7 - i))"
        unfolding c1 e power_add by (rule zdiv_zmult2_eq [symmetric]) simp
      then show ?thesis
        unfolding word_byte_drop p using False that byte_of_mod [of "8 * (7 - i)" 64 ?v] by (intro to_char_mod) simp
    qed
  qed
  show ?thesis unfolding finalcount_def be_bytes_def by (intro map_cong) (use byte in auto)
qed

lemma digest_bytes:
  "map (\<lambda>i. word_byte (drop_bit ((3 - i mod 4) * 8) (digest_list h ! (i div 4)) AND 255)) [0..<20] = fips_digest h"
proof -
  obtain a b c d e where h: "h = (a, b, c, d, e)" by (cases h)
  show ?thesis
    unfolding word_byte_drop h digest_list_def fips_digest_def be_bytes_def prod.case
    by (simp add: upt_rec)
qed

lemma SHA1_Final_absorbed:
  assumes "absorbed c m"
  shows "SHA1_Final big c = Inr (sha1 m)"
proof -
  obtain c1 where c1: "SHA1_Update big c [CHR 0x80] = Inr c1" "absorbed c1 (m @ [CHR 0x80])"
    using SHA1_Update_absorbed [OF assms, of "[CHR 0x80]" big] by auto
  let ?k = "(120 - length (m @ [CHR 0x80]) mod 64) mod 64"
  obtain c2 where c2: "pad_loop big c1 = Inr c2" "absorbed c2 ((m @ [CHR 0x80]) @ replicate ?k (CHR 0x00))"
    using pad_loop_absorbed [OF c1(2) refl] by blast
  have "?k = (119 - length m mod 64) mod 64" by (cases "length m mod 64 = 63") (simp_all add: mod_Suc)
  then have c2': "absorbed c2 (m @ [CHR 0x80] @ replicate ((119 - length m mod 64) mod 64) (CHR 0x00))" using c2(2) by simp
  have "length (finalcount c) < 2 ^ 32 - 64" by (simp add: finalcount_def)
  then obtain c3 where c3: "SHA1_Update big c2 (finalcount c) = Inr c3" "absorbed c3 (fips_pad m)"
    using SHA1_Update_absorbed [OF c2', of "finalcount c" big] finalcount_bytes [OF assms] by (auto simp: fips_pad_def)
  have "sc_state c3 = digest_list (fold fips_compress (blocks_of (fips_pad m)) fips_init)" using c3(2) by (simp add: absorbed_def)
  then show ?thesis
    using c1(1) c2(1) c3(1) digest_bytes by (simp add: SHA1_Final_def sha1_def)
qed



end
