(* ===== verification/CreateTorrent.thy ===== *)
theory CreateTorrent
  imports TorrentParse
begin

section \<open>Making torrents (\<open>libtorrent/src/create_torrent.cpp\<close>, \<open>create_torrent.hpp\<close>)\<close>

text \<open>
  How a torrent is made from files: the files of a directory are listed, a piece length is chosen, the pieces are hashed, and
  the dictionary that is written to the torrent file is put together. The properties are about what the parser
  of \<open>TorrentInfo\<close> reads from that dictionary. Parameters are the file system, the clock, the hash function, \<open>std::sort\<close>,
  and \<open>uninit\<close>, the contents of a \<open>sha1_hash\<close> whose default constructor leaves it as it is.
\<close>

record create_torrent =
  ct_files :: file_storage
  ct_info_dict :: entry
  ct_urls :: "(string \<times> int) list"
  ct_url_seeds :: "string list"
  ct_piece_hash :: "sha1_hash list"
  ct_nodes :: "(string \<times> int) list"
  ct_info_hash :: sha1_hash
  ct_creation_date :: int   \<comment> \<open>in seconds since the first of January 1970\<close>
  ct_comment :: string
  ct_created_by :: string
  ct_multifile :: bool
  ct_private :: bool
  ct_merkle_torrent :: bool

subsection \<open>Listing the files\<close>

text \<open>
  What the code asks of the file system: \<open>is_directory\<close> and the names in a directory, the mode and the time of modification
  from \<open>lstat\<close>, the size of a file, and the target that \<open>readlink\<close> copies.
\<close>

record disk_ops =
  is_directory :: "string \<Rightarrow> bool"
  directory_names :: "string \<Rightarrow> string list"
  lstat :: "string \<Rightarrow> (int \<times> int) option"
  disk_file_size :: "string \<Rightarrow> int result"
  readlink :: "string \<Rightarrow> string option"

definition get_file_attributes :: "disk_ops \<Rightarrow> string \<Rightarrow> int" where
  "get_file_attributes disk p =
     (case lstat disk p of
        None \<Rightarrow> 0
      | Some (mode, _) \<Rightarrow> (if flag_set mode 64 then 4 else 0) + (if mode div 4096 mod 16 = 10 then 8 else 0))"

definition get_file_mtime :: "disk_ops \<Rightarrow> string \<Rightarrow> int" where
  "get_file_mtime disk p = (case lstat disk p of None \<Rightarrow> 0 | Some (_, mtime) \<Rightarrow> mtime)"

definition get_symlink_path :: "disk_ops \<Rightarrow> string \<Rightarrow> string" where
  "get_symlink_path disk p =
     (case readlink disk p of
        None \<Rightarrow> ''''
      | Some target \<Rightarrow> if length target < 200 then c_str target else '''')"

definition ignore_subdir :: "string \<Rightarrow> bool" where
  "ignore_subdir leaf \<longleftrightarrow> leaf = ''..'' \<or> leaf = ''.''"

definition path_filename :: "fs_ops \<Rightarrow> string \<Rightarrow> string" where
  "path_filename ops p = (if path_elements ops p = [] then '''' else last (path_elements ops p))"

text \<open>The recursion follows links to directories, so that it need not end; the first argument bounds its depth.\<close>

fun add_files_impl :: "nat \<Rightarrow> fs_ops \<Rightarrow> disk_ops \<Rightarrow> (string \<Rightarrow> bool) \<Rightarrow> string \<Rightarrow> string \<Rightarrow> file_storage \<Rightarrow> file_storage result" where
  "add_files_impl 0 ops disk pred p l st = Inl Diverges"
| "add_files_impl (Suc fuel) ops disk pred p l st =
     (if ignore_subdir (path_filename ops l) then Inr st
      else if \<not> pred l then Inr st
      else
        let f = path_append ops p l in
        if is_directory disk f then
          fold_result (\<lambda>name. add_files_impl fuel ops disk pred p (path_append ops l name)) (directory_names disk f) st
        else
          let file_flags = get_file_attributes disk f;
              mtime = get_file_mtime disk f
          in if flag_set file_flags 8 then Inr (add_file ops l 0 file_flags mtime (get_symlink_path disk f) st)
             else bind_result (disk_file_size disk f) (\<lambda>sz. Inr (add_file ops l sz file_flags mtime '''' st)))"

subsection \<open>The object\<close>

text \<open>The loop that chooses the piece length, and \<open>resize\<close> of the vector of hashes.\<close>

definition automatic_piece_size :: "int \<Rightarrow> int result" where
  "automatic_piece_size total_size =
     (let target = int32 (total_size sdiv 2048) in
      case while_option (\<lambda>i. i < 2097152 \<and> target > i) (\<lambda>i. int32 (i * 2)) 16384 of
        None \<Rightarrow> Inl Diverges
      | Some i \<Rightarrow> Inr i)"

definition resize_hashes :: "sha1_hash \<Rightarrow> int \<Rightarrow> sha1_hash list result" where
  "resize_hashes uninit n = (if n < 0 then Inl (Thrown ''length_error'') else Inr (replicate (nat n) uninit))"

definition create_torrent_files :: "fs_ops \<Rightarrow> sha1_hash \<Rightarrow> int \<Rightarrow> int \<Rightarrow> int \<Rightarrow> int \<Rightarrow> file_storage \<Rightarrow> create_torrent result" where
  "create_torrent_files ops uninit now piece_length pad_file_limit flags fs =
     bind_result (if num_files fs > 1 then Inr True
                  else bind_result (file_at 0 fs) (\<lambda>f. Inr (has_parent_path ops (fe_path f)))) (\<lambda>multifile.
     bind_result (if piece_length = 0 \<and> \<not> flag_set flags 2 then automatic_piece_size (m_total_size fs)
                  else if piece_length = 0 then Inr 65536 else Inr piece_length) (\<lambda>piece_length.
     bind_result (if flag_set flags 1 then optimize ops pad_file_limit (set_piece_length piece_length fs)
                  else Inr (set_piece_length piece_length fs)) (\<lambda>fs.
     let fs = set_num_pieces (piece_count fs) fs in
     bind_result (resize_hashes uninit (m_num_pieces fs)) (\<lambda>hashes.
       Inr \<lparr>ct_files = fs, ct_info_dict = Undefined, ct_urls = [], ct_url_seeds = [], ct_piece_hash = hashes,
            ct_nodes = [], ct_info_hash = uninit, ct_creation_date = now, ct_comment = '''', ct_created_by = '''',
            ct_multifile = multifile, ct_private = False, ct_merkle_torrent = flag_set flags 2\<rparr>))))"

definition ct_add_tracker :: "((string \<times> int) list \<Rightarrow> (string \<times> int) list) \<Rightarrow> string \<Rightarrow> int \<Rightarrow> create_torrent \<Rightarrow> create_torrent" where
  "ct_add_tracker sort_by_tier url tier ct = ct\<lparr>ct_urls := sort_by_tier (ct_urls ct @ [(url, tier)])\<rparr>"

definition ct_set_hash :: "int \<Rightarrow> sha1_hash \<Rightarrow> create_torrent \<Rightarrow> create_torrent result" where
  "ct_set_hash index h ct =
     (if 0 \<le> index \<and> index < int (length (ct_piece_hash ct)) then Inr (ct\<lparr>ct_piece_hash := (ct_piece_hash ct)[nat index := h]\<rparr>)
      else Inl Out_of_bounds)"

definition ct_add_node :: "string \<times> int \<Rightarrow> create_torrent \<Rightarrow> create_torrent" where
  "ct_add_node node ct = ct\<lparr>ct_nodes := ct_nodes ct @ [node]\<rparr>"

definition ct_add_url_seed :: "string \<Rightarrow> create_torrent \<Rightarrow> create_torrent" where
  "ct_add_url_seed url ct = ct\<lparr>ct_url_seeds := ct_url_seeds ct @ [url]\<rparr>"

definition ct_set_comment :: "string \<Rightarrow> create_torrent \<Rightarrow> create_torrent" where
  "ct_set_comment str ct = ct\<lparr>ct_comment := c_str str\<rparr>"

definition ct_set_creator :: "string \<Rightarrow> create_torrent \<Rightarrow> create_torrent" where
  "ct_set_creator str ct = ct\<lparr>ct_created_by := c_str str\<rparr>"

definition ct_set_priv :: "bool \<Rightarrow> create_torrent \<Rightarrow> create_torrent" where
  "ct_set_priv p ct = ct\<lparr>ct_private := p\<rparr>"

text \<open>The constructor from a torrent, which keeps its info dictionary.\<close>

definition create_torrent_info :: "((string \<times> int) list \<Rightarrow> (string \<times> int) list) \<Rightarrow> sha1_hash \<Rightarrow> int \<Rightarrow> torrent_info
    \<Rightarrow> create_torrent result" where
  "create_torrent_info sort_by_tier uninit now ti =
     (let ct = \<lparr>ct_files = ti_files ti, ct_info_dict = Undefined, ct_urls = [], ct_url_seeds = [], ct_piece_hash = [],
            ct_nodes = [], ct_info_hash = uninit,
            ct_creation_date = (case ti_creation_date ti of Some d \<Rightarrow> d | None \<Rightarrow> now), ct_comment = '''', ct_created_by = '''',
            ct_multifile = num_files (ti_files ti) > 1, ct_private = ti_private ti, ct_merkle_torrent = is_merkle_torrent ti\<rparr>;
          ct = (if ti_created_by ti \<noteq> [] then ct_set_creator (ti_created_by ti) ct else ct);
          ct = (if ti_comment ti \<noteq> [] then ct_set_comment (ti_comment ti) ct else ct);
          ct = fold ct_add_node (ti_nodes ti) ct;
          ct = fold (\<lambda>e. ct_add_tracker sort_by_tier (ae_url e) (ae_tier e)) (ti_urls ti) ct;
          ct = fold ct_add_url_seed (ti_url_seeds ti) ct
      in bind_result (resize_hashes uninit (m_num_pieces (ti_files ti))) (\<lambda>hashes.
         bind_result (fold_result (\<lambda>i ct. bind_result (hash_for_piece i ti) (\<lambda>h. ct_set_hash i h ct))
             (map int [0..<nat (m_num_pieces (ti_files ti))]) (ct\<lparr>ct_piece_hash := hashes\<rparr>)) (\<lambda>ct.
         bind_result (bdecode (ti_info_section ti)) (\<lambda>d.
           Inr (ct\<lparr>ct_info_dict := d, ct_info_hash := ti_info_hash ti\<rparr>)))))"

text \<open>
  \<open>set_piece_hashes\<close>: \<open>rd i n\<close> is what the storage reads of piece \<open>i\<close>, \<open>n\<close> bytes or an error. The first error ends the
  loop and is returned beside the object. The callback that reports progress is left out.
\<close>

definition hash_piece :: "(int \<Rightarrow> int \<Rightarrow> string + string) \<Rightarrow> (string \<Rightarrow> sha1_hash) \<Rightarrow> int \<Rightarrow> create_torrent \<times> string option
    \<Rightarrow> (create_torrent \<times> string option) result" where
  "hash_piece rd hash i = (\<lambda>(ct, ec).
     if ec \<noteq> None then Inr (ct, ec)
     else case rd i (piece_size i (ct_files ct)) of
       Inl e \<Rightarrow> Inr (ct, Some e)
     | Inr bytes \<Rightarrow> bind_result (ct_set_hash i (hash bytes) ct) (\<lambda>ct. Inr (ct, None)))"

definition set_piece_hashes :: "(int \<Rightarrow> int \<Rightarrow> string + string) \<Rightarrow> (string \<Rightarrow> sha1_hash) \<Rightarrow> create_torrent
    \<Rightarrow> (create_torrent \<times> string option) result" where
  "set_piece_hashes rd hash ct =
     fold_result (hash_piece rd hash) (map int [0..<nat (m_num_pieces (ct_files ct))]) (ct, None)"

subsection \<open>The dictionary\<close>

definition assign_if :: "bool \<Rightarrow> string \<Rightarrow> entry \<Rightarrow> entry \<Rightarrow> entry result" where
  "assign_if c key v e = (if c then subscript_assign e key v else Inr e)"

text \<open>
  The loops over the elements of a path push them to an entry that was undefined before, which the first element
  makes a list. Without elements the entry stays undefined.
\<close>

definition path_entry :: "string list \<Rightarrow> entry" where
  "path_entry es = (if es = [] then Undefined else List (map String es))"

definition attr_string :: "file_entry \<Rightarrow> string" where
  "attr_string f =
     (if fe_pad_file f then ''p'' else '''') @ (if fe_hidden_attribute f then ''h'' else '''') @
     (if fe_executable_attribute f then ''x'' else '''') @ (if fe_symlink_attribute f then ''l'' else '''')"

definition generate_attributes :: "fs_ops \<Rightarrow> file_entry \<Rightarrow> entry \<Rightarrow> entry result" where
  "generate_attributes ops f e =
     bind_result (assign_if (fe_pad_file f \<or> fe_hidden_attribute f \<or> fe_executable_attribute f \<or> fe_symlink_attribute f)
         ''attr'' (String (attr_string f)) e)
       (assign_if (fe_symlink_attribute f) ''symlink path'' (path_entry (path_elements ops (fe_symlink_path f))))"

definition generate_file_entry :: "fs_ops \<Rightarrow> file_entry \<Rightarrow> entry result" where
  "generate_file_entry ops f =
     bind_result (subscript_assign Undefined ''mtime'' (Integer (fe_mtime f))) (\<lambda>e.
     bind_result (subscript_assign e ''length'' (Integer (fe_size f))) (\<lambda>e.
       case path_elements ops (fe_path f) of
         [] \<Rightarrow> Inl Out_of_bounds
       | _ # es \<Rightarrow> bind_result (subscript_assign e ''path'' (path_entry es)) (generate_attributes ops f)))"

definition generate_files :: "fs_ops \<Rightarrow> file_entry list \<Rightarrow> entry \<Rightarrow> entry result" where
  "generate_files ops fs info =
     bind_result (find_key info ''files'') (\<lambda>k.
       case k of
         Some _ \<Rightarrow> Inr info
       | None \<Rightarrow>
           bind_result (fold_result (\<lambda>f files. bind_result (generate_file_entry ops f) (\<lambda>e. Inr (files @ [e]))) fs []) (\<lambda>files.
             subscript_assign info ''files'' (if files = [] then Undefined else List files)))"

definition generate_single :: "fs_ops \<Rightarrow> file_storage \<Rightarrow> entry \<Rightarrow> entry result" where
  "generate_single ops st info =
     bind_result (file_at 0 st) (\<lambda>f.
     bind_result (subscript_assign info ''mtime'' (Integer (fe_mtime f))) (\<lambda>info.
     bind_result (subscript_assign info ''length'' (Integer (fe_size f))) (generate_attributes ops f)))"

text \<open>
  The tree of a Merkle torrent: the leaves, then the levels from the bottom up. \<open>merkle_join\<close> is the body of the
  loop over the pairs of a level.
\<close>

definition merkle_leaves :: "sha1_hash \<Rightarrow> int \<Rightarrow> sha1_hash list \<Rightarrow> (sha1_hash list \<times> int \<times> int) result" where
  "merkle_leaves uninit num_pieces hashes =
     (let num_leafs = merkle_num_leafs num_pieces;
          num_nodes = merkle_num_nodes num_leafs;
          first_leaf = int32 (num_nodes - num_leafs)
      in bind_result (resize_hashes uninit num_nodes) (\<lambda>tree.
         bind_result (store_nodes (map (\<lambda>i. (first_leaf + int i, hashes ! i)) [0..<length hashes]) tree) (\<lambda>tree.
         bind_result (store_nodes (map (\<lambda>i. (first_leaf + int i, replicate 20 (CHR 0x00))) [length hashes..<nat num_leafs]) tree) (\<lambda>tree.
           Inr (tree, first_leaf, num_leafs)))))"

definition merkle_join :: "(string \<Rightarrow> sha1_hash) \<Rightarrow> int \<Rightarrow> int \<Rightarrow> sha1_hash list \<Rightarrow> sha1_hash list result" where
  "merkle_join hash i parent tree =
     bind_result (read_at tree i) (\<lambda>a.
     bind_result (read_at tree (i + 1)) (\<lambda>b.
       store_nodes [(parent, hash (a @ b))] tree))"

definition merkle_level :: "(string \<Rightarrow> sha1_hash) \<Rightarrow> (sha1_hash list \<times> int \<times> int) result \<Rightarrow> (sha1_hash list \<times> int \<times> int) result" where
  "merkle_level hash s =
     bind_result s (\<lambda>(tree, level_start, level_size).
       let parent = merkle_get_parent level_start in
       bind_result (fold_result (\<lambda>k. merkle_join hash (level_start + 2 * k) (parent + k))
           (map int [0..<nat ((level_size + 1) div 2)]) tree) (\<lambda>tree.
         Inr (tree, parent, level_size sdiv 2)))"

definition merkle_root_tree :: "(string \<Rightarrow> sha1_hash) \<Rightarrow> sha1_hash \<Rightarrow> int \<Rightarrow> sha1_hash list \<Rightarrow> sha1_hash list result" where
  "merkle_root_tree hash uninit num_pieces hashes =
     (case while_option (\<lambda>s. case s of Inl _ \<Rightarrow> False | Inr (_, level_start, _) \<Rightarrow> level_start > 0)
             (merkle_level hash) (merkle_leaves uninit num_pieces hashes) of
        None \<Rightarrow> Inl Diverges
      | Some s \<Rightarrow> bind_result s (\<lambda>(tree, _, _). Inr tree))"

definition generate_info :: "fs_ops \<Rightarrow> (string \<Rightarrow> sha1_hash) \<Rightarrow> sha1_hash \<Rightarrow> create_torrent \<Rightarrow> entry result" where
  "generate_info ops hash uninit ct =
     (let st = ct_files ct in
      bind_result (subscript_assign Undefined ''name'' (String (m_name st))) (\<lambda>info.
      bind_result (assign_if (ct_private ct) ''private'' (Integer 1) info) (\<lambda>info.
      bind_result (if \<not> ct_multifile ct then generate_single ops st info else generate_files ops (m_files st) info) (\<lambda>info.
      bind_result (subscript_assign info ''piece length'' (Integer (m_piece_length st))) (\<lambda>info.
        if ct_merkle_torrent ct then
          bind_result (merkle_root_tree hash uninit (m_num_pieces st) (ct_piece_hash ct)) (\<lambda>tree.
          bind_result (read_at tree 0) (\<lambda>root. subscript_assign info ''root hash'' (String root)))
        else subscript_assign info ''pieces'' (String (concat (ct_piece_hash ct))))))))"

definition node_entry :: "string \<times> int \<Rightarrow> entry" where
  "node_entry n = List [String (fst n), Integer (snd n)]"

text \<open>The loop that groups the URLs of the trackers by tier.\<close>

definition announce_step :: "string \<times> int \<Rightarrow> entry list \<times> entry list \<times> int \<Rightarrow> entry list \<times> entry list \<times> int" where
  "announce_step = (\<lambda>(url, t) (trackers, tier, current_tier).
     if t \<noteq> current_tier then (trackers @ [List tier], [String url], t) else (trackers, tier @ [String url], current_tier))"

definition announce_list :: "(string \<times> int) list \<Rightarrow> entry" where
  "announce_list urls =
     (let (trackers, tier, _) = fold announce_step urls ([], [], snd (hd urls)) in List (trackers @ [List tier]))"

definition generate_outer :: "create_torrent \<Rightarrow> entry result" where
  "generate_outer ct =
     bind_result (assign_if (ct_urls ct \<noteq> []) ''announce'' (String (fst (hd (ct_urls ct)))) Undefined) (\<lambda>d.
     bind_result (assign_if (ct_nodes ct \<noteq> []) ''nodes'' (List (map node_entry (ct_nodes ct))) d) (\<lambda>d.
     bind_result (assign_if (length (ct_urls ct) > 1) ''announce-list'' (announce_list (ct_urls ct)) d) (\<lambda>d.
     bind_result (assign_if (ct_comment ct \<noteq> []) ''comment'' (String (ct_comment ct)) d) (\<lambda>d.
     bind_result (subscript_assign d ''creation date'' (Integer (ct_creation_date ct))) (\<lambda>d.
     bind_result (assign_if (ct_created_by ct \<noteq> []) ''created by'' (String (ct_created_by ct)) d) (\<lambda>d.
       assign_if (ct_url_seeds ct \<noteq> []) ''url-list''
         (if length (ct_url_seeds ct) = 1 then String (hd (ct_url_seeds ct)) else List (map String (ct_url_seeds ct))) d))))))"

text \<open>\<open>generate\<close>: the dictionary, and the object with the hash that was computed.\<close>

definition generate :: "fs_ops \<Rightarrow> (string \<Rightarrow> sha1_hash) \<Rightarrow> sha1_hash \<Rightarrow> create_torrent \<Rightarrow> (entry \<times> create_torrent) result" where
  "generate ops hash uninit ct =
     (if num_files (ct_files ct) = 0 then Inr (Undefined, ct)
      else
        bind_result (generate_outer ct) (\<lambda>dict.
          case ct_info_dict ct of
            Dict d \<Rightarrow> bind_result (subscript_assign dict ''info'' (Dict d)) (\<lambda>dict. Inr (dict, ct))
          | _ \<Rightarrow>
              bind_result (generate_info ops hash uninit ct) (\<lambda>info.
              bind_result (subscript_assign dict ''info'' info) (\<lambda>dict.
                Inr (dict, ct\<lparr>ct_info_hash := hash (snd (bencode info))\<rparr>)))))"

subsection \<open>The dictionaries that are built\<close>

text \<open>
  An entry that is a dictionary with the given contents, where an undefined entry counts as an empty one, and an operation that
  returns such an entry.
\<close>

definition holds_dict :: "entry \<Rightarrow> (string \<Rightarrow> entry option) \<Rightarrow> bool" where
  "holds_dict e m \<longleftrightarrow>
     (case e of Undefined \<Rightarrow> m = Map.empty | Dict d \<Rightarrow> sorted_keys d \<and> map_of d = m | _ \<Rightarrow> False)"

definition returns_dict :: "entry result \<Rightarrow> (string \<Rightarrow> entry option) \<Rightarrow> bool" where
  "returns_dict r m \<longleftrightarrow> (\<exists>d. r = Inr (Dict d) \<and> sorted_keys d \<and> map_of d = m)"

lemma holds_dict_simps [simp]: "holds_dict Undefined Map.empty" "holds_dict (Dict d) m \<longleftrightarrow> sorted_keys d \<and> map_of d = m"
  by (simp_all add: holds_dict_def)

lemma returns_dictE:
  assumes "returns_dict r m"
  obtains d where "r = Inr (Dict d)" "sorted_keys d" "map_of d = m"
  using assms by (auto simp: returns_dict_def)

lemma subscript_assign_returns:
  assumes "holds_dict e m"
  shows "returns_dict (subscript_assign e k v) (m(k \<mapsto> v))"
proof -
  obtain d where d: "entry_dict e = Inr d" "sorted_keys d" "map_of d = m"
    using assms by (cases e) (auto simp: holds_dict_def entry_dict_def)
  then have "subscript_assign e k v = subscript_assign (Dict d) k v"
    by (simp add: subscript_assign_def subscript_def entry_dict_def)
  moreover have "map_of (smap.update Undefined k v d) = m(k \<mapsto> v)" "sorted_keys (smap.update Undefined k v d)"
    using smap.lookup_update [OF d(2), of Undefined k v] smap.invar_update [OF d(2), of Undefined k v] d(3) by simp_all
  ultimately show ?thesis by (simp add: subscript_assign_Dict returns_dict_def)
qed

lemma assign_bind:
  assumes "holds_dict e m" and "\<And>d. sorted_keys d \<Longrightarrow> map_of d = m(k \<mapsto> v) \<Longrightarrow> returns_dict (g (Dict d)) m'"
  shows "returns_dict (bind_result (subscript_assign e k v) g) m'"
  using returns_dictE [OF subscript_assign_returns [OF assms(1)], of k v] assms(2) by (metis bind_result_simps(2))

lemma assign_if_bind:
  assumes "holds_dict e m" and "\<And>e'. holds_dict e' (m(k := if c then Some v else m k)) \<Longrightarrow> returns_dict (g e') m'"
  shows "returns_dict (bind_result (assign_if c k v e) g) m'"
proof (cases c)
  case True
  obtain d where "subscript_assign e k v = Inr (Dict d)" "sorted_keys d" "map_of d = m(k \<mapsto> v)"
    by (rule returns_dictE [OF subscript_assign_returns [OF assms(1)]])
  then show ?thesis using assms(2) [of "Dict d"] True by (simp add: assign_if_def)
qed (use assms in \<open>simp add: assign_if_def\<close>)

lemma assign_if_returns:
  assumes "sorted_keys d" "map_of d = m"
  shows "returns_dict (assign_if c k v (Dict d)) (m(k := if c then Some v else m k))"
  using subscript_assign_returns [of "Dict d" m k v] assms by (auto simp: assign_if_def returns_dict_def)

lemma assign_if_bind_Dict:
  assumes "sorted_keys d" "map_of d = m"
    and "\<And>d'. sorted_keys d' \<Longrightarrow> map_of d' = m(k := if c then Some v else m k) \<Longrightarrow> returns_dict (g (Dict d')) m'"
  shows "returns_dict (bind_result (assign_if c k v (Dict d)) g) m'"
  using returns_dictE [OF assign_if_returns [OF assms(1,2)], of c k v] assms(3) by (metis bind_result_simps(2))

lemma assign_bind_Dict:
  assumes "sorted_keys d" "map_of d = m"
    and "\<And>d'. sorted_keys d' \<Longrightarrow> map_of d' = m(k \<mapsto> v) \<Longrightarrow> returns_dict (g (Dict d')) m'"
  shows "returns_dict (bind_result (subscript_assign (Dict d) k v) g) m'"
  by (rule assign_bind [of _ m]) (use assms in auto)

lemma assign_if_returns_eq:
  assumes "sorted_keys d" "map_of d = m" "m' = m(k := if c then Some v else m k)"
  shows "returns_dict (assign_if c k v (Dict d)) m'"
  unfolding assms(3) by (rule assign_if_returns [OF assms(1,2)])

text \<open>The dictionary of a file.\<close>

definition attr_map :: "fs_ops \<Rightarrow> file_entry \<Rightarrow> (string \<Rightarrow> entry option) \<Rightarrow> string \<Rightarrow> entry option" where
  "attr_map ops f m =
     m(''attr'' := if attr_string f \<noteq> [] then Some (String (attr_string f)) else m ''attr'',
       ''symlink path'' := if fe_symlink_attribute f then Some (path_entry (path_elements ops (fe_symlink_path f)))
                         else m ''symlink path'')"

definition file_map :: "fs_ops \<Rightarrow> file_entry \<Rightarrow> string \<Rightarrow> entry option" where
  "file_map ops f =
     attr_map ops f [''mtime'' \<mapsto> Integer (fe_mtime f), ''length'' \<mapsto> Integer (fe_size f),
       ''path'' \<mapsto> path_entry (tl (path_elements ops (fe_path f)))]"

lemma attr_string_Nil:
  "fe_pad_file f \<or> fe_hidden_attribute f \<or> fe_executable_attribute f \<or> fe_symlink_attribute f \<longleftrightarrow> attr_string f \<noteq> []"
  by (simp add: attr_string_def)

lemma generate_attributes_returns:
  assumes "sorted_keys d" "map_of d = m"
  shows "returns_dict (generate_attributes ops f (Dict d)) (attr_map ops f m)"
  unfolding generate_attributes_def attr_map_def attr_string_Nil
  by (rule assign_if_bind_Dict [OF assms]) (rule assign_if_returns_eq, assumption+, simp cong: if_cong)

lemma generate_file_entry_returns:
  assumes "path_elements ops (fe_path f) \<noteq> []"
  shows "returns_dict (generate_file_entry ops f) (file_map ops f)"
proof -
  obtain x es where es: "path_elements ops (fe_path f) = x # es" using assms by (cases "path_elements ops (fe_path f)") auto
  show ?thesis
    unfolding generate_file_entry_def file_map_def es
    by (rule assign_bind [OF holds_dict_simps(1)], rule assign_bind_Dict, assumption+, unfold list.case list.sel,
        rule assign_bind_Dict, assumption+, rule generate_attributes_returns)
qed

lemma generate_files_returns:
  assumes "sorted_keys d" "map_of d = m" "m ''files'' = None"
    and "fs \<noteq> []" "\<forall>f \<in> set fs. path_elements ops (fe_path f) \<noteq> []"
  obtains ds where "returns_dict (generate_files ops fs (Dict d)) (m(''files'' \<mapsto> List (map Dict ds)))"
    "list_all2 (\<lambda>f d. sorted_keys d \<and> map_of d = file_map ops f) fs ds"
proof -
  let ?step = "\<lambda>f files. bind_result (generate_file_entry ops f) (\<lambda>e. Inr (files @ [e]))"
  have "\<exists>ds. fold_result ?step fs acc = Inr (acc @ map Dict ds) \<and>
      list_all2 (\<lambda>f d. sorted_keys d \<and> map_of d = file_map ops f) fs ds" for acc
    using assms(5)
  proof (induction fs arbitrary: acc)
    case (Cons f fs)
    obtain d where d: "generate_file_entry ops f = Inr (Dict d)" "sorted_keys d" "map_of d = file_map ops f"
      using Cons.prems by (auto intro: returns_dictE [OF generate_file_entry_returns [of ops f]])
    obtain ds where "fold_result ?step fs (acc @ [Dict d]) = Inr ((acc @ [Dict d]) @ map Dict ds)"
      "list_all2 (\<lambda>f d. sorted_keys d \<and> map_of d = file_map ops f) fs ds"
      using Cons by fastforce
    with d show ?case by (intro exI [of _ "d # ds"]) simp
  qed simp
  from this [of "[]"] obtain ds where ds: "fold_result ?step fs [] = Inr (map Dict ds)"
    "list_all2 (\<lambda>f d. sorted_keys d \<and> map_of d = file_map ops f) fs ds" by auto
  have "ds \<noteq> []" using ds(2) assms(4) by auto
  then have "returns_dict (generate_files ops fs (Dict d)) (m(''files'' \<mapsto> List (map Dict ds)))"
    using subscript_assign_returns [of "Dict d" m] assms(1-3) ds(1)
    by (simp add: generate_files_def find_key_def entry_dict_def)
  then show thesis using that ds(2) by blast
qed

text \<open>The info dictionary, and the rest of the file.\<close>

definition info_base :: "create_torrent \<Rightarrow> string \<Rightarrow> entry option" where
  "info_base ct =
     [''name'' \<mapsto> String (m_name (ct_files ct))](''private'' := if ct_private ct then Some (Integer 1) else None)"

definition info_files :: "fs_ops \<Rightarrow> create_torrent \<Rightarrow> (string \<times> entry) list list \<Rightarrow> string \<Rightarrow> entry option" where
  "info_files ops ct ds =
     (if ct_multifile ct then (info_base ct)(''files'' \<mapsto> List (map Dict ds))
      else let f = hd (m_files (ct_files ct))
           in attr_map ops f ((info_base ct)(''mtime'' \<mapsto> Integer (fe_mtime f), ''length'' \<mapsto> Integer (fe_size f))))"

definition info_map :: "fs_ops \<Rightarrow> create_torrent \<Rightarrow> (string \<times> entry) list list \<Rightarrow> string \<Rightarrow> entry option" where
  "info_map ops ct ds =
     (info_files ops ct ds)(''piece length'' \<mapsto> Integer (m_piece_length (ct_files ct)),
       ''pieces'' \<mapsto> String (concat (ct_piece_hash ct)))"

lemma generate_single_returns:
  assumes "sorted_keys d" "map_of d = m" "m_files st = f # fs"
  shows "returns_dict (generate_single ops st (Dict d)) (attr_map ops f (m(''mtime'' \<mapsto> Integer (fe_mtime f), ''length'' \<mapsto> Integer (fe_size f))))"
proof -
  have "file_at 0 st = Inr f" using assms(3) by (simp add: file_at_def read_at_def)
  then show ?thesis
    unfolding generate_single_def bind_result_simps
    by simp (rule assign_bind_Dict [OF assms(1,2)], rule assign_bind_Dict, assumption+, rule generate_attributes_returns)
qed

lemma generate_info_returns:
  assumes "\<not> ct_merkle_torrent ct" "m_files (ct_files ct) \<noteq> []"
    and "\<forall>f \<in> set (m_files (ct_files ct)). path_elements ops (fe_path f) \<noteq> []"
  obtains ds where "returns_dict (generate_info ops hash uninit ct) (info_map ops ct ds)"
    "list_all2 (\<lambda>f d. sorted_keys d \<and> map_of d = file_map ops f) (m_files (ct_files ct)) ds"
proof -
  let ?st = "ct_files ct"
  obtain d1 where d1: "subscript_assign Undefined ''name'' (String (m_name ?st)) = Inr (Dict d1)" "sorted_keys d1"
    "map_of d1 = [''name'' \<mapsto> String (m_name ?st)]"
    by (rule returns_dictE [OF subscript_assign_returns [OF holds_dict_simps(1)]])
  obtain d2 where d2: "assign_if (ct_private ct) ''private'' (Integer 1) (Dict d1) = Inr (Dict d2)" "sorted_keys d2"
    "map_of d2 = info_base ct"
    by (rule returns_dictE [OF assign_if_returns_eq [OF d1(2,3),
          of "info_base ct" "''private''" "ct_private ct" "Integer 1"]]) (auto simp: info_base_def)
  obtain ds where ds: "returns_dict (generate_files ops (m_files ?st) (Dict d2)) ((info_base ct)(''files'' \<mapsto> List (map Dict ds)))"
    "list_all2 (\<lambda>f d. sorted_keys d \<and> map_of d = file_map ops f) (m_files ?st) ds"
    by (rule generate_files_returns [OF d2(2,3) _ assms(2,3)]) (auto simp: info_base_def)
  obtain f fs where "m_files ?st = f # fs" using assms(2) by (cases "m_files ?st") auto
  then have "returns_dict (if \<not> ct_multifile ct then generate_single ops ?st (Dict d2) else generate_files ops (m_files ?st) (Dict d2))
      (info_files ops ct ds)"
    using ds(1) generate_single_returns [OF d2(2,3)] by (simp add: info_files_def)
  then obtain d3 where d3: "(if \<not> ct_multifile ct then generate_single ops ?st (Dict d2) else generate_files ops (m_files ?st) (Dict d2)) =
      Inr (Dict d3)" "sorted_keys d3" "map_of d3 = info_files ops ct ds"
    by (rule returns_dictE)
  have "returns_dict (bind_result (subscript_assign (Dict d3) ''piece length'' (Integer (m_piece_length ?st)))
      (\<lambda>info. subscript_assign info ''pieces'' (String (concat (ct_piece_hash ct))))) (info_map ops ct ds)"
    unfolding info_map_def
    by (rule assign_bind_Dict [OF d3(2,3)]) (rule subscript_assign_returns, simp)
  then have "returns_dict (generate_info ops hash uninit ct) (info_map ops ct ds)"
    using assms(1) d1(1) d2(1) d3(1) by (simp add: generate_info_def Let_def del: if_not_P)
  then show thesis using that ds(2) by blast
qed

definition outer_map :: "create_torrent \<Rightarrow> string \<Rightarrow> entry option" where
  "outer_map ct =
     Map.empty(
       ''announce'' := if ct_urls ct \<noteq> [] then Some (String (fst (hd (ct_urls ct)))) else None,
       ''nodes'' := if ct_nodes ct \<noteq> [] then Some (List (map node_entry (ct_nodes ct))) else None,
       ''announce-list'' := if length (ct_urls ct) > 1 then Some (announce_list (ct_urls ct)) else None,
       ''comment'' := if ct_comment ct \<noteq> [] then Some (String (ct_comment ct)) else None,
       ''creation date'' := Some (Integer (ct_creation_date ct)),
       ''created by'' := if ct_created_by ct \<noteq> [] then Some (String (ct_created_by ct)) else None,
       ''url-list'' := if ct_url_seeds ct \<noteq> [] then
           Some (if length (ct_url_seeds ct) = 1 then String (hd (ct_url_seeds ct)) else List (map String (ct_url_seeds ct)))
         else None)"

lemma generate_outer_returns: "returns_dict (generate_outer ct) (outer_map ct)"
  unfolding generate_outer_def
  by (rule assign_if_bind [OF holds_dict_simps(1)], rule assign_if_bind, assumption, rule assign_if_bind, assumption,
      rule assign_if_bind, assumption, rule assign_bind, assumption, rule assign_if_bind_Dict, assumption+,
      rule assign_if_returns_eq, assumption+)
    (simp add: outer_map_def cong: if_cong)

subsection \<open>Reading it back\<close>

lemma fold_attr_flag:
  "fold attr_flag (attr_string f) e =
    e\<lparr>fe_pad_file := fe_pad_file e \<or> fe_pad_file f, fe_hidden_attribute := fe_hidden_attribute e \<or> fe_hidden_attribute f,
      fe_executable_attribute := fe_executable_attribute e \<or> fe_executable_attribute f,
      fe_symlink_attribute := fe_symlink_attribute e \<or> fe_symlink_attribute f,
      fe_size := (if fe_symlink_attribute f then 0 else fe_size e)\<rparr>"
  by (simp add: attr_string_def attr_flag_def)

text \<open>The attributes and the target of a link, as \<open>generate_attributes\<close> wrote them.\<close>

definition with_attributes :: "fs_ops \<Rightarrow> file_entry \<Rightarrow> file_entry \<Rightarrow> file_entry" where
  "with_attributes ops f e =
     (fold attr_flag (attr_string f) e)\<lparr>fe_symlink_path :=
       (if fe_symlink_attribute f then path_under ops (fe_symlink_path e) (path_elements ops (fe_symlink_path f))
        else fe_symlink_path e)\<rparr>"

text \<open>
  The files that a torrent file can describe: a path of ordinary names below the name of the torrent, a time that is not negative, a
  size of 0 for a link and a target that is a relative path, and the attribute of a padding file where the name says that
  it is one.
\<close>

definition portable_path :: "bool \<Rightarrow> string \<Rightarrow> string \<Rightarrow> bool" where
  "portable_path multi name path \<longleftrightarrow>
     (case split_slash path of [] \<Rightarrow> False | n # p \<Rightarrow> n = name \<and> list_all simple_name p \<and> (p \<noteq> [] \<longleftrightarrow> multi))"

definition portable_link :: "file_entry \<Rightarrow> bool" where
  "portable_link f \<longleftrightarrow>
     (if fe_symlink_attribute f then
        fe_size f = 0 \<and> list_all (\<lambda>x. x \<noteq> [] \<and> length x \<le> 4096) (split_slash (fe_symlink_path f))
      else fe_symlink_path f = [])"

definition portable_file :: "bool \<Rightarrow> string \<Rightarrow> file_entry \<Rightarrow> bool" where
  "portable_file multi name f \<longleftrightarrow>
     portable_path multi name (fe_path f) \<and> portable_link f \<and> fe_file_base f = 0 \<and> 0 \<le> fe_mtime f \<and> fe_mtime f < 2 ^ 63 \<and>
     (is_pad_name (fe_path f) \<longrightarrow> fe_pad_file f)"

lemma portable_path_elements:
  assumes "path_grammar ops" "simple_name name" "portable_path multi name path"
  obtains p where "path = joined name p" "\<forall>x \<in> set p. simple_name x" "path_elements ops path = name # p" "p \<noteq> [] \<longleftrightarrow> multi"
proof -
  obtain p where p: "split_slash path = name # p" "\<forall>x \<in> set p. simple_name x" "p \<noteq> [] \<longleftrightarrow> multi"
    using assms(3) by (auto simp: portable_path_def list_all_iff split: list.splits)
  have path: "path = joined name p" by (rule joined_split [OF p(1)])
  have "posix_elements (joined name p) = name # p"
    using assms(2) p(2) path_grammar.simple_part_name [OF assms(1)] by (intro posix_elements_joined) auto
  then show thesis using that p path path_grammar.elements [OF assms(1)] by simp
qed

lemma portable_link_elements:
  assumes "path_grammar ops" "portable_link f" "fe_symlink_attribute f"
  shows "path_elements ops (fe_symlink_path f) \<noteq> []"
    "\<forall>x \<in> set (path_elements ops (fe_symlink_path f)). length x < 2 ^ 31"
    "path_under ops [] (path_elements ops (fe_symlink_path f)) = fe_symlink_path f"
proof -
  obtain n p where np: "split_slash (fe_symlink_path f) = n # p" by (cases "split_slash (fe_symlink_path f)") auto
  have parts: "\<forall>x \<in> set (n # p). part_name x \<and> length x \<le> 4096"
    using assms(2,3) split_slash_elements [of _ "fe_symlink_path f"]
    unfolding portable_link_def np part_name_def list_all_iff by auto
  have path: "fe_symlink_path f = joined n p" by (rule joined_split [OF np])
  have el: "path_elements ops (fe_symlink_path f) = n # p"
    using posix_elements_joined [of n p] parts path path_grammar.elements [OF assms(1)] by simp
  show "path_elements ops (fe_symlink_path f) \<noteq> []"
    "\<forall>x \<in> set (path_elements ops (fe_symlink_path f)). length x < 2 ^ 31"
    "path_under ops [] (path_elements ops (fe_symlink_path f)) = fe_symlink_path f"
    unfolding el using parts path path_grammar.path_under_elements [OF assms(1) parts] by auto
qed

lemma attributes_view:
  assumes rep: "represents buf (Dict d) n" and d: "map_of d = attr_map ops f m" "m ''attr'' = None" "m ''symlink path'' = None"
    and link: "path_grammar ops" "portable_link f"
  shows "bind_result (extract_attributes buf n e) (extract_symlink ops buf n) = Inr (with_attributes ops f e)"
proof -
  have "extract_attributes buf n e = Inr (fold attr_flag (attr_string f) e)"
  proof (cases "attr_string f = []")
    case True
    then have "map_of d ''attr'' = None" using d by (simp add: attr_map_def)
    then show ?thesis using view_absent(2) [OF rep] True by (simp add: extract_attributes_def)
  next
    case False
    have "length (attr_string f) < 2 ^ 31" by (simp add: attr_string_def)
    with False show ?thesis using d by (intro extract_attributes_view [OF rep]) (simp_all add: attr_map_def)
  qed
  moreover have "extract_symlink ops buf n e' = Inr (if fe_symlink_attribute f then
      e'\<lparr>fe_symlink_path := path_under ops (fe_symlink_path e') (path_elements ops (fe_symlink_path f))\<rparr> else e')" for e'
  proof (cases "fe_symlink_attribute f")
    case False
    then have "map_of d ''symlink path'' = None" using d by (simp add: attr_map_def)
    then show ?thesis using view_absent(1) [OF rep] False by (simp add: extract_symlink_def)
  next
    case True
    then show ?thesis
      using extract_symlink_view [OF rep _ portable_link_elements(2) [OF link True]] portable_link_elements(1) [OF link True] d
      by (simp add: attr_map_def path_entry_def)
  qed
  moreover have "fe_symlink_path (fold attr_flag (attr_string f) e) = fe_symlink_path e" by (simp add: fold_attr_flag)
  ultimately show ?thesis by (simp add: with_attributes_def fold_attr_flag)
qed

lemma with_attributes_portable:
  assumes "path_grammar ops" "portable_file multi name f"
    and "e = new_file_entry\<lparr>fe_path := fe_path f, fe_size := fe_size f, fe_mtime := fe_mtime f, fe_pad_file := b\<rparr>"
    and "b \<longrightarrow> fe_pad_file f"
  shows "with_attributes ops f e = f\<lparr>fe_offset := 0\<rparr>"
  using portable_link_elements(3) [OF assms(1), of f] assms(2,4)
  unfolding with_attributes_def fold_attr_flag assms(3) portable_file_def portable_link_def
  by (cases f) (auto simp: new_file_entry_def)

context path_grammar
begin

lemma named_file_value:
  assumes "simple_name root" "\<forall>x \<in> set p. simple_name x" "0 \<le> ts"
  shows "named_file ops (path_under ops root p) len ts =
    new_file_entry\<lparr>fe_path := joined root p, fe_size := len, fe_mtime := ts, fe_pad_file := is_pad_name (joined root p)\<rparr>"
proof -
  let ?e = "new_file_entry\<lparr>fe_size := len, fe_mtime := ts, fe_path := sanitize_path ops (path_under ops root p)\<rparr>"
  have "fe_path (verify_encoding_file ?e) = joined root p"
    using named_file_joined(1) [OF assms(1,2), of len ts] assms(3) by (simp add: named_file_def Let_def split: if_splits)
  then have "verify_encoding_file ?e = ?e\<lparr>fe_path := joined root p\<rparr>"
    by (auto simp: verify_encoding_file_def split: prod.splits if_splits)
  then show ?thesis using assms(3) by (simp add: named_file_def Let_def new_file_entry_def)
qed

end

lemma extract_created_file:
  assumes ops: "path_grammar ops" and rep: "represents buf (Dict d) n" and wf: "wf_entry (Dict d)"
    and d: "map_of d = file_map ops f" and name: "simple_name name" and f: "portable_file True name f"
  shows "extract_single_file ops buf n name = Inr (Some (f\<lparr>fe_offset := 0\<rparr>))"
proof -
  obtain p where p: "fe_path f = joined name p" "\<forall>x \<in> set p. simple_name x" "path_elements ops (fe_path f) = name # p" "p \<noteq> []"
    using f portable_path_elements [OF ops name, of True "fe_path f"] by (auto simp: portable_file_def)
  have lk: "map_of d ''length'' = Some (Integer (fe_size f))" "map_of d ''path'' = Some (List (map String p))"
    "map_of d ''mtime'' = Some (Integer (fe_mtime f))" "map_of d ''path.utf-8'' = None"
    using p(3,4) by (simp_all add: d file_map_def attr_map_def path_entry_def)
  obtain l where l: "dict_find buf ''length'' n = Inr (Some l)" "represents buf (Integer (fe_size f)) l"
    by (rule view_node [OF rep lk(1)])
  obtain pl where pl: "dict_find buf ''path'' n = Inr (Some pl)" "represents buf (List (map String p)) pl"
    by (rule view_node [OF rep lk(2)])
  have types: "m_type l = Int_t" "m_type pl = List_t" using l(2) pl(2) represents_type by force+
  have iv: "int_value buf l = Inr (fe_size f)" using int_value_represents [OF l(2)] wf_lookup [OF wf lk(1)] by simp
  have mtime: "dict_find_int_value buf ''mtime'' (- 1) n = Inr (fe_mtime f)"
    using view_int_value [OF rep wf, of "''mtime''"] lk(3) by simp
  have path: "append_path_list ops buf pl name = Inr (Some (path_under ops name p))"
    using wf_lookup [OF wf lk(2)] by (intro append_path_list_view [OF pl(2)]) simp
  have "bind_result (extract_attributes buf n e) (extract_symlink ops buf n) = Inr (with_attributes ops f e)" for e
    using f by (intro attributes_view [OF rep d [unfolded file_map_def] _ _ ops]) (simp_all add: portable_file_def)
  moreover have "with_attributes ops f (named_file ops (path_under ops name p) (fe_size f) (fe_mtime f)) = f\<lparr>fe_offset := 0\<rparr>"
    using f p path_grammar.named_file_value [OF ops name p(2)]
    by (intro with_attributes_portable [OF ops f]) (auto simp: portable_file_def)
  moreover have "bind_result (extract_attributes buf n e) (\<lambda>t4. bind_result (extract_symlink ops buf n t4) (\<lambda>t5. Inr (Some t5))) =
      bind_result (bind_result (extract_attributes buf n e) (extract_symlink ops buf n)) (\<lambda>t. Inr (Some t))" for e
    by (cases "extract_attributes buf n e") simp_all
  ultimately show ?thesis
    by (simp add: extract_single_file_def l(1) types iv mtime view_absent(1) [OF rep lk(4)] pl(1) list_or_none_def path)
qed

lemma fold_store_created:
  fixes ops :: fs_ops
  assumes "laid_out (m_total_size st) fs" "0 \<le> m_total_size st" "m_total_size st + total_of fs < 2 ^ 63"
    and "clash_free (map fe_path (m_files st @ fs))"
  defines "st' \<equiv> fold (store_file ops) (map (\<lambda>f. f\<lparr>fe_offset := 0\<rparr>) fs) st"
  shows "m_files st' = m_files st @ fs \<and> m_total_size st' = m_total_size st + total_of fs \<and>
    m_piece_length st' = m_piece_length st \<and> m_num_pieces st' = m_num_pieces st"
  unfolding st'_def using assms(1-4)
proof (induction fs arbitrary: st)
  case (Cons f fs)
  let ?e = "f\<lparr>fe_offset := 0\<rparr>" let ?st = "add_file_entry ops ?e st"
  have "clash_free (map fst (path_sizes st) @ [fe_path ?e])"
    using Cons.prems(4) by (simp add: clash_free_def sorted_wrt_append path_sizes_def comp_def)
  then have store: "store_file ops ?e st = ?st" by (rule store_file_fresh)
  have pos: "0 \<le> fe_size f" "0 \<le> total_of fs" "fe_offset f = m_total_size st"
    using Cons.prems(1) laid_out_total_nonneg [of "m_total_size st + fe_size f" fs] by auto
  then have "int64 (m_total_size st + fe_size f) = m_total_size st + fe_size f"
    using Cons.prems(2,3) by (simp add: int64_id)
  then have st: "m_files ?st = m_files st @ [f]" "m_total_size ?st = m_total_size st + fe_size f"
    "m_piece_length ?st = m_piece_length st" "m_num_pieces ?st = m_num_pieces st"
    using pos(3) by (simp_all add: add_file_entry_def Let_def)
  have "laid_out (m_total_size ?st) fs" "0 \<le> m_total_size ?st" "m_total_size ?st + total_of fs < 2 ^ 63"
    "clash_free (map fe_path (m_files ?st @ fs))"
    using Cons.prems pos st by simp_all
  from Cons.IH [OF this] show ?case using st store by simp
qed (simp add: total_of_def)

lemma wf_Dict_map:
  assumes "sorted_keys d" "\<And>k v. map_of d k = Some v \<Longrightarrow> length k < 2 ^ 31 \<and> wf_entry v"
  shows "wf_entry (Dict d)"
proof -
  have "length (fst kv) < 2 ^ 31 \<and> wf_entry (snd kv)" if "kv \<in> set d" for kv
    using assms(2) map_of_is_SomeI [OF sorted_keys_distinct [OF assms(1)], of "fst kv" "snd kv"] that by simp
  then show ?thesis using assms(1) by simp
qed

lemma nesting_Dict_map:
  assumes "sorted_keys d" "1 \<le> n" "\<And>k v. map_of d k = Some v \<Longrightarrow> nesting v < n"
  shows "nesting (Dict d) \<le> n"
  unfolding nesting_Dict_le
  using assms(2,3) map_of_is_SomeI [OF sorted_keys_distinct [OF assms(1)]] by (metis prod.collapse)

lemma path_entry_shape:
  assumes "es \<noteq> []" "\<forall>x \<in> set es. length x < 2 ^ 31"
  shows "wf_entry (path_entry es)" "nesting (path_entry es) < 3"
  using assms nesting_List_le [of "map String es" 2] by (auto simp: path_entry_def less_Suc_eq_le numeral_3_eq_3 simp del: nesting.simps(1))

lemma attr_map_shape:
  assumes "path_grammar ops" "portable_link f" "attr_map ops f m k = Some v"
  shows "m k = Some v \<or> wf_entry v \<and> nesting v < 3 \<and> length k < 2 ^ 31"
proof -
  have "length (attr_string f) < 2 ^ 31" by (simp add: attr_string_def)
  then show ?thesis
    using assms(3) path_entry_shape [OF portable_link_elements(1,2) [OF assms(1,2)]]
    by (auto simp: attr_map_def split: if_splits)
qed

lemma file_dict_shape:
  assumes ops: "path_grammar ops" and name: "simple_name name" and f: "portable_file True name f" "0 \<le> fe_size f" "fe_size f < 2 ^ 63"
    and d: "sorted_keys d" "map_of d = file_map ops f"
  shows "wf_entry (Dict d)" "nesting (Dict d) \<le> 3"
proof -
  obtain p where p: "path_elements ops (fe_path f) = name # p" "\<forall>x \<in> set p. simple_name x" "p \<noteq> []"
    using f(1) by (auto simp: portable_file_def intro: portable_path_elements [OF ops name, of True "fe_path f"])
  then have shape: "wf_entry (path_entry p)" "nesting (path_entry p) < 3"
    by (auto intro!: path_entry_shape simp: simple_name_def)
  have vals: "wf_entry v \<and> nesting v < 3 \<and> length k < 2 ^ 31" if "map_of d k = Some v" for k v
    using attr_map_shape [OF ops _ that [unfolded d(2) file_map_def]] f p(1) shape
    by (auto simp: portable_file_def split: if_splits)
  show "wf_entry (Dict d)" by (rule wf_Dict_map [OF d(1)]) (use vals in blast)
  show "nesting (Dict d) \<le> 3" by (rule nesting_Dict_map [OF d(1)]) (use vals in auto)
qed

text \<open>
  An object from which a readable torrent is generated: its storage is laid out and its files are portable, no two of them have the same path up to case,
  and there is a hash for each piece. A torrent that is not marked as one with several files has one file.
\<close>

definition creatable :: "create_torrent \<Rightarrow> bool" where
  "creatable ct \<longleftrightarrow>
     (let st = ct_files ct in
      simple_name (m_name st) \<and> storage_ok st \<and> m_files st \<noteq> [] \<and> length (m_files st) < 2 ^ 31 \<and>
      list_all (portable_file (ct_multifile ct) (m_name st)) (m_files st) \<and> clash_free (map fe_path (m_files st)) \<and>
      (ct_multifile ct \<or> length (m_files st) = 1) \<and>
      0 < m_piece_length st \<and> m_piece_length st < 2 ^ 31 \<and> m_total_size st + m_piece_length st < 2 ^ 63 \<and>
      m_num_pieces st = (m_total_size st + m_piece_length st - 1) div m_piece_length st \<and> 20 * m_num_pieces st < 2 ^ 31 \<and>
      int (length (ct_piece_hash ct)) = m_num_pieces st \<and> list_all (\<lambda>h. length h = 20) (ct_piece_hash ct))"

definition described :: "fs_ops \<Rightarrow> create_torrent \<Rightarrow> (string \<times> entry) list list \<Rightarrow> (string \<times> entry) list \<Rightarrow> bool" where
  "described ops ct ds info \<longleftrightarrow>
     sorted_keys info \<and> map_of info = info_map ops ct ds \<and>
     list_all2 (\<lambda>f d. sorted_keys d \<and> map_of d = file_map ops f) (m_files (ct_files ct)) ds"

lemma laid_out_sizes:
  assumes "laid_out off fs" "off + total_of fs < 2 ^ 63" "0 \<le> off" "f \<in> set fs"
  shows "0 \<le> fe_size f" "fe_size f < 2 ^ 63"
proof -
  have "0 \<le> fe_size f \<and> off + fe_size f \<le> off + total_of fs"
    using assms(1,4)
  proof (induction fs arbitrary: off)
    case (Cons g fs)
    then have "0 \<le> fe_size g" "0 \<le> total_of fs" using laid_out_total_nonneg [of "off + fe_size g" fs] by auto
    then show ?case using Cons by (cases "f = g") (fastforce simp: total_of_def)+
  qed simp
  then show "0 \<le> fe_size f" "fe_size f < 2 ^ 63" using assms(2,3) by linarith+
qed

lemma creatable_sizes:
  assumes "creatable ct" "f \<in> set (m_files (ct_files ct))"
  shows "0 \<le> fe_size f" "fe_size f < 2 ^ 63" "portable_file (ct_multifile ct) (m_name (ct_files ct)) f"
  using assms laid_out_sizes [of 0 "m_files (ct_files ct)" f]
  by (auto simp: creatable_def Let_def storage_ok_def list_all_iff)

lemma length_concat_hashes: "list_all (\<lambda>h. length h = 20) hs \<Longrightarrow> length (concat hs) = 20 * length hs"
  by (induction hs) auto

lemma info_shape:
  assumes ops: "path_grammar ops" and ct: "creatable ct" and info: "described ops ct ds info"
  shows "wf_entry (Dict info)" "nesting (Dict info) \<le> 5"
proof -
  let ?st = "ct_files ct"
  have ct': "simple_name (m_name ?st)" "0 < m_piece_length ?st" "m_piece_length ?st < 2 ^ 31"
    "20 * m_num_pieces ?st < 2 ^ 31" "int (length (ct_piece_hash ct)) = m_num_pieces ?st"
    "length (concat (ct_piece_hash ct)) = 20 * length (ct_piece_hash ct)"
    "ct_multifile ct \<or> length (m_files ?st) = 1" "m_files ?st \<noteq> []"
    using ct length_concat_hashes [of "ct_piece_hash ct"] by (auto simp: creatable_def Let_def)
  have files: "wf_entry (List (map Dict ds))" "nesting (List (map Dict ds)) < 5" if "ct_multifile ct"
  proof -
    have each: "wf_entry (Dict d) \<and> nesting (Dict d) < 4" if d: "d \<in> set ds" for d
    proof -
      obtain i where i: "i < length ds" "d = ds ! i" using d by (auto simp: in_set_conv_nth)
      let ?f = "m_files ?st ! i"
      have f: "?f \<in> set (m_files ?st)" "sorted_keys d" "map_of d = file_map ops ?f"
        using info i by (auto simp: described_def list_all2_conv_all_nth)
      then show ?thesis
        using file_dict_shape [OF ops ct'(1) _ creatable_sizes(1,2) [OF ct f(1)] f(2,3)] creatable_sizes(3) [OF ct f(1)] \<open>ct_multifile ct\<close>
        by (simp del: nesting.simps)
    qed
    then show "wf_entry (List (map Dict ds))" by simp
    have "nesting (List (map Dict ds)) \<le> 4"
      unfolding nesting_List_le using each by (auto simp del: nesting.simps)
    then show "nesting (List (map Dict ds)) < 5" by (rule le_less_trans) simp
  qed
  have f: "hd (m_files ?st) \<in> set (m_files ?st)" using ct'(8) by simp
  have base: "wf_entry v \<and> nesting v < 5 \<and> length k < 2 ^ 31" if "info_base ct k = Some v" for k v
    using that ct'(1) by (auto simp: info_base_def simple_name_def split: if_splits)
  have vals: "wf_entry v \<and> nesting v < 5 \<and> length k < 2 ^ 31" if "info_files ops ct ds k = Some v" for k v
  proof (cases "ct_multifile ct")
    case True
    then show ?thesis using that files base by (auto simp: info_files_def split: if_splits)
  next
    case False
    then show ?thesis
      using that creatable_sizes [OF ct f] base attr_map_shape [OF ops, of "hd (m_files ?st)" _ k v]
      by (fastforce simp: info_files_def Let_def portable_file_def split: if_splits)
  qed
  have "wf_entry v \<and> nesting v < 5 \<and> length k < 2 ^ 31" if "map_of info k = Some v" for k v
    using that info ct' vals by (auto simp: described_def info_map_def split: if_splits)
  then show "wf_entry (Dict info)" "nesting (Dict info) \<le> 5"
    using info by (auto intro!: wf_Dict_map nesting_Dict_map simp: described_def simp del: wf_entry.simps nesting.simps)
qed

lemma created_storage:
  assumes "creatable ct" "m_files st = m_files (ct_files ct)" "m_total_size st = m_total_size (ct_files ct)"
    and "m_piece_length st = m_piece_length (ct_files ct)"
  shows "finish_files (m_name (ct_files ct)) st = ct_files ct" "piece_count st = m_num_pieces (ct_files ct)"
proof -
  have ct: "0 < m_piece_length (ct_files ct)" "m_total_size (ct_files ct) + m_piece_length (ct_files ct) < 2 ^ 63" "0 \<le> m_total_size (ct_files ct)"
    "m_num_pieces (ct_files ct) = (m_total_size (ct_files ct) + m_piece_length (ct_files ct) - 1) div m_piece_length (ct_files ct)"
    "m_num_pieces (ct_files ct) < 2 ^ 31"
    using assms(1) laid_out_total_nonneg [of 0 "m_files (ct_files ct)"] by (auto simp: creatable_def Let_def storage_ok_def)
  then show pc: "piece_count st = m_num_pieces (ct_files ct)"
    using piece_count_value [of st] assms(3,4) by simp
  then have "piece_count (set_name n st) = m_num_pieces (ct_files ct)" for n by (simp add: piece_count_def set_name_def)
  then show "finish_files (m_name (ct_files ct)) st = ct_files ct"
    using assms(2-4) by (cases "ct_files ct"; cases st) (simp add: finish_files_def set_num_pieces_def set_name_def)
qed

lemma read_created_multi:
  assumes ops: "path_grammar ops" and ct: "creatable ct" and info: "described ops ct ds info"
    and rep: "represents buf (Dict info) n" and multi: "ct_multifile ct"
  shows "read_files ops buf n (m_name (ct_files ct)) ti =
    Inr (ti\<lparr>ti_files := fold (store_file ops) (map (\<lambda>f. f\<lparr>fe_offset := 0\<rparr>) (m_files (ct_files ct))) (ti_files ti), ti_multifile := True\<rparr>)"
proof -
  let ?st = "ct_files ct" let ?es = "map (\<lambda>f. f\<lparr>fe_offset := 0\<rparr>) (m_files ?st)"
  have name: "simple_name (m_name ?st)" using ct by (simp add: creatable_def Let_def)
  have files: "map_of info ''files'' = Some (List (map Dict ds))"
    using info multi by (simp add: described_def info_map_def info_files_def)
  obtain l where l: "dict_find buf ''files'' n = Inr (Some l)" "represents buf (List (map Dict ds)) l"
    by (rule view_node [OF rep files])
  have len: "length ?es = length ds" and pairs: "\<forall>i < length ds. sorted_keys (ds ! i) \<and> map_of (ds ! i) = file_map ops (m_files ?st ! i)"
    using info by (auto simp: described_def list_all2_conv_all_nth)
  have wf: "\<forall>e \<in> set (map Dict ds). wf_entry e"
    using wf_lookup [OF info_shape(1) [OF ops ct info] files] by (simp only: wf_entry.simps(4))
  have "extract_files ops buf l (m_name ?st) (ti_files ti) = Inr (Some (fold (store_file ops) ?es (ti_files ti)))"
  proof (rule extract_files_each [OF l(2) _ len])
    fix i x assume i: "i < length ds" and x: "represents buf (Dict (ds ! i)) x"
    have f: "m_files ?st ! i \<in> set (m_files ?st)" using i len by simp
    have wf': "wf_entry (Dict (ds ! i))" using wf i by (simp del: wf_entry.simps)
    have "portable_file True (m_name ?st) (m_files ?st ! i)" using creatable_sizes(3) [OF ct f] multi by simp
    then have "extract_single_file ops buf x (m_name ?st) = Inr (Some ((m_files ?st ! i)\<lparr>fe_offset := 0\<rparr>))"
      using pairs i by (intro extract_created_file [OF ops x wf' _ name]) simp
    then show "extract_single_file ops buf x (m_name ?st) = Inr (Some (?es ! i))" using i len by simp
  qed
  moreover have "m_type l = List_t" using represents_type [OF l(2)] by simp
  ultimately show ?thesis using l(1) by (simp add: read_files_def dict_find_list_def)
qed

lemma read_created_single:
  assumes ops: "path_grammar ops" and ct: "creatable ct" and info: "described ops ct ds info"
    and rep: "represents buf (Dict info) n" and single: "\<not> ct_multifile ct" "m_files (ct_files ct) = [f]"
  shows "read_files ops buf n (m_name (ct_files ct)) ti =
    Inr (ti\<lparr>ti_files := add_file_entry ops (f\<lparr>fe_offset := 0\<rparr>) (ti_files ti), ti_multifile := False\<rparr>)"
proof -
  let ?st = "ct_files ct"
  have f: "portable_file False (m_name ?st) f" "0 \<le> fe_size f" using creatable_sizes [OF ct, of f] single by simp_all
  let ?m = "(info_base ct)(''mtime'' \<mapsto> Integer (fe_mtime f), ''length'' \<mapsto> Integer (fe_size f),
    ''piece length'' \<mapsto> Integer (m_piece_length ?st), ''pieces'' \<mapsto> String (concat (ct_piece_hash ct)))"
  have m: "map_of info = attr_map ops f ?m"
    using info single unfolding described_def info_map_def info_files_def attr_map_def Let_def by (auto simp: fun_eq_iff)
  note wf = info_shape(1) [OF ops ct info]
  have ints: "dict_find_int_value buf ''length'' (- 1) n = Inr (fe_size f)" "dict_find_int_value buf ''mtime'' (- 1) n = Inr (fe_mtime f)"
    and files: "dict_find_list buf ''files'' n = Inr None"
    using view_int_value [OF rep wf] view_absent(3) [OF rep] by (simp_all add: m attr_map_def info_base_def)
  have attr: "bind_result (extract_attributes buf n e) (extract_symlink ops buf n) = Inr (with_attributes ops f e)" for e
    using f by (intro attributes_view [OF rep m _ _ ops]) (simp_all add: portable_file_def info_base_def)
  have path: "fe_path f = m_name ?st"
    using f(1) joined_split [of "fe_path f" "m_name ?st" "[]"]
    by (auto simp: portable_file_def portable_path_def split: list.splits)
  let ?e = "new_file_entry\<lparr>fe_path := m_name ?st, fe_offset := 0, fe_size := fe_size f, fe_mtime := fe_mtime f\<rparr>"
  have "with_attributes ops f ?e = f\<lparr>fe_offset := 0\<rparr>"
    by (rule with_attributes_portable [OF ops f(1), of _ False]) (simp_all add: new_file_entry_def path)
  then have "bind_result (extract_attributes buf n ?e) (\<lambda>e1. bind_result (extract_symlink ops buf n e1) g) = g (f\<lparr>fe_offset := 0\<rparr>)"
    for g :: "file_entry \<Rightarrow> file_entry result"
    using attr [of ?e] by (cases "extract_attributes buf n ?e") simp_all
  then have "single_file_entry ops buf n (m_name ?st) = Inr (f\<lparr>fe_offset := 0\<rparr>)"
    using f by (auto simp: single_file_entry_def ints portable_file_def Let_def)
  then show ?thesis by (simp add: read_files_def files)
qed

lemma read_created_files:
  assumes ops: "path_grammar ops" and ct: "creatable ct" and info: "described ops ct ds info"
    and rep: "represents buf (Dict info) n" and ti: "ti_files ti = set_piece_length (m_piece_length (ct_files ct)) new_file_storage"
  obtains st where "read_files ops buf n (m_name (ct_files ct)) ti = Inr (ti\<lparr>ti_files := st, ti_multifile := ct_multifile ct\<rparr>)"
    "finish_files (m_name (ct_files ct)) st = ct_files ct" "piece_count st = m_num_pieces (ct_files ct)"
proof -
  let ?st = "ct_files ct"
  define st where "st = fold (store_file ops) (map (\<lambda>f. f\<lparr>fe_offset := 0\<rparr>) (m_files ?st)) (ti_files ti)"
  have "m_files st = m_files ?st \<and> m_total_size st = m_total_size ?st \<and> m_piece_length st = m_piece_length ?st"
    unfolding st_def using fold_store_created [of "ti_files ti" "m_files ?st" ops] ct
    by (simp add: ti set_piece_length_def new_file_storage_def creatable_def Let_def storage_ok_def)
  then have st: "finish_files (m_name ?st) st = ?st" "piece_count st = m_num_pieces ?st"
    using created_storage [OF ct] by blast+
  have "read_files ops buf n (m_name ?st) ti = Inr (ti\<lparr>ti_files := st, ti_multifile := ct_multifile ct\<rparr>)"
  proof (cases "ct_multifile ct")
    case True
    then show ?thesis using read_created_multi [OF ops ct info rep True] by (simp add: st_def)
  next
    case False
    then obtain f where f: "m_files ?st = [f]" using ct by (auto simp: creatable_def Let_def length_Suc_conv)
    then have "st = add_file_entry ops (f\<lparr>fe_offset := 0\<rparr>) (ti_files ti)"
      by (simp add: st_def store_file_fresh ti set_piece_length_def new_file_storage_def path_sizes_def clash_free_def)
    then show ?thesis using read_created_single [OF ops ct info rep False f] False by simp
  qed
  from that [OF this st] show thesis .
qed

text \<open>The readers of the rest of the file: none of them faults on what was encoded.\<close>

lemma find_list_view:
  assumes "represents buf (Dict d) n" "map_of d k = Some (List es)"
  obtains l where "dict_find_list buf k n = Inr (Some l)" "represents buf (List es) l" "list_indices l = map int [0..<length es]"
proof -
  obtain l where l: "dict_find buf k n = Inr (Some l)" "represents buf (List es) l" by (rule view_node [OF assms])
  then have "dict_find_list buf k n = Inr (Some l)" using represents_type [OF l(2)] by (simp add: dict_find_list_def)
  then show thesis using that l(2) list_indices_view by blast
qed

lemma read_nodes_view:
  assumes rep: "represents buf (Dict d) n"
    and d: "map_of d ''nodes'' = (if ns = [] then None else Some (List (map node_entry ns)))"
    and ns: "\<forall>x \<in> set ns. length (fst x) < 2 ^ 31 \<and> - (2 ^ 31) \<le> snd x \<and> snd x < 2 ^ 31"
  shows "read_nodes buf n = Inr ns"
proof (cases "ns = []")
  case True
  then show ?thesis using view_absent(3) [OF rep] d by (simp add: read_nodes_def)
next
  case False
  obtain l where l: "dict_find_list buf ''nodes'' n = Inr (Some l)" "represents buf (List (map node_entry ns)) l"
    "list_indices l = map int [0..<length ns]"
    using find_list_view [OF rep, of "''nodes''" "map node_entry ns"] d False by auto
  let ?f = "\<lambda>i acc. bind_result (list_at i l) (\<lambda>n.
                 if m_type n \<noteq> List_t \<or> list_size n < 2 then Inr acc
                 else bind_result (list_at 0 n) (\<lambda>x0. bind_result (list_at 1 n) (\<lambda>x1.
                   if m_type x0 \<noteq> String_t \<or> m_type x1 \<noteq> Int_t then Inr acc
                   else bind_result (string_value buf x0) (\<lambda>host. bind_result (int_value buf x1) (\<lambda>port.
                     Inr (acc @ [(host, int32 port)]))))))"
  have "?f (int i) acc = Inr (acc @ [ns ! i])" if i: "i < length ns" for i acc
  proof -
    obtain x where x: "list_at (int i) l = Inr x" "represents buf (node_entry (ns ! i)) x"
      using represents_item [OF l(2), of i] i by (auto simp del: represents.simps)
    have x2: "represents buf (List [String (fst (ns ! i)), Integer (snd (ns ! i))]) x" using x(2) by (simp only: node_entry_def)
    obtain x0 where x0: "list_at 0 x = Inr x0" "represents buf (String (fst (ns ! i))) x0"
      using represents_item [OF x2, of 0] by (auto simp del: represents.simps)
    obtain x1 where x1: "list_at 1 x = Inr x1" "represents buf (Integer (snd (ns ! i))) x1"
      using represents_item [OF x2, of 1] by (auto simp del: represents.simps)
    have b: "length (fst (ns ! i)) < 2 ^ 31" "- (2 ^ 31) \<le> snd (ns ! i)" "snd (ns ! i) < 2 ^ 31" using ns i by auto
    have "string_value buf x0 = Inr (fst (ns ! i))" using b by (intro string_value_represents [OF x0(2)]) simp
    moreover have "int_value buf x1 = Inr (snd (ns ! i))" using b by (intro int_value_represents [OF x1(2)]) simp_all
    moreover have "m_type x = List_t" "list_size x = 2" "m_type x0 = String_t" "m_type x1 = Int_t"
      using x2 represents_type [OF x0(2)] represents_type [OF x1(2)] by (simp_all add: list_size_def)
    ultimately show ?thesis using x(1) x0(1) x1(1) b by (simp add: int32_id)
  qed
  then have "fold_result ?f (map int [0..<length ns]) [] = Inr (fold (\<lambda>x acc. acc @ [x]) ns [])" by (rule fold_indices)
  moreover have "fold (\<lambda>x acc. acc @ [x]) ns acc = acc @ ns" for acc :: "(string \<times> int) list" by (induction ns arbitrary: acc) auto
  ultimately show ?thesis by (simp add: read_nodes_def l)
qed

definition seeds_entry :: "string list \<Rightarrow> entry option" where
  "seeds_entry us =
     (if us \<noteq> [] then Some (if length us = 1 then String (hd us) else List (map String us)) else None)"

lemma read_seeds_view:
  assumes rep: "represents buf (Dict d) n" and d: "map_of d k = seeds_entry us" and us: "\<forall>u \<in> set us. length u < 2 ^ 31"
  shows "read_seeds buf k n = Inr (map maybe_url_encode us)"
proof -
  consider "us = []" | u where "us = [u]" | "us \<noteq> []" "length us \<noteq> 1" by (cases us) (auto simp: length_Suc_conv)
  then show ?thesis
  proof cases
    case 1
    then show ?thesis using view_absent(1) [OF rep] d by (simp add: read_seeds_def seeds_entry_def)
  next
    case 2
    obtain x where x: "dict_find buf k n = Inr (Some x)" "represents buf (String u) x"
      by (rule view_node [OF rep, of k "String u"]) (simp add: d seeds_entry_def 2)
    have "string_value buf x = Inr u" using us 2 by (intro string_value_represents [OF x(2)]) simp
    then show ?thesis using x(1) represents_type [OF x(2)] 2 by (simp add: read_seeds_def)
  next
    case 3
    then have "map_of d k = Some (List (map String us))" by (simp add: d seeds_entry_def)
    then obtain x where x: "dict_find buf k n = Inr (Some x)" "represents buf (List (map String us)) x"
      by (rule view_node [OF rep])
    let ?f = "\<lambda>i acc. bind_result (list_at i x) (\<lambda>x. if m_type x \<noteq> String_t then Inr acc
                   else bind_result (string_value buf x) (\<lambda>url. Inr (acc @ [maybe_url_encode url])))"
    have "?f (int i) acc = Inr (acc @ [maybe_url_encode (us ! i)])" if i: "i < length us" for i acc
    proof -
      obtain y where y: "list_at (int i) x = Inr y" "represents buf (String (us ! i)) y"
        using represents_item [OF x(2), of i] i by (auto simp del: represents.simps)
      have "string_value buf y = Inr (us ! i)" using us i by (intro string_value_represents [OF y(2)]) simp
      then show ?thesis using y(1) represents_type [OF y(2)] by simp
    qed
    then have "fold_result ?f (map int [0..<length us]) [] = Inr (fold (\<lambda>u acc. acc @ [maybe_url_encode u]) us [])"
      by (rule fold_indices)
    moreover have "fold (\<lambda>u acc. acc @ [maybe_url_encode u]) us acc = acc @ map maybe_url_encode us" for acc
      by (induction us arbitrary: acc) auto
    moreover have "list_indices x = map int [0..<length us]" using list_indices_view [OF x(2)] by simp
    ultimately show ?thesis using x(1) represents_type [OF x(2)] by (simp add: read_seeds_def)
  qed
qed

lemma read_tier_total:
  assumes rep: "represents buf (List es) l" and wf: "wf_entry (List es)" and j: "j < length es"
  shows "\<exists>urls'. read_tier buf l (int j) urls = Inr urls'"
proof -
  obtain t where t: "list_at (int j) l = Inr t" "represents buf (es ! j) t" using represents_item [OF rep j] by blast
  show ?thesis
  proof (cases "es ! j")
    case (List us)
    note rep' = t(2) [unfolded List]
    have wf': "\<forall>u \<in> set us. wf_entry u" using wf j List nth_mem [OF j] by (metis wf_entry.simps(4))
    let ?text = "\<lambda>u. case u of String s \<Rightarrow> s | _ \<Rightarrow> ''''"
    let ?g = "\<lambda>u acc. if ?text u = [] then acc
      else acc @ [announce_trim ((new_announce_entry (?text u))\<lparr>ae_tier := int j mod 256, ae_fail_limit := 0, ae_source := 1\<rparr>)]"
    have "list_string_value_at buf (int k) t = Inr (?text (us ! k))" if k: "k < length us" for k
    proof -
      obtain x where x: "list_at (int k) t = Inr x" "represents buf (us ! k) x" using represents_item [OF rep' k] by blast
      have "wf_entry (us ! k)" using wf' k by simp
      then show ?thesis
        using x represents_type [OF x(2)] string_value_represents [of buf _ x]
        by (cases "us ! k") (simp_all add: list_string_value_at_def del: represents.simps)
    qed
    then have "fold_result (\<lambda>k acc.
             bind_result (list_string_value_at buf k t) (\<lambda>u.
               if u = [] then Inr acc
               else Inr (acc @ [announce_trim ((new_announce_entry u)\<lparr>ae_tier := int j mod 256, ae_fail_limit := 0,
                                  ae_source := 1\<rparr>)]))) (map int [0..<length us]) urls = Inr (fold ?g us urls)"
      by (intro fold_indices) simp
    then show ?thesis using t(1) represents_type [OF rep'] list_indices_view [OF rep'] by (simp add: read_tier_def)
  qed (use t represents_type [OF t(2)] in \<open>simp_all add: read_tier_def\<close>)
qed

lemma read_trackers_total:
  assumes rep: "represents buf (Dict d) n" and wf: "wf_entry (Dict d)"
    and d: "map_of d ''announce-list'' = None \<or> map_of d ''announce-list'' = Some (List es)"
  shows "\<exists>urls. read_trackers shuffle buf n = Inr urls"
proof -
  have announce: "\<exists>s. dict_find_string_value buf ''announce'' n = Inr s" using view_string_value [OF rep wf] by auto
  show ?thesis
  proof (cases "map_of d ''announce-list'' = None")
    case True
    then show ?thesis using view_absent(3) [OF rep] announce by (auto simp: read_trackers_def Let_def)
  next
    case False
    then have es: "map_of d ''announce-list'' = Some (List es)" using d by auto
    then obtain l where l: "dict_find_list buf ''announce-list'' n = Inr (Some l)" "represents buf (List es) l"
      "list_indices l = map int [0..<length es]"
      by (rule find_list_view [OF rep])
    have "\<exists>urls. fold_result (read_tier buf l) (map int js) acc = Inr urls" if "\<forall>j \<in> set js. j < length es" for js acc
      using that
    proof (induction js arbitrary: acc)
      case (Cons j js)
      then obtain acc' where "read_tier buf l (int j) acc = Inr acc'"
        using read_tier_total [OF l(2) wf_lookup [OF wf es], of j acc] by auto
      then show ?case using Cons by simp
    qed simp
    from this [of "[0..<length es]" "[]"] obtain urls where "fold_result (read_tier buf l) (list_indices l) [] = Inr urls"
      by (auto simp: l(3))
    then show ?thesis using l(1) announce by (auto simp: read_trackers_def Let_def)
  qed
qed

subsection \<open>The whole file\<close>

definition outer_ok :: "create_torrent \<Rightarrow> bool" where
  "outer_ok ct \<longleftrightarrow>
     list_all (\<lambda>u. length (fst u) < 2 ^ 31) (ct_urls ct) \<and> list_all (\<lambda>u. length u < 2 ^ 31) (ct_url_seeds ct) \<and>
     list_all (\<lambda>x. length (fst x) < 2 ^ 31 \<and> - (2 ^ 31) \<le> snd x \<and> snd x < 2 ^ 31) (ct_nodes ct) \<and>
     length (ct_comment ct) < 2 ^ 31 \<and> length (ct_created_by ct) < 2 ^ 31 \<and>
     0 \<le> ct_creation_date ct \<and> ct_creation_date ct < 2 ^ 63"

text \<open>The list of trackers holds the URLs in their order, cut into tiers.\<close>

lemma announce_list_tiers: "\<exists>tiers. announce_list urls = List (map (\<lambda>us. List (map String us)) tiers) \<and> concat tiers = map fst urls"
proof -
  have "\<exists>ts t c'. fold announce_step urls (map (\<lambda>us. List (map String us)) ts0, map String t0, c) =
      (map (\<lambda>us. List (map String us)) ts, map String t, c') \<and> concat ts @ t = concat ts0 @ t0 @ map fst urls" for ts0 t0 c
  proof (induction urls arbitrary: ts0 t0 c)
    case (Cons u urls)
    obtain url t where u: "u = (url, t)" by (cases u)
    show ?case
    proof (cases "t = c")
      case True
      then show ?thesis using Cons.IH [of ts0 "t0 @ [url]" c] by (simp add: announce_step_def u)
    next
      case False
      then show ?thesis using Cons.IH [of "ts0 @ [t0]" "[url]" t] by (simp add: announce_step_def u)
    qed
  qed auto
  from this [of "[]" "[]" "snd (hd urls)"] obtain ts t c' where
    "fold announce_step urls ([], [], snd (hd urls)) = (map (\<lambda>us. List (map String us)) ts, map String t, c')"
    "concat ts @ t = map fst urls" by auto
  then show ?thesis by (intro exI [of _ "ts @ [t]"]) (simp add: announce_list_def)
qed

lemma announce_list_shape:
  assumes "list_all (\<lambda>u. length (fst u) < 2 ^ 31) urls"
  shows "\<exists>es. announce_list urls = List es" "wf_entry (announce_list urls)" "nesting (announce_list urls) < 6"
proof -
  obtain tiers where t: "announce_list urls = List (map (\<lambda>us. List (map String us)) tiers)" "concat tiers = map fst urls"
    using announce_list_tiers by blast
  have "length s < 2 ^ 31" if "us \<in> set tiers" "s \<in> set us" for us s
  proof -
    have "s \<in> set (map fst urls)" using that by (auto simp flip: t(2))
    then show ?thesis using assms by (auto simp: list_all_iff)
  qed
  then show "wf_entry (announce_list urls)" "\<exists>es. announce_list urls = List es" by (auto simp: t(1))
  have "nesting (List (map String us)) < 4" for us
    by (rule le_less_trans [of _ 2]) (auto simp: nesting_List_le simp del: nesting.simps(1))
  then have "nesting (announce_list urls) \<le> 4" unfolding t(1) by (auto simp: nesting_List_le simp del: nesting.simps(1))
  then show "nesting (announce_list urls) < 6" by simp
qed

lemma outer_shape:
  assumes ct: "outer_ok ct" and d: "sorted_keys d" "map_of d = (outer_map ct)(''info'' \<mapsto> e)"
    and e: "wf_entry e" "nesting e \<le> 5"
  shows "wf_entry (Dict d)" "nesting (Dict d) \<le> 6"
proof -
  have nodes: "wf_entry (List (map node_entry (ct_nodes ct)))" "nesting (List (map node_entry (ct_nodes ct))) < 6"
  proof -
    show "wf_entry (List (map node_entry (ct_nodes ct)))" using ct by (auto simp: outer_ok_def node_entry_def list_all_iff)
    have "nesting (node_entry x) < 4" for x
      by (rule le_less_trans [of _ 2]) (auto simp: node_entry_def nesting_List_le simp del: nesting.simps(1))
    then have "nesting (List (map node_entry (ct_nodes ct))) \<le> 4" by (auto simp: nesting_List_le simp del: nesting.simps(1))
    then show "nesting (List (map node_entry (ct_nodes ct))) < 6" by (rule le_less_trans) simp
  qed
  have seeds: "wf_entry (List (map String (ct_url_seeds ct)))" "nesting (List (map String (ct_url_seeds ct))) < 6"
    using ct le_less_trans [of _ 2 6] nesting_List_le [of "map String (ct_url_seeds ct)" 2]
    by (auto simp: outer_ok_def list_all_iff simp del: nesting.simps(1))
  have firsts: "ct_urls ct \<noteq> [] \<longrightarrow> length (fst (hd (ct_urls ct))) < 2 ^ 31" "ct_url_seeds ct \<noteq> [] \<longrightarrow> length (hd (ct_url_seeds ct)) < 2 ^ 31"
    using ct by (auto simp: outer_ok_def list_all_iff)
  note lst = announce_list_shape(2,3) [of "ct_urls ct"]
  have vals: "wf_entry v \<and> nesting v < 6 \<and> length k < 2 ^ 31" if "map_of d k = Some v" for k v
    using that e nodes seeds firsts lst ct unfolding d(2) outer_map_def outer_ok_def
    by (auto simp: le_less_trans split: if_splits simp del: wf_entry.simps(4,5) nesting.simps(1,2))
  show "wf_entry (Dict d)" by (rule wf_Dict_map [OF d(1)]) (use vals in blast)
  show "nesting (Dict d) \<le> 6" by (rule nesting_Dict_map [OF d(1)]) (use vals in auto)
qed

lemma generate_created:
  assumes ops: "path_grammar ops" and ct: "creatable ct" "\<not> ct_merkle_torrent ct" "ct_info_dict ct = Undefined"
  obtains d ds info where "generate ops hash uninit ct = Inr (Dict d, ct\<lparr>ct_info_hash := hash (encoding (Dict info))\<rparr>)"
    "described ops ct ds info" "sorted_keys d" "map_of d = (outer_map ct)(''info'' \<mapsto> Dict info)"
proof -
  let ?fs = "m_files (ct_files ct)"
  have name: "simple_name (m_name (ct_files ct))" and fs: "?fs \<noteq> []" "length ?fs < 2 ^ 31"
    using ct(1) by (simp_all add: creatable_def Let_def)
  have "path_elements ops (fe_path f) \<noteq> []" if "f \<in> set ?fs" for f
    using creatable_sizes(3) [OF ct(1) that] portable_path_elements [OF ops name]
    by (metis list.distinct(1) portable_file_def)
  then obtain ds where ds: "returns_dict (generate_info ops hash uninit ct) (info_map ops ct ds)"
    "list_all2 (\<lambda>f d. sorted_keys d \<and> map_of d = file_map ops f) ?fs ds"
    using generate_info_returns [OF ct(2) fs(1)] by blast
  obtain info where info: "generate_info ops hash uninit ct = Inr (Dict info)" "sorted_keys info" "map_of info = info_map ops ct ds"
    by (rule returns_dictE [OF ds(1)])
  obtain o1 where o1: "generate_outer ct = Inr (Dict o1)" "sorted_keys o1" "map_of o1 = outer_map ct"
    by (rule returns_dictE [OF generate_outer_returns])
  obtain d where d: "subscript_assign (Dict o1) ''info'' (Dict info) = Inr (Dict d)" "sorted_keys d"
    "map_of d = (outer_map ct)(''info'' \<mapsto> Dict info)"
    by (rule returns_dictE [OF subscript_assign_returns [of "Dict o1" "outer_map ct"]]) (use o1 in auto)
  have "num_files (ct_files ct) \<noteq> 0" using fs by (simp add: num_files_def int32_id)
  then have "generate ops hash uninit ct = Inr (Dict d, ct\<lparr>ct_info_hash := hash (encoding (Dict info))\<rparr>)"
    using o1(1) info(1) d(1) ct(3) by (simp add: generate_def bencode_def)
  moreover have "described ops ct ds info" using info ds(2) by (simp add: described_def)
  ultimately show thesis using that d by blast
qed

lemma parse_created_outer:
  assumes ct: "outer_ok ct" and d: "sorted_keys d" "map_of d = (outer_map ct)(''info'' \<mapsto> Dict info)"
    and info: "wf_entry (Dict info)" "nesting (Dict info) \<le> 5"
  obtains n urls where "represents (encoding (Dict d)) (Dict info) n"
    "torrent_info_buffer ops hash shuffle (encoding (Dict d)) =
      Some (parse_info_section ops hash (encoding (Dict d)) n (new_torrent_info\<lparr>ti_urls := urls, ti_nodes := ct_nodes ct,
        ti_creation_date := Some (ct_creation_date ct), ti_url_seeds := map maybe_url_encode (ct_url_seeds ct),
        ti_comment := repaired (ct_comment ct), ti_created_by := repaired (ct_created_by ct)\<rparr>))"
proof -
  define buf where "buf = encoding (Dict d)"
  note shape = outer_shape [OF ct d info]
  have nest: "int (nesting (Dict d)) \<le> 1000" using shape(2) by linarith
  obtain e where e: "lazy_bdecode buf 1000 = Some (Inr 0, e)" and rep: "represents buf (Dict d) e"
    using lazy_bdecode_represents [OF shape(1) nest, of "[]"] by (auto simp: buf_def simp del: represents.simps)
  obtain n where n: "dict_find buf ''info'' e = Inr (Some n)" "represents buf (Dict info) n"
    by (rule view_node [OF rep, of "''info''" "Dict info"]) (simp add: d)
  have types: "m_type n = Dict_t" "m_type e = Dict_t" using represents_type [OF n(2)] represents_type [OF rep] by simp_all
  have dict: "dict_find_dict buf ''info'' e = Inr (Some n)" by (simp add: dict_find_dict_def n types)
  obtain es where "announce_list (ct_urls ct) = List es" using ct announce_list_shape(1) by (auto simp: outer_ok_def)
  then obtain urls where urls: "read_trackers shuffle buf e = Inr urls"
    using read_trackers_total [OF rep shape(1), of es] by (fastforce simp: d outer_map_def)
  have nodes: "read_nodes buf e = Inr (ct_nodes ct)"
    using ct by (intro read_nodes_view [OF rep]) (auto simp: d outer_map_def outer_ok_def list_all_iff)
  have seeds: "read_seeds buf ''url-list'' e = Inr (map maybe_url_encode (ct_url_seeds ct))"
    using ct by (intro read_seeds_view [OF rep]) (auto simp: d outer_map_def outer_ok_def seeds_entry_def list_all_iff)
  have http: "read_seeds buf ''httpseeds'' e = Inr []"
    using read_seeds_view [OF rep, of "''httpseeds''" "[]"] by (simp add: d outer_map_def seeds_entry_def)
  have date: "dict_find_int_value buf ''creation date'' (- 1) e = Inr (ct_creation_date ct)"
    using view_int_value [OF rep shape(1)] by (simp add: d outer_map_def)
  have texts: "utf8_or buf ''comment.utf-8'' ''comment'' e = Inr (ct_comment ct)"
    "utf8_or buf ''created by.utf-8'' ''created by'' e = Inr (ct_created_by ct)"
    using view_string_value [OF rep shape(1)] by (simp_all add: utf8_or_def d outer_map_def)
  have "0 \<le> ct_creation_date ct" using ct by (simp add: outer_ok_def)
  then have "parse_torrent_file ops hash shuffle buf e new_torrent_info = parse_info_section ops hash buf n
      (new_torrent_info\<lparr>ti_urls := urls, ti_nodes := ct_nodes ct,
        ti_creation_date := Some (ct_creation_date ct), ti_url_seeds := map maybe_url_encode (ct_url_seeds ct),
        ti_comment := repaired (ct_comment ct), ti_created_by := repaired (ct_created_by ct)\<rparr>)"
    by (simp add: parse_torrent_file_def types urls nodes seeds http date texts dict Let_def new_torrent_info_def verify_encoding_repaired)
  then have "torrent_info_buffer ops hash shuffle buf = Some (parse_info_section ops hash buf n
      (new_torrent_info\<lparr>ti_urls := urls, ti_nodes := ct_nodes ct,
        ti_creation_date := Some (ct_creation_date ct), ti_url_seeds := map maybe_url_encode (ct_url_seeds ct),
        ti_comment := repaired (ct_comment ct), ti_created_by := repaired (ct_created_by ct)\<rparr>))"
    using e by (simp add: torrent_info_buffer_def)
  from that [OF n(2) [unfolded buf_def] this [unfolded buf_def]] show thesis .
qed

lemma hash_of_concat:
  assumes "list_all (\<lambda>h. length h = 20) hs" "i < length hs"
  shows "take 20 (drop (20 * i) (concat hs)) = hs ! i"
  using assms
proof (induction hs arbitrary: i)
  case (Cons h hs)
  then show ?case by (cases i) simp_all
qed simp

lemma parse_created_info:
  assumes ops: "path_grammar ops" and ct: "creatable ct" and info: "described ops ct ds info"
    and rep: "represents buf (Dict info) n" and len: "length buf < 2 ^ 31"
    and ti: "ti_files ti = new_file_storage" "ti_merkle_tree ti = []"
  obtains off where "parse_info_section ops hash buf n ti =
      Inr (ti\<lparr>ti_info_hash := hash (encoding (Dict info)), ti_info_section := encoding (Dict info), ti_files := ct_files ct,
        ti_multifile := ct_multifile ct, ti_piece_hashes := Some (int off), ti_private := ct_private ct\<rparr>)"
    "off + length (concat (ct_piece_hash ct)) \<le> length (encoding (Dict info))"
    "subbytes (encoding (Dict info)) (int off) (int (length (concat (ct_piece_hash ct)))) = concat (ct_piece_hash ct)"
proof -
  let ?st = "ct_files ct" let ?pieces = "concat (ct_piece_hash ct)"
  define enc where "enc = encoding (Dict info)"
  have ct': "simple_name (m_name ?st)" "0 < m_piece_length ?st" "m_piece_length ?st < 2 ^ 31"
    "length ?pieces = 20 * length (ct_piece_hash ct)" "int (length (ct_piece_hash ct)) = m_num_pieces ?st" "20 * m_num_pieces ?st < 2 ^ 31"
    using ct length_concat_hashes [of "ct_piece_hash ct"] by (auto simp: creatable_def Let_def)
  define ti1 where "ti1 = ti\<lparr>ti_info_hash := hash enc, ti_info_section := enc, ti_files := set_piece_length (m_piece_length ?st) (ti_files ti)\<rparr>"
  have "ti_files ti1 = set_piece_length (m_piece_length ?st) new_file_storage" by (simp add: ti1_def ti)
  then obtain st where st: "read_files ops buf n (m_name ?st) ti1 = Inr (ti1\<lparr>ti_files := st, ti_multifile := ct_multifile ct\<rparr>)"
    "finish_files (m_name ?st) st = ?st" "piece_count st = m_num_pieces ?st"
    by (rule read_created_files [OF ops ct info rep])
  have lk: "map_of info ''piece length'' = Some (Integer (m_piece_length ?st))" "map_of info ''name'' = Some (String (m_name ?st))"
      "map_of info ''pieces'' = Some (String ?pieces)" "map_of info ''name.utf-8'' = None" "map_of info ''root hash'' = None"
      "(case map_of info ''private'' of Some (Integer v) \<Rightarrow> v | _ \<Rightarrow> 0) = of_bool (ct_private ct)"
    using info by (simp_all add: described_def info_map_def info_files_def info_base_def attr_map_def Let_def)
  note name = simple_name_sanitized [OF ops ct'(1)]
  have "int (length ?pieces) = int32 (m_num_pieces ?st * 20)" unfolding ct'(4) using ct'(5,6) by (simp add: int32_id)
  then have "\<exists>off. parse_info_section ops hash buf n ti =
      Inr (ti1\<lparr>ti_multifile := ct_multifile ct, ti_files := ?st, ti_piece_hashes := Some (int off), ti_private := ct_private ct\<rparr>) \<and>
    off + length ?pieces \<le> length enc \<and> subbytes enc (int off) (int (length ?pieces)) = ?pieces"
    using parse_info_section_view [OF rep info_shape(1) [OF ops ct info] len lk ct'(2,3) name(1), of ops "m_name ?st" ti hash
        "ti1\<lparr>ti_files := st, ti_multifile := ct_multifile ct\<rparr>", folded enc_def, folded ti1_def] name st
    by (simp add: ti1_def)
  then show thesis using that unfolding ti1_def enc_def [symmetric] by (cases ti) auto
qed

text \<open>
  What is generated is what is read: from the encoding of the dictionary, if an \<open>int\<close> can hold its length, \<open>torrent_info\<close> is constructed,
  with exactly the same storage.
\<close>

lemma generated_torrent:
  assumes "path_grammar ops" "creatable ct" "outer_ok ct" "\<not> ct_merkle_torrent ct" "ct_info_dict ct = Undefined"
  shows "\<exists>d ct'. generate ops hash uninit ct = Inr (d, ct') \<and>
    (length (snd (bencode d)) < 2 ^ 31 \<longrightarrow>
     (\<exists>ti. torrent_info_buffer ops hash shuffle (snd (bencode d)) = Some (Inr ti) \<and>
       ti_files ti = ct_files ct \<and> ti_multifile ti = ct_multifile ct \<and> ti_info_hash ti = ct_info_hash ct' \<and>
       (\<forall>i < length (ct_piece_hash ct). hash_for_piece (int i) ti = Inr (ct_piece_hash ct ! i)) \<and>
       ti_private ti = ct_private ct \<and> ti_creation_date ti = Some (ct_creation_date ct) \<and> ti_nodes ti = ct_nodes ct \<and>
       ti_url_seeds ti = map maybe_url_encode (ct_url_seeds ct)))"
proof -
  obtain d ds info where g: "generate ops hash uninit ct = Inr (Dict d, ct\<lparr>ct_info_hash := hash (encoding (Dict info))\<rparr>)"
    "described ops ct ds info" "sorted_keys d" "map_of d = (outer_map ct)(''info'' \<mapsto> Dict info)"
    by (rule generate_created [OF assms(1,2,4,5)])
  note shape = info_shape [OF assms(1,2) g(2)]
  let ?pieces = "concat (ct_piece_hash ct)"
  have pieces: "length ?pieces = 20 * length (ct_piece_hash ct)" "20 * length (ct_piece_hash ct) < 2 ^ 31" "list_all (\<lambda>h. length h = 20) (ct_piece_hash ct)"
    using assms(2) length_concat_hashes [of "ct_piece_hash ct"] by (auto simp: creatable_def Let_def)
  have "\<exists>ti. torrent_info_buffer ops hash shuffle (encoding (Dict d)) = Some (Inr ti) \<and>
       ti_files ti = ct_files ct \<and> ti_multifile ti = ct_multifile ct \<and> ti_info_hash ti = hash (encoding (Dict info)) \<and>
       (\<forall>i < length (ct_piece_hash ct). hash_for_piece (int i) ti = Inr (ct_piece_hash ct ! i)) \<and>
       ti_private ti = ct_private ct \<and> ti_creation_date ti = Some (ct_creation_date ct) \<and> ti_nodes ti = ct_nodes ct \<and>
       ti_url_seeds ti = map maybe_url_encode (ct_url_seeds ct)" if len: "length (encoding (Dict d)) < 2 ^ 31"
  proof -
    define buf where "buf = encoding (Dict d)"
    obtain n urls where n: "represents buf (Dict info) n" "torrent_info_buffer ops hash shuffle buf =
        Some (parse_info_section ops hash buf n (new_torrent_info\<lparr>ti_urls := urls, ti_nodes := ct_nodes ct,
          ti_creation_date := Some (ct_creation_date ct), ti_url_seeds := map maybe_url_encode (ct_url_seeds ct),
          ti_comment := repaired (ct_comment ct), ti_created_by := repaired (ct_created_by ct)\<rparr>))"
      (is "_ = Some (parse_info_section _ _ _ _ ?ti)")
      unfolding buf_def by (rule parse_created_outer [OF assms(3) g(3,4) shape])
    have ti: "ti_files ?ti = new_file_storage" "ti_merkle_tree ?ti = []" by (simp_all add: new_torrent_info_def)
    obtain off where off: "parse_info_section ops hash buf n ?ti =
        Inr (?ti\<lparr>ti_info_hash := hash (encoding (Dict info)), ti_info_section := encoding (Dict info), ti_files := ct_files ct,
          ti_multifile := ct_multifile ct, ti_piece_hashes := Some (int off), ti_private := ct_private ct\<rparr>)" (is "_ = Inr ?ti'")
      "off + length ?pieces \<le> length (encoding (Dict info))"
      "subbytes (encoding (Dict info)) (int off) (int (length ?pieces)) = ?pieces"
      by (rule parse_created_info [OF assms(1,2) g(2) n(1) len [folded buf_def] ti])
    have "hash_for_piece (int i) ?ti' = Inr (ct_piece_hash ct ! i)" if i: "i < length (ct_piece_hash ct)" for i
      using hash_for_piece_view [of ?ti' off ?pieces i] off(2,3) ti(2) pieces i hash_of_concat [OF pieces(3) i]
      by (simp del: bencode_recursive.simps length_concat)
    then show ?thesis using n(2) off(1) unfolding buf_def by (intro exI [of _ ?ti']) (simp del: bencode_recursive.simps)
  qed
  then show ?thesis using g(1) by (simp add: bencode_def del: bencode_recursive.simps)
qed

subsection \<open>A sample\<close>

definition sample_storage :: file_storage where
  "sample_storage =
     \<lparr>m_piece_length = 4,
      m_files = [new_file_entry\<lparr>fe_path := ''t/a'', fe_size := 3, fe_mtime := 5, fe_executable_attribute := True\<rparr>,
        new_file_entry\<lparr>fe_path := ''t/b/c'', fe_offset := 3, fe_symlink_attribute := True, fe_symlink_path := ''../a''\<rparr>,
        new_file_entry\<lparr>fe_path := ''t/c'', fe_offset := 3, fe_size := 2\<rparr>],
      m_total_size = 5, m_num_pieces = 2, m_name = ''t''\<rparr>"

definition sample_create :: create_torrent where
  "sample_create =
     \<lparr>ct_files = sample_storage, ct_info_dict = Undefined, ct_urls = [(''http://x'', 0), (''http://y'', 1)],
      ct_url_seeds = [''http://s''], ct_piece_hash = [replicate 20 (CHR ''x''), replicate 20 (CHR ''y'')], ct_nodes = [(''n'', 6881)],
      ct_info_hash = [], ct_creation_date = 7, ct_comment = '''', ct_created_by = ''me'', ct_multifile = True, ct_private = True,
      ct_merkle_torrent = False\<rparr>"

lemma sample_create_ok: "creatable sample_create" "outer_ok sample_create"
proof -
  have name: "simple_name ''t''" by (rule simple_letters) simp
  have parts: "split_slash ''t/a'' = [''t'', ''a'']" "split_slash ''t/b/c'' = [''t'', ''b'', ''c'']" "split_slash ''t/c'' = [''t'', ''c'']"
    "split_slash ''../a'' = [''..'', ''a'']" by code_simp+
  have pads: "\<not> is_pad_name ''t/a''" "\<not> is_pad_name ''t/b/c''" "\<not> is_pad_name ''t/c''" by code_simp+
  have "clash_free [''t/a'', ''t/b/c'', ''t/c'']" by code_simp
  moreover have "list_all (portable_file True ''t'') (m_files sample_storage)"
    using pads by (simp add: sample_storage_def portable_file_def portable_path_def portable_link_def new_file_entry_def parts simple_letters)
  ultimately show "creatable sample_create"
    using name by (simp add: creatable_def sample_create_def sample_storage_def storage_ok_def total_of_def new_file_entry_def)
  show "outer_ok sample_create" by (simp add: outer_ok_def sample_create_def)
qed

end
