(* ===== verification/Spec2Isabelle.thy ===== *)
theory Spec2Isabelle
  imports SampleTorrent LighttpdModule IpFilter Sha1 CreateTorrent
begin

text \<open>
  This development verifies InstantMirror, a web server that downloads the files it serves from
  torrents on demand. It models the path of a request through the program, from the URL that the web
  server receives down to the bytes of the torrent file.

  \<^bold>\<open>The program.\<close> A module of the web server lighttpd (\<open>src/im1/lighttpd-1.4.23/src/mod_instantmirror.c\<close>)
  sends the path of each URL to a daemon over a local socket. The daemon (\<open>src/im1/imdaemon\<close>) looks for
  a torrent file with the first part of the path as its name, reads the list of its files with libtorrent
  (\<open>src/libtorrent\<close>), downloads the requested file or writes an index page, and answers with the path
  below the document root. libtorrent decodes the torrent file (\<open>lazy_bdecode.cpp\<close>), checks it and
  builds a \<open>torrent_info\<close> (\<open>torrent_info.cpp\<close>), which holds the layout of the files in the
  pieces (\<open>file_storage.cpp\<close>) and the hashes of the pieces.

  \<^bold>\<open>The platform.\<close> The program is modelled as compiled for 64-bit Linux: \<open>char\<close> is signed and has 8 bits,
  \<open>int\<close> 32, \<open>long\<close>, \<open>size_t\<close> and \<open>size_type\<close> 64, and signed arithmetic wraps around. A C++ operation returns
  \<open>fault + 'a\<close>; the faults are an access outside an array, a null or stale pointer, a member of a
  union that is not the one in use, \<open>exit\<close>, a thrown exception, and a call that does not return. Pointers into a
  buffer are positions in it. Loops that need not end are \<open>while_option\<close> loops, whose value \<open>None\<close> is divergence;
  all other loops are recursive functions that terminate.

  \<^bold>\<open>The theories\<close>, in the order of their imports:

  \<^item> \<open>Prelude\<close>: machine integers, bytes, faults, results and loops.
  \<^item> \<open>EscapeString\<close>, \<open>BaseEncoding\<close> and \<open>Urls\<close>: \<open>escape_string.cpp\<close> and \<open>parse_url.cpp\<close>. Round trips of the
    URL escapes, of hexadecimal and of base 32; a URL put together from its parts is taken apart into them.
  \<^item> \<open>Entry\<close> and \<open>Bencode\<close>: \<open>entry.cpp\<close> and \<open>bencode.hpp\<close>. The value type, with the map of a dictionary as a locale
    (\<open>string_map\<close>), the encoder and the decoder; decoding inverts encoding, and no encoding is a prefix of another.
  \<^item> \<open>LazyBdecode\<close> and \<open>EntryView\<close>: \<open>lazy_bdecode.cpp\<close> and \<open>lazy_entry.hpp\<close>. The decoder that leaves the values in the
    buffer. On every encoding it ends and its tree, read with the accessors, is the encoded value (\<open>represents\<close>); on
    any input its tree and its arrays stay within their limits; and inputs on which it loops or reads out of bounds.
    The locale \<open>entry_view\<close> is what the parser of torrents uses of the tree.
  \<^item> \<open>FileStorage\<close>: \<open>file_storage.cpp\<close> and \<open>file_storage.hpp\<close>. The layout of files, \<open>map_block\<close> and \<open>map_file\<close>, which
    translate between pieces and files, and \<open>optimize\<close>, which reorders files and adds padding.
  \<^item> \<open>Paths\<close>, \<open>Merkle\<close> and \<open>TorrentInfo\<close>: \<open>torrent_info.cpp\<close> and \<open>torrent_info.hpp\<close>. Repair of names that are not UTF-8,
    sanitising of paths, Merkle trees, and the parser of torrent files with its constructors. The grammar of
    paths that the code expects from \<open>boost::filesystem\<close> is the locale \<open>path_grammar\<close>, interpreted with POSIX paths.
  \<^item> \<open>TorrentParse\<close> and \<open>TorrentFaults\<close>: properties of the parser. No torrent file, whatever its bytes, names a
    path outside the download directory; what is encoded is what is read; the info-hash is the hash of the bytes of
    the info dictionary; and the consequences of checks that are missing.
  \<^item> \<open>StdString\<close>: the members of \<open>std::string\<close> that the daemon uses.
  \<^item> \<open>TorrentStatus\<close>: \<open>torrentStatus.cpp\<close>, the record of the files that were downloaded, and its migration to a
    changed torrent file.
  \<^item> \<open>Daemon\<close> and \<open>Downloads\<close>: \<open>daemon.cpp\<close>. The list of the files of a torrent and \<open>getTorrent\<close>. The locale
    \<open>daemon_invariant\<close> is what a property of the state must satisfy to hold after every operation; it is
    interpreted with the well-formedness of the state, with the history of events and with the status
    never becoming empty again. \<open>Downloads\<close> shows what a request does in each case.
  \<^item> \<open>TorrentIndex\<close>: \<open>torrentIndex.cpp\<close>, the index pages: which rows they have, and when the buffers are too small.
  \<^item> \<open>ImDaemon\<close>: \<open>imdaemon.cpp\<close>, the main loop. Its runs are the inductive relation \<open>serves\<close>; the invariants of
    \<open>daemon_invariant\<close> hold along every run, by rule induction.
  \<^item> \<open>SampleTorrent\<close>: a torrent with links and an environment that has it, at which the properties of the daemon
    are applied.
  \<^item> \<open>LighttpdModule\<close>: the handler of the web server.
  \<^item> This theory: the web server and the daemon together.

  \<^bold>\<open>Parameters.\<close> \<open>boost::filesystem\<close> is the record \<open>fs_ops\<close>, the hash function and the shuffling of trackers are
  functions. What the operating system and the session of libtorrent do for the daemon is the record
  \<open>daemon_env\<close>: the contents and times of files, whether the session takes a torrent, and the states that it reports at
  each poll. A run of the daemon may have another environment in each round. The socket calls of the module are the
  record \<open>module_env\<close>. The contents of arrays that are not initialised are parameters as well.

  \<^bold>\<open>Bounds.\<close> \<open>lazy_bdecode\<close> has the depth limit 1000 that its callers pass. The recursion of \<open>getTorrent\<close> along links is
  bounded by a number, and a bound that is too small is reported as divergence. The properties that say that a call returns
  hold for every bound from one on, or two for a link to a file; those that say that it does not return hold for
  every bound, and the divergence comes from a loop and not from the bound.

  \<^bold>\<open>Not modelled.\<close> The session of libtorrent with its peers, trackers, disk access and the choice of pieces: threads and
  asynchronous input and output that the daemon only sees through the calls above. Output to the terminal and logs.
  Memory that is not released. The creation of the daemon's socket and the configuration of the module. lighttpd itself and the
  libraries shipped with the sources. \<open>torrentUtilities.cpp\<close>, which is not compiled, and \<open>src/im0\<close>, an earlier version of the server.
\<close>

section \<open>The web server and the daemon together\<close>

text \<open>
  The socket between the module of the web server and the daemon. The first call of \<open>recv\<close> gets the
  first message of the daemon, the second call the second one. If the daemon does not return from the request, the
  call waits; if it ended, or closed the connection without a message, the call gets nothing.
\<close>

definition message :: "nat \<Rightarrow> string list \<times> unit result \<Rightarrow> string option result" where
  "message i = (\<lambda>(out, r).
     if i < length out then Inr (Some (out ! i)) else if r = Inl Diverges then Inl Diverges else Inr (Some []))"

definition daemon_peer :: "nat \<Rightarrow> daemon_env \<Rightarrow> main_state \<Rightarrow> string \<Rightarrow> string option result \<times> string option result" where
  "daemon_peer fuel env ms sent =
     (message 0 (fst (main_round fuel env sent ms)), message 1 (fst (main_round fuel env sent ms)))"

definition server_env :: "nat \<Rightarrow> daemon_env \<Rightarrow> main_state \<Rightarrow> string \<Rightarrow> string \<Rightarrow> module_env" where
  "server_env fuel env ms i path =
     \<lparr>me_socket = True, me_connect = True, me_send = True, me_peer = daemon_peer fuel env ms, me_i = i, me_path = path\<rparr>"

lemma server_request:
  assumes "con_plugin_ctx con = None" "con_uri_path con = ''/'' @ p" "CHR 0x00 \<notin> set p"
    and "fst (main_round fuel env (request_bytes p) ms) = (out, r)"
  shows "uri_handler (server_env fuel env ms i path) con =
    (case recv_array 2 (message 0 (out, r)) i of
       Inl e \<Rightarrow> (Inl e, con\<lparr>con_open_sockets := con_open_sockets con + 1\<rparr>)
     | Inr i' \<Rightarrow>
         if take 2 i' = [CHR ''0'', CHR 0x00] then (Inr HANDLER_GO_ON, con\<lparr>con_open_sockets := con_open_sockets con + 1\<rparr>)
         else
           (case bind_result (recv_array 100 (message 1 (out, r)) path) (\<lambda>path. c_string_at path 0) of
              Inl e \<Rightarrow> (Inl e, con\<lparr>con_open_sockets := con_open_sockets con + 1\<rparr>)
            | Inr path' \<Rightarrow>
                (Inr HANDLER_COMEBACK,
                 con\<lparr>con_request_uri := path',
                     con_plugin_ctx := Some \<lparr>hc_state = REWRITE_STATE_FINISHED, hc_loops = 0\<rparr>\<rparr>)))"
proof -
  have "c_str (''/'' @ p) = ''/'' @ p" using assms(3) by (intro c_str_id) auto
  then have sent: "c_str (con_uri_path con) @ [CHR 0x00] = request_bytes p" using assms(2) by (simp add: request_bytes_def)
  show ?thesis
    unfolding uri_handler_def ask_daemon_def sent
    using assms(1,4)
    by (simp add: server_env_def daemon_peer_def handler_ctx_init_def Let_def split: sum.split)
qed

lemma message_string:
  assumes "CHR 0x00 \<notin> set s" "length s < 100"
  shows "bind_result (recv_array 100 (Inr (Some (s @ [CHR 0x00]))) path) (\<lambda>path. c_string_at path 0) = Inr s"
proof -
  have "c_str (s @ CHR 0x00 # r) = s" for r using assms(1) takeWhile_miss [of "CHR 0x00" s] by (simp add: c_str_def)
  then show ?thesis using assms(2) by (simp add: recv_array_def store_bytes_def c_string_at_def)
qed





text \<open>
  C40: A URL that is not below a torrent is left to the web server, at the price of a socket: the daemon answers \<open>0\<close>, its state is
  unchanged, and the handler lets the request go on with its URI, without closing its socket.
\<close>

theorem url_without_torrent:
  assumes "short_request t f" "env_stat env (TORRENT_LOCATION @ t) = None"
    and "con_plugin_ctx con = None" "con_uri_path con = ''/'' @ t @ ''/'' @ f"
  shows "uri_handler (server_env fuel env ms i0 path0) con =
      (Inr HANDLER_GO_ON, con\<lparr>con_open_sockets := con_open_sockets con + 1\<rparr>) \<and>
    ms_daemon (snd (main_round fuel env (request_bytes (t @ ''/'' @ f)) ms)) = ms_daemon ms"
proof -
  have p: "CHR 0x00 \<notin> set (t @ ''/'' @ f)" using assms(1) by (simp add: short_request_def)
  have "main_round fuel env (request_bytes (t @ ''/'' @ f)) ms =
      (([''0'' @ [CHR 0x00]], Inr ()), ms\<lparr>ms_str := receive (request_bytes (t @ ''/'' @ f)) (ms_str ms)\<rparr>)"
    using checkRequest_file [OF assms(1), of env "ms_str ms"] short_request_received [OF assms(1), of "ms_str ms"] assms(2)
    by (simp add: main_round_def Let_def)
  then show ?thesis
    using server_request [OF assms(3,4) p, of fuel env ms] by (simp add: message_def recv_array_def store_bytes_def)
qed

theorem url_without_torrent_witness:
  "uri_handler (server_env 3 (sample_env\<lparr>env_stat := \<lambda>_. None\<rparr>) (initial_state (replicate 101 (CHR ''?''))) ''??'' (replicate 100 (CHR ''?'')))
      \<lparr>con_uri_path = ''/x/y'', con_request_uri = ''/x/y'', con_plugin_ctx = None, con_open_sockets = 0\<rparr> =
    (Inr HANDLER_GO_ON, \<lparr>con_uri_path = ''/x/y'', con_request_uri = ''/x/y'', con_plugin_ctx = None, con_open_sockets = 1\<rparr>)"
proof -
  have "short_request ''x'' ''y''" by (simp add: short_request_def)
  then show ?thesis
    using url_without_torrent [of "''x''" "''y''" "sample_env\<lparr>env_stat := \<lambda>_. None\<rparr>"
        "\<lparr>con_uri_path = ''/x/y'', con_request_uri = ''/x/y'', con_plugin_ctx = None, con_open_sockets = 0\<rparr>" 3
        "initial_state (replicate 101 (CHR ''?''))" "''??''" "replicate 100 (CHR ''?'')"] by simp
qed

end
